(* ===== verification/Prelude.thy ===== *)
theory Prelude
  imports Main "HOL-Library.Word"
begin

text \<open>
  Shared vocabulary of the development: the result type of fallible Go functions, the types of
  bytes and session identifiers, the collections of facts the component proofs use, and generic
  lemmas on lists, maps and words.

  \<^item> A Go function that returns \<open>(T, error)\<close> is a function into \<open>'e + 'a\<close>: \<open>Inl e\<close> is a non-nil
    error, \<open>Inr x\<close> the value returned with a nil error.
  \<^item> A Go string is a sequence of bytes, and so is HOL's \<^typ>\<open>string\<close> (a \<^typ>\<open>char\<close> has 256
    values). A byte slice that holds text is a \<^typ>\<open>string\<close>; one that holds binary data (addresses,
    packets, keys, signatures) is a list of \<^typ>\<open>8 word\<close>.
  \<^item> A Go map is a HOL map; \<open>delete(m, k)\<close> is \<open>m(k := None)\<close>.
\<close>

type_synonym byte = "8 word"
type_synonym u16 = "16 word"
type_synonym u32 = "32 word"
type_synonym u64 = "64 word"
type_synonym u128 = "128 word"
type_synonym session_id = string

named_theorems go_text \<open>facts about the Go string and number routines\<close>
named_theorems inv_rules \<open>preservation of a component's invariant by its operations\<close>
named_theorems step_defs \<open>the definitions of the operations of a state machine\<close>

section \<open>Results\<close>

fun rbind :: "'e + 'a \<Rightarrow> ('a \<Rightarrow> 'e + 'b) \<Rightarrow> 'e + 'b" where
  "rbind (Inl e) f = Inl e"
| "rbind (Inr x) f = f x"

lemma rbind_Inr_iff: "rbind r f = Inr y \<longleftrightarrow> (\<exists>x. r = Inr x \<and> f x = Inr y)"
  by (cases r) auto

lemma rbind_Inl_iff: "rbind r f = Inl e \<longleftrightarrow> r = Inl e \<or> (\<exists>x. r = Inr x \<and> f x = Inl e)"
  by (cases r) auto

text \<open>A loop that appends the result of each call and stops at the first error.\<close>

fun rmap :: "('a \<Rightarrow> 'e + 'b) \<Rightarrow> 'a list \<Rightarrow> 'e + 'b list" where
  "rmap f [] = Inr []"
| "rmap f (x # xs) =
     (case f x of Inl e \<Rightarrow> Inl e
      | Inr y \<Rightarrow> (case rmap f xs of Inl e \<Rightarrow> Inl e | Inr ys \<Rightarrow> Inr (y # ys)))"

lemma rmap_Cons_Inr:
  "rmap f (x # xs) = Inr ys \<longleftrightarrow> (\<exists>y zs. f x = Inr y \<and> rmap f xs = Inr zs \<and> ys = y # zs)"
  by (auto split: sum.splits)

lemma rmap_Inr_iff: "rmap f xs = Inr ys \<longleftrightarrow> list_all2 (\<lambda>x y. f x = Inr y) xs ys"
proof (induction xs arbitrary: ys)
  case (Cons x xs)
  then show ?case
    by (auto simp: rmap_Cons_Inr list_all2_Cons1 simp del: rmap.simps)
qed auto

lemma ex_split_Cons:
  "(\<exists>us x vs. a # xs = us @ x # vs \<and> P us x) \<longleftrightarrow>
     P [] a \<or> (\<exists>us x vs. xs = us @ x # vs \<and> P (a # us) x)"
  by (auto simp: Cons_eq_append_conv)

lemma rmap_Inl_iff:
  "rmap f xs = Inl e \<longleftrightarrow>
     (\<exists>us x vs. xs = us @ x # vs \<and> (\<forall>u\<in>set us. \<exists>y. f u = Inr y) \<and> f x = Inl e)"
proof (induction xs)
  case (Cons a xs)
  show ?case
    unfolding ex_split_Cons using Cons.IH by (cases "f a"; cases "rmap f xs") auto
qed auto

section \<open>Lists\<close>

lemma takeWhile_append_stop [simp]:
  "(\<forall>x\<in>set xs. P x) \<Longrightarrow> \<not> P y \<Longrightarrow> takeWhile P (xs @ y # ys) = xs"
  by (induction xs) auto

lemma dropWhile_append_stop [simp]:
  "(\<forall>x\<in>set xs. P x) \<Longrightarrow> \<not> P y \<Longrightarrow> dropWhile P (xs @ y # ys) = y # ys"
  by (induction xs) auto

lemma length_takeWhile_less: "\<exists>x\<in>set xs. \<not> P x \<Longrightarrow> length (takeWhile P xs) < length xs"
  by (induction xs) auto

lemma take_drop_split3: "take i xs @ take l (drop i xs) @ drop (i + l) xs = xs"
  by (metis add.commute append_take_drop_id drop_drop)

section \<open>Maps\<close>

lemma map_add_upd_ran:
  "inj_on m (dom m) \<Longrightarrow> v \<notin> ran m \<Longrightarrow> inj_on (m(k \<mapsto> v)) (dom (m(k \<mapsto> v)))"
  by (auto simp: inj_on_def ran_def)

lemma ran_upd_None_inj:
  assumes "inj_on m (dom m)" and "m k = Some v"
  shows "ran (m(k := None)) = ran m - {v}"
proof -
  have "m k' \<noteq> Some v" if "k' \<noteq> k" for k'
    using assms that by (metis domI inj_onD)
  then show ?thesis
    using assms(2) by (auto simp: ran_def) (metis option.inject)
qed

lemma inj_on_upd_None: "inj_on m (dom m) \<Longrightarrow> inj_on (m(k := None)) (dom (m(k := None)))"
  by (auto simp: inj_on_def)

lemma card_ran_inj:
  assumes "inj_on m (dom m)"
  shows "card (ran m) = card (dom m)"
proof -
  have "Some ` ran m = m ` dom m" by (auto simp: ran_def dom_def image_iff) (metis)
  then have "card (Some ` ran m) = card (m ` dom m)" by simp
  then show ?thesis using assms by (simp add: card_image)
qed

section \<open>Words\<close>

lemma unat_less_iff_bits:
  "unat (w :: 'a::len word) < 2 ^ n \<longleftrightarrow> drop_bit n w = 0"
  by (metis (no_types, opaque_lifting) div_eq_0_iff drop_bit_eq_div power_eq_0_iff unat_drop_bit_eq
      unat_eq_zero zero_neq_numeral)

lemma unat_byte_less [simp]: "unat (b :: byte) < 256"
  using unsigned_less [where w = b and 'a = nat] by simp

lemma unat_u16_less [simp]: "unat (g :: u16) < 65536"
  using unsigned_less [where w = g and 'a = nat] by simp

lemma word_bits_eq: "(a :: 'a::len word) = b \<longleftrightarrow> (\<forall>k<LENGTH('a). bit a k = bit b k)"
  by (auto intro: bit_word_eqI)

lemma all_range_split:
  fixes m x n :: nat
  assumes "m \<le> x" and "x \<le> n"
  shows "(\<forall>k. m \<le> k \<longrightarrow> k < n \<longrightarrow> P k) \<longleftrightarrow>
    (\<forall>k. x \<le> k \<longrightarrow> k < n \<longrightarrow> P k) \<and> (\<forall>k. m \<le> k \<longrightarrow> k < x \<longrightarrow> P k)"
  using assms by (metis le_trans not_less order_less_le_trans)

lemma drop_bit_eq_iff_bits:
  fixes a b :: "'a::len word"
  shows "drop_bit n a = drop_bit n b \<longleftrightarrow> (\<forall>k. n \<le> k \<longrightarrow> k < LENGTH('a) \<longrightarrow> bit a k = bit b k)"
proof
  assume eq: "drop_bit n a = drop_bit n b"
  show "\<forall>k. n \<le> k \<longrightarrow> k < LENGTH('a) \<longrightarrow> bit a k = bit b k"
  proof (intro allI impI)
    fix k assume "n \<le> k" "k < LENGTH('a)"
    have "bit (drop_bit n a) (k - n) = bit (drop_bit n b) (k - n)"
      by (simp add: eq)
    with \<open>n \<le> k\<close> show "bit a k = bit b k"
      by (simp add: bit_drop_bit_eq)
  qed
next
  assume "\<forall>k. n \<le> k \<longrightarrow> k < LENGTH('a) \<longrightarrow> bit a k = bit b k"
  then show "drop_bit n a = drop_bit n b"
    by (intro bit_word_eqI) (use bit_imp_le_length in \<open>fastforce simp: bit_drop_bit_eq\<close>)
qed

lemma drop_bit_eq_mono:
  "drop_bit k a = drop_bit k b \<Longrightarrow> k \<le> m \<Longrightarrow> drop_bit m a = drop_bit m b"
  for a b :: "'a::len word"
  by (auto simp: drop_bit_eq_iff_bits)

lemma unat_of_nat_byte: "n < 256 \<Longrightarrow> unat (of_nat n :: byte) = n"
  by (simp add: unsigned_of_nat take_bit_nat_eq_self)

section \<open>Printed forms\<close>

text \<open>
  The contract of a printer and a parser that belong together: what a well-formed value prints as
  parses back to it, and what parses is well-formed.
\<close>

locale printed_form =
  fixes print :: "'a \<Rightarrow> string"
    and parse :: "string \<Rightarrow> 'e + 'a"
    and wf :: "'a \<Rightarrow> bool"
  assumes parse_print: "wf x \<Longrightarrow> parse (print x) = Inr x"
    and parse_wf: "parse s = Inr x \<Longrightarrow> wf x"
begin

lemma print_inj: "wf x \<Longrightarrow> wf y \<Longrightarrow> print x = print y \<longleftrightarrow> x = y"
  by (metis parse_print sum.inject(2))

lemma reprint: "parse s = Inr x \<Longrightarrow> parse (print x) = Inr x"
  by (simp add: parse_print parse_wf)

lemma normal_form_unique:
  "parse s = Inr x \<Longrightarrow> parse t = Inr y \<Longrightarrow> print x = print y \<longleftrightarrow> x = y"
  by (simp add: print_inj parse_wf)

end

section \<open>Invariants of step relations\<close>

text \<open>The contract of an invariant: it holds at the start and every step keeps it. Then it holds in every state that can be
  reached.\<close>

locale step_invariant =
  fixes start :: 's
    and step :: "'s \<Rightarrow> 's \<Rightarrow> bool"
    and inv :: "'s \<Rightarrow> bool"
  assumes inv_start: "inv start"
    and inv_step: "inv s \<Longrightarrow> step s t \<Longrightarrow> inv t"
begin

lemma inv_steps: "step\<^sup>*\<^sup>* s t \<Longrightarrow> inv s \<Longrightarrow> inv t"
  by (induction rule: rtranclp_induct) (auto intro: inv_step)

lemma reachable_inv: "step\<^sup>*\<^sup>* start s \<Longrightarrow> inv s"
  by (rule inv_steps [OF _ inv_start])

end

end
