(* ===== verification/GoText.thy ===== *)
theory GoText
  imports Prelude
begin

text \<open>
  The routines of Go's packages \<^verbatim>\<open>strings\<close> and \<^verbatim>\<open>strconv\<close> that the enforcer calls: cutting at a
  separator, trimming a prefix, replacing a character, and printing and parsing of decimal
  numbers. The facts here (a printed number parses back to itself, a parsed number is in range,
  what a printed number looks like) are what the address, CIDR, configuration and spool proofs
  rest on.
\<close>

section \<open>Package strings\<close>

text \<open>\<^verbatim>\<open>strings.Cut(s, sep)\<close> for a one-byte separator: before, after, found.\<close>

definition strings_Cut :: "string \<Rightarrow> char \<Rightarrow> string \<times> string \<times> bool" where
  "strings_Cut s sep =
     (if sep \<in> set s
      then (takeWhile (\<lambda>c. c \<noteq> sep) s, tl (dropWhile (\<lambda>c. c \<noteq> sep) s), True)
      else (s, [], False))"

definition strings_TrimPrefix :: "string \<Rightarrow> string \<Rightarrow> string" where
  "strings_TrimPrefix s p = (if take (length p) s = p then drop (length p) s else s)"

text \<open>\<^verbatim>\<open>strings.ReplaceAll(s, old, new)\<close> for one-byte \<open>old\<close> and \<open>new\<close>.\<close>

definition strings_ReplaceAll :: "string \<Rightarrow> char \<Rightarrow> char \<Rightarrow> string" where
  "strings_ReplaceAll s old new = map (\<lambda>c. if c = old then new else c) s"

text \<open>\<^verbatim>\<open>strings.TrimSpace\<close> and \<^verbatim>\<open>bytes.TrimSpace\<close>: the UTF-8 encodings of the white-space characters are
  cut off at both ends.\<close>

definition go_spaces :: "string list" where
  "go_spaces =
     map (\<lambda>n. [char_of n]) [9, 10, 11, 12, 13, 32 :: nat] @
     map (map char_of)
       ([[0xC2, 0x85], [0xC2, 0xA0], [0xE1, 0x9A, 0x80], [0xE2, 0x80, 0xA8], [0xE2, 0x80, 0xA9],
         [0xE2, 0x80, 0xAF], [0xE2, 0x81, 0x9F], [0xE3, 0x80, 0x80]] @
        map (\<lambda>n. [0xE2, 0x80, n]) [0x80 ..< 0x8B :: nat])"

definition is_prefix :: "string \<Rightarrow> string \<Rightarrow> bool" where
  "is_prefix p s \<longleftrightarrow> take (length p) s = p"

function trim_left :: "string list \<Rightarrow> string \<Rightarrow> string" where
  "trim_left ps s =
     (case find (\<lambda>p. p \<noteq> [] \<and> is_prefix p s) ps of
        None \<Rightarrow> s
      | Some p \<Rightarrow> trim_left ps (drop (length p) s))"
  by pat_completeness auto
termination
  by (relation "measure (\<lambda>(ps, s). length s)")
    (auto simp: find_Some_iff is_prefix_def, metis diff_less length_greater_0_conv list.size(3) take_eq_Nil)

declare trim_left.simps [simp del]

definition strings_TrimSpace :: "string \<Rightarrow> string" where
  "strings_TrimSpace s = rev (trim_left (map rev go_spaces) (rev (trim_left go_spaces s)))"

text \<open>\<^verbatim>\<open>strings.Join(args, " ")\<close>.\<close>

fun strings_Join :: "string list \<Rightarrow> string \<Rightarrow> string" where
  "strings_Join [] sep = []"
| "strings_Join [a] sep = a"
| "strings_Join (a # as) sep = a @ sep @ strings_Join as sep"

section \<open>Package strconv\<close>

datatype num_error = ErrSyntax | ErrRange

text \<open>Digits of a number in base \<open>b\<close>, most significant first.\<close>

fun to_digits :: "nat \<Rightarrow> nat \<Rightarrow> nat list" where
  "to_digits b n = (if n < b \<or> b < 2 then [n] else to_digits b (n div b) @ [n mod b])"

declare to_digits.simps [simp del]

definition of_digits :: "nat \<Rightarrow> nat list \<Rightarrow> nat" where
  "of_digits b ds = foldl (\<lambda>a d. a * b + d) 0 ds"

definition digit_char :: "nat \<Rightarrow> char" where
  "digit_char d = (if d < 10 then char_of (48 + d) else char_of (87 + d))"

text \<open>The value of a decimal digit, and of a hexadecimal digit of either case.\<close>

definition dec_val :: "char \<Rightarrow> nat option" where
  "dec_val c = (let n = of_char c in if 48 \<le> n \<and> n \<le> 57 then Some (n - 48) else None)"

definition hex_val :: "char \<Rightarrow> nat option" where
  "hex_val c =
     (let n = of_char c in
      if 48 \<le> n \<and> n \<le> 57 then Some (n - 48)
      else if 97 \<le> n \<and> n \<le> 102 then Some (n - 87)
      else if 65 \<le> n \<and> n \<le> 70 then Some (n - 55)
      else None)"

text \<open>\<^verbatim>\<open>strconv.Itoa\<close> and \<^verbatim>\<open>strconv.FormatUint(n, 10)\<close> of a number that is not negative.\<close>

definition format_dec :: "nat \<Rightarrow> string" where
  "format_dec n = map digit_char (to_digits 10 n)"

definition format_hex :: "nat \<Rightarrow> string" where
  "format_hex n = map digit_char (to_digits 16 n)"

text \<open>
  \<^verbatim>\<open>strconv.ParseUint(s, 10, bits)\<close>: the scan stops with a syntax error at the first byte that is
  not a digit and with a range error as soon as the number read so far exceeds the maximum.
\<close>

fun parse_uint_loop :: "nat \<Rightarrow> nat \<Rightarrow> string \<Rightarrow> num_error + nat" where
  "parse_uint_loop mx n [] = Inr n"
| "parse_uint_loop mx n (c # s) =
     (case dec_val c of
        None \<Rightarrow> Inl ErrSyntax
      | Some d \<Rightarrow> if mx < n * 10 + d then Inl ErrRange else parse_uint_loop mx (n * 10 + d) s)"

definition strconv_ParseUint :: "string \<Rightarrow> nat \<Rightarrow> num_error + nat" where
  "strconv_ParseUint s bits =
     (if s = [] then Inl ErrSyntax else parse_uint_loop (2 ^ bits - 1) 0 s)"

section \<open>Facts about cutting\<close>

lemma strings_Cut_append [go_text]:
  assumes "sep \<notin> set xs"
  shows "strings_Cut (xs @ sep # ys) sep = (xs, ys, True)"
proof -
  have "takeWhile (\<lambda>c. c \<noteq> sep) (xs @ sep # ys) = xs"
    by (rule takeWhile_append_stop) (use assms in auto)
  moreover have "dropWhile (\<lambda>c. c \<noteq> sep) (xs @ sep # ys) = sep # ys"
    by (rule dropWhile_append_stop) (use assms in auto)
  ultimately show ?thesis by (simp add: strings_Cut_def)
qed

lemma strings_Cut_found:
  "strings_Cut s sep = (a, b, True) \<Longrightarrow> s = a @ sep # b \<and> sep \<notin> set a"
proof -
  assume cut: "strings_Cut s sep = (a, b, True)"
  then have "sep \<in> set s" by (auto simp: strings_Cut_def split: if_splits)
  then obtain xs ys where "s = xs @ sep # ys" "sep \<notin> set xs"
    by (meson split_list_first)
  with cut show ?thesis by (simp add: go_text)
qed

lemma strings_Cut_not_found: "strings_Cut s sep = (a, b, False) \<longleftrightarrow> sep \<notin> set s \<and> a = s \<and> b = []"
  by (auto simp: strings_Cut_def)

lemma length_strings_ReplaceAll [simp]: "length (strings_ReplaceAll s a b) = length s"
  by (simp add: strings_ReplaceAll_def)

lemma strings_ReplaceAll_removes: "a \<noteq> b \<Longrightarrow> a \<notin> set (strings_ReplaceAll s a b)"
  by (auto simp: strings_ReplaceAll_def)

lemma strings_ReplaceAll_id: "a \<notin> set s \<Longrightarrow> strings_ReplaceAll s a b = s"
  by (induction s) (auto simp: strings_ReplaceAll_def)

lemma map_eq_map_iff: "map f xs = map g ys \<longleftrightarrow> list_all2 (\<lambda>x y. f x = g y) xs ys"
proof (induction xs arbitrary: ys)
  case (Cons x xs)
  then show ?case by (cases ys) auto
qed simp

text \<open>Two texts have the same sanitised form exactly if they agree up to the two characters.\<close>

lemma strings_ReplaceAll_eq_iff:
  "strings_ReplaceAll s a b = strings_ReplaceAll t a b \<longleftrightarrow>
     list_all2 (\<lambda>x y. x = y \<or> x \<in> {a, b} \<and> y \<in> {a, b}) s t"
proof -
  have "(if x = a then b else x) = (if y = a then b else y) \<longleftrightarrow> x = y \<or> x \<in> {a, b} \<and> y \<in> {a, b}"
    for x y by auto
  then show ?thesis
    unfolding strings_ReplaceAll_def map_eq_map_iff by presburger
qed

section \<open>Facts about digits\<close>

lemma of_digits_snoc [simp]: "of_digits b (ds @ [d]) = of_digits b ds * b + d"
  by (simp add: of_digits_def)

lemma of_digits_Nil [simp]: "of_digits b [] = 0"
  by (simp add: of_digits_def)

lemma of_to_digits [simp]: "of_digits b (to_digits b n) = n"
proof (induction b n rule: to_digits.induct)
  case (1 b n)
  then show ?case
    by (cases "n < b \<or> b < 2") (simp_all add: to_digits.simps [of b n] of_digits_def)
qed

lemma to_digits_nonempty [simp]: "to_digits b n \<noteq> []"
  by (simp add: to_digits.simps)

lemma to_digits_less: "2 \<le> b \<Longrightarrow> d \<in> set (to_digits b n) \<Longrightarrow> d < b"
proof (induction b n rule: to_digits.induct)
  case (1 b n)
  then show ?case
    by (cases "n < b") (auto simp: to_digits.simps [of b n])
qed

lemma to_digits_length: "2 \<le> b \<Longrightarrow> 0 < k \<Longrightarrow> n < b ^ k \<Longrightarrow> length (to_digits b n) \<le> k"
proof (induction b n arbitrary: k rule: to_digits.induct)
  case (1 b n)
  show ?case
  proof (cases "n < b")
    case True
    with "1.prems" show ?thesis by (simp add: to_digits.simps [of b n])
  next
    case False
    with "1.prems" obtain k' where k: "k = Suc k'" "0 < k'"
      by (metis Suc_lessI gr0_implies_Suc less_one not_gr_zero power_one_right zero_less_Suc One_nat_def)
    with "1.prems" have "n div b < b ^ k'"
      by (simp add: less_mult_imp_div_less mult.commute)
    with False k "1.prems" "1.IH" [of k'] show ?thesis
      by (simp add: to_digits.simps [of b n])
  qed
qed

lemma to_digits_hd_nonzero: "2 \<le> b \<Longrightarrow> 0 < n \<Longrightarrow> hd (to_digits b n) \<noteq> 0"
proof (induction b n rule: to_digits.induct)
  case (1 b n)
  then show ?case
    by (cases "n < b") (auto simp: to_digits.simps [of b n] hd_append div_greater_zero_iff)
qed

lemma to_digits_0 [simp]: "2 \<le> b \<Longrightarrow> to_digits b 0 = [0]"
  by (simp add: to_digits.simps)

lemma of_char_digit_char: "d < 16 \<Longrightarrow> (of_char (digit_char d) :: nat) = (if d < 10 then 48 + d else 87 + d)"
  by (simp add: digit_char_def)

lemma dec_val_digit_char [simp]: "d < 10 \<Longrightarrow> dec_val (digit_char d) = Some d"
  by (simp add: dec_val_def of_char_digit_char)

lemma hex_val_digit_char [simp]: "d < 16 \<Longrightarrow> hex_val (digit_char d) = Some d"
  by (simp add: hex_val_def of_char_digit_char)

lemma dec_val_less: "dec_val c = Some d \<Longrightarrow> d < 10"
  by (auto simp: dec_val_def Let_def split: if_splits)

lemma hex_val_less: "hex_val c = Some d \<Longrightarrow> d < 16"
  by (auto simp: hex_val_def Let_def split: if_splits)

lemma dec_val_imp_hex_val: "dec_val c = Some d \<Longrightarrow> hex_val c = Some d"
  by (auto simp: hex_val_def dec_val_def Let_def split: if_splits)

lemma format_dec_nonempty [simp]: "format_dec n \<noteq> []"
  by (simp add: format_dec_def)

lemma format_hex_nonempty [simp]: "format_hex n \<noteq> []"
  by (simp add: format_hex_def)

lemma format_dec_digits: "c \<in> set (format_dec n) \<Longrightarrow> \<exists>d<10. c = digit_char d"
  using to_digits_less [of 10 _ n] by (force simp: format_dec_def)

lemma format_dec_no_char [simp]: "dec_val c = None \<Longrightarrow> c \<notin> set (format_dec n)"
  using format_dec_digits by fastforce

text \<open>The digit characters, so that numbers print by rewriting.\<close>

lemma digit_char_table [go_text]:
  "digit_char 0 = CHR ''0''"
  "digit_char (Suc 0) = CHR ''1''"
  "digit_char 2 = CHR ''2''"
  "digit_char 3 = CHR ''3''"
  "digit_char 4 = CHR ''4''"
  "digit_char 5 = CHR ''5''"
  "digit_char 6 = CHR ''6''"
  "digit_char 7 = CHR ''7''"
  "digit_char 8 = CHR ''8''"
  "digit_char 9 = CHR ''9''"
  "digit_char 10 = CHR ''a''"
  "digit_char 11 = CHR ''b''"
  "digit_char 12 = CHR ''c''"
  "digit_char 13 = CHR ''d''"
  "digit_char 14 = CHR ''e''"
  "digit_char 15 = CHR ''f''"
  by code_simp+

section \<open>Facts about ParseUint\<close>

lemma parse_uint_loop_append [go_text]:
  "parse_uint_loop mx n (s @ t) = rbind (parse_uint_loop mx n s) (\<lambda>m. parse_uint_loop mx m t)"
  by (induction s arbitrary: n) (auto split: option.splits)

lemma parse_uint_loop_format_dec: "n \<le> mx \<Longrightarrow> parse_uint_loop mx 0 (format_dec n) = Inr n"
proof (induction "10::nat" n rule: to_digits.induct)
  case (1 n)
  show ?case
  proof (cases "n < 10")
    case True
    with "1.prems" show ?thesis by (simp add: format_dec_def to_digits.simps [of 10 n])
  next
    case False
    then have "parse_uint_loop mx 0 (format_dec (n div 10)) = Inr (n div 10)"
      using "1.prems" by (intro "1.hyps") auto
    moreover have "format_dec n = format_dec (n div 10) @ [digit_char (n mod 10)]"
      using False by (simp add: format_dec_def to_digits.simps [of 10 n])
    moreover have "n div 10 * 10 + n mod 10 = n" by simp
    ultimately show ?thesis
      using "1.prems" by (simp add: parse_uint_loop_append)
  qed
qed

lemma strconv_ParseUint_format_dec [go_text]:
  "n < 2 ^ bits \<Longrightarrow> strconv_ParseUint (format_dec n) bits = Inr n"
  by (simp add: strconv_ParseUint_def parse_uint_loop_format_dec)

lemma parse_uint_loop_le: "parse_uint_loop mx n s = Inr m \<Longrightarrow> n \<le> mx \<Longrightarrow> m \<le> mx"
  by (induction s arbitrary: n) (auto split: option.splits if_splits)

lemma strconv_ParseUint_less: "strconv_ParseUint s bits = Inr n \<Longrightarrow> n < 2 ^ bits"
proof -
  assume "strconv_ParseUint s bits = Inr n"
  then have "parse_uint_loop (2 ^ bits - 1) 0 s = Inr n"
    by (simp add: strconv_ParseUint_def split: if_splits)
  then have "n \<le> 2 ^ bits - 1"
    by (rule parse_uint_loop_le) simp
  moreover have "0 < (2::nat) ^ bits" by simp
  ultimately show ?thesis by linarith
qed

lemma parse_uint_loop_digits:
  "parse_uint_loop mx n s = Inr m \<Longrightarrow> c \<in> set s \<Longrightarrow> \<exists>d. dec_val c = Some d"
  by (induction s arbitrary: n) (auto split: option.splits if_splits)

lemma strconv_ParseUint_digits:
  "strconv_ParseUint s bits = Inr n \<Longrightarrow> s \<noteq> [] \<and> (\<forall>c\<in>set s. dec_val c \<noteq> None)"
  using parse_uint_loop_digits by (fastforce simp: strconv_ParseUint_def split: if_splits)

lemma format_dec_inj [simp]: "format_dec m = format_dec n \<longleftrightarrow> m = n"
proof
  assume eq: "format_dec m = format_dec n"
  have "parse_uint_loop (m + n) 0 (format_dec m) = Inr m"
    and "parse_uint_loop (m + n) 0 (format_dec n) = Inr n"
    by (simp_all add: parse_uint_loop_format_dec)
  then show "m = n" unfolding eq by simp
qed simp

text \<open>The value of a string of digits, and that the parser with its early exit on overflow computes it.\<close>

definition digits_value :: "string \<Rightarrow> nat" where
  "digits_value s = of_digits 10 (map (\<lambda>c. the (dec_val c)) s)"

lemma foldl_digits_le: "n \<le> foldl (\<lambda>a d. a * 10 + d) n ds" for n :: nat
proof (induction ds arbitrary: n)
  case (Cons d ds)
  have "n \<le> n * 10 + d" by simp
  also have "\<dots> \<le> foldl (\<lambda>a d. a * 10 + d) (n * 10 + d) ds" by (rule Cons.IH)
  finally show ?case by simp
qed simp

lemma parse_uint_loop_value:
  "n \<le> mx \<Longrightarrow>
     parse_uint_loop mx n s = Inr m \<longleftrightarrow>
     list_all (\<lambda>c. dec_val c \<noteq> None) s \<and>
     m = foldl (\<lambda>a d. a * 10 + d) n (map (\<lambda>c. the (dec_val c)) s) \<and> m \<le> mx"
proof (induction s arbitrary: n)
  case (Cons c s)
  show ?case
  proof (cases "dec_val c")
    case (Some d)
    show ?thesis
    proof (cases "mx < n * 10 + d")
      case True
      then show ?thesis
        using Some foldl_digits_le [of "n * 10 + d" "map (\<lambda>c. the (dec_val c)) s"] by auto
    qed (use Some Cons.IH [of "n * 10 + d"] in simp)
  qed simp
qed auto

lemma strconv_ParseUint_iff:
  "strconv_ParseUint s bits = Inr n \<longleftrightarrow>
     s \<noteq> [] \<and> list_all (\<lambda>c. dec_val c \<noteq> None) s \<and> n = digits_value s \<and> n < 2 ^ bits"
proof -
  have "n \<le> 2 ^ bits - 1 \<longleftrightarrow> n < 2 ^ bits"
    using zero_less_power [of "2 :: nat" bits] by linarith
  then show ?thesis
    using parse_uint_loop_value [of 0 "2 ^ bits - 1" s n]
    unfolding strconv_ParseUint_def digits_value_def of_digits_def by (cases "s = []") simp_all
qed

text \<open>Parsing a prefix length or a port strips one leading plus sign first.\<close>

lemma strings_TrimPrefix_plus_digits:
  "strings_TrimPrefix (format_dec n) ''+'' = format_dec n"
proof -
  have "CHR ''+'' \<notin> set (format_dec n)"
    by (rule format_dec_no_char) (simp add: dec_val_def)
  then show ?thesis
    by (cases "format_dec n") (auto simp: strings_TrimPrefix_def)
qed

interpretation uint8: printed_form format_dec "\<lambda>s. strconv_ParseUint s 8" "\<lambda>n. n < 256"
  by unfold_locales
    (use strconv_ParseUint_format_dec [of _ 8] strconv_ParseUint_less [of _ 8] in simp_all)

end
