(* ===== verification/Netip.thy ===== *)
theory Netip
  imports GoText
begin

text \<open>
  Go's package \<^verbatim>\<open>net/netip\<close> as the enforcer uses it: an address is a 32-bit or a 128-bit value,
  \<^verbatim>\<open>ParseAddr\<close> reads one from text and \<^verbatim>\<open>String\<close> prints it in the canonical form that the rule
  renderer puts after \<^verbatim>\<open>daddr\<close>. A zone of an IPv6 address is read and dropped: the only
  caller of \<^verbatim>\<open>ParseAddr\<close> rejects an address with a zone. The main result is that every
  printed address parses back to itself.
\<close>

section \<open>Big-endian units of a word\<close>

definition be_units :: "nat \<Rightarrow> 'a::len word \<Rightarrow> 'u::len word list" where
  "be_units n w = map (\<lambda>i. ucast (drop_bit (LENGTH('u) * (n - 1 - i)) w)) [0..<n]"

definition be_join :: "'u::len word list \<Rightarrow> 'a::len word" where
  "be_join us = foldl (\<lambda>w u. or (push_bit LENGTH('u) w) (ucast u)) 0 us"

section \<open>Addresses\<close>

datatype addr = V4 u32 | V6 u128

fun Is4 :: "addr \<Rightarrow> bool" where
  "Is4 (V4 w) = True"
| "Is4 (V6 w) = False"

text \<open>\<^verbatim>\<open>As4\<close> and \<^verbatim>\<open>As16\<close>: the bytes of an address, most significant first.\<close>

definition As4 :: "u32 \<Rightarrow> byte list" where
  "As4 w = be_units 4 w"

definition As16 :: "u128 \<Rightarrow> byte list" where
  "As16 w = be_units 16 w"

definition AddrFrom4 :: "byte list \<Rightarrow> addr" where
  "AddrFrom4 bs = V4 (be_join bs)"

definition AddrFrom16 :: "byte list \<Rightarrow> addr" where
  "AddrFrom16 bs = V6 (be_join bs)"

text \<open>An IPv4-mapped IPv6 address, \<^verbatim>\<open>::ffff:0:0/96\<close>.\<close>

definition Is4In6 :: "u128 \<Rightarrow> bool" where
  "Is4In6 w \<longleftrightarrow> drop_bit 32 w = 0xffff"

section \<open>Parsing\<close>

datatype parse_addr_error =
    UnableToParse
  | MissingIPv6
  | V4LeadingZero
  | V4FieldTooBig
  | V4EmptyField
  | V4TooLong
  | V4TooShort
  | V4UnexpectedChar
  | V6Zone
  | V6TooManyDigits
  | V6FieldTooBig
  | V6NoDigits
  | V6EmbeddedPlace
  | V6EmbeddedRoom
  | V6WantColon
  | V6ColonEnd
  | V6MultipleEllipsis
  | V6TrailingGarbage
  | V6TooShort
  | V6EmptyEllipsis

text \<open>\<open>parseIPv4Fields\<close>: the byte before the current one, the value and the number of digits of the
  current field, the fields read so far.\<close>

fun parse_v4_loop ::
  "char option \<Rightarrow> nat \<Rightarrow> nat \<Rightarrow> byte list \<Rightarrow> string \<Rightarrow> parse_addr_error + byte list" where
  "parse_v4_loop prev val digLen fields [] =
     (if length fields < 3 then Inl V4TooShort else Inr (fields @ [of_nat val]))"
| "parse_v4_loop prev val digLen fields (c # s) =
     (case dec_val c of
        Some d \<Rightarrow>
          if digLen = 1 \<and> val = 0 then Inl V4LeadingZero
          else if 255 < val * 10 + d then Inl V4FieldTooBig
          else parse_v4_loop (Some c) (val * 10 + d) (Suc digLen) fields s
      | None \<Rightarrow>
          if c = CHR ''.'' then
            if prev = None \<or> s = [] \<or> prev = Some CHR ''.'' then Inl V4EmptyField
            else if length fields = 3 then Inl V4TooLong
            else parse_v4_loop (Some c) 0 0 (fields @ [of_nat val]) s
          else Inl V4UnexpectedChar)"

definition parse_v4_fields :: "string \<Rightarrow> parse_addr_error + byte list" where
  "parse_v4_fields s = parse_v4_loop None 0 0 [] s"

definition parse_v4 :: "string \<Rightarrow> parse_addr_error + addr" where
  "parse_v4 s = rbind (parse_v4_fields s) (\<lambda>fields. Inr (AddrFrom4 fields))"

text \<open>The hexadecimal digits of one group: how many were read, their value, the rest of the text.\<close>

fun scan_hex :: "nat \<Rightarrow> nat \<Rightarrow> string \<Rightarrow> parse_addr_error + (nat \<times> nat \<times> string)" where
  "scan_hex off acc [] = Inr (off, acc, [])"
| "scan_hex off acc (c # s) =
     (case hex_val c of
        None \<Rightarrow> Inr (off, acc, c # s)
      | Some d \<Rightarrow>
          if 3 < off then Inl V6TooManyDigits
          else if 65535 < acc * 16 + d then Inl V6FieldTooBig
          else scan_hex (Suc off) (acc * 16 + d) s)"

text \<open>
  \<open>parseIPv6\<close>: the loop over colon-separated groups. The code fills a 16-byte array two bytes at a
  time; here the groups read so far are a list of 16-bit words, and the position of the ellipsis is
  counted in groups.
\<close>

function parse_v6_loop ::
  "u16 list \<Rightarrow> nat option \<Rightarrow> string \<Rightarrow> parse_addr_error + (u16 list \<times> nat option \<times> string)" where
  "parse_v6_loop gs ell s =
     (if 8 \<le> length gs then Inr (gs, ell, s)
      else
        case scan_hex 0 0 s of
          Inl e \<Rightarrow> Inl e
        | Inr (off, acc, rest) \<Rightarrow>
            if off = 0 then Inl V6NoDigits
            else if rest \<noteq> [] \<and> hd rest = CHR ''.'' then
              if ell = None \<and> length gs \<noteq> 6 then Inl V6EmbeddedPlace
              else if 8 < length gs + 2 then Inl V6EmbeddedRoom
              else
                case parse_v4_fields s of
                  Inl e \<Rightarrow> Inl e
                | Inr fields \<Rightarrow> Inr (gs @ be_units 2 (be_join fields :: u32), ell, [])
            else
              case rest of
                [] \<Rightarrow> Inr (gs @ [of_nat acc], ell, [])
              | c # t \<Rightarrow>
                  if c \<noteq> CHR '':'' then Inl V6WantColon
                  else if t = [] then Inl V6ColonEnd
                  else if hd t = CHR '':'' then
                    if ell \<noteq> None then Inl V6MultipleEllipsis
                    else if tl t = [] then Inr (gs @ [of_nat acc], Some (Suc (length gs)), [])
                    else parse_v6_loop (gs @ [of_nat acc]) (Some (Suc (length gs))) (tl t)
                  else parse_v6_loop (gs @ [of_nat acc]) ell t)"
  by pat_completeness auto
termination
  by (relation "measure (\<lambda>(gs, ell, s). 8 - length gs)") auto

declare parse_v6_loop.simps [simp del]

definition parse_v6_fields :: "string \<Rightarrow> parse_addr_error + addr" where
  "parse_v6_fields s =
     (let lead = (take 2 s = ''::'');
          s' = (if lead then drop 2 s else s)
      in
        if lead \<and> s' = [] then Inr (V6 0)
        else
          case parse_v6_loop [] (if lead then Some 0 else None) s' of
            Inl e \<Rightarrow> Inl e
          | Inr (gs, ell, rest) \<Rightarrow>
              if rest \<noteq> [] then Inl V6TrailingGarbage
              else if length gs < 8 then
                case ell of
                  None \<Rightarrow> Inl V6TooShort
                | Some e \<Rightarrow>
                    Inr (V6 (be_join (take e gs @ replicate (8 - length gs) 0 @ drop e gs)))
              else if ell \<noteq> None then Inl V6EmptyEllipsis
              else Inr (V6 (be_join gs)))"

text \<open>A zone after a percent sign is accepted if it is not empty. It is no part of \<open>addr\<close>: package \<^verbatim>\<open>cidr\<close> refuses it before.\<close>

definition parse_v6 :: "string \<Rightarrow> parse_addr_error + addr" where
  "parse_v6 s =
     (case strings_Cut s CHR ''%'' of (fields, zone, found) \<Rightarrow>
        if found \<and> zone = [] then Inl V6Zone else parse_v6_fields fields)"

text \<open>\<^verbatim>\<open>netip.ParseAddr\<close>: the first dot, colon or percent sign decides the family.\<close>

definition netip_ParseAddr :: "string \<Rightarrow> parse_addr_error + addr" where
  "netip_ParseAddr s =
     (case dropWhile (\<lambda>c. c \<notin> set ''.:%'') s of
        [] \<Rightarrow> Inl UnableToParse
      | c # _ \<Rightarrow>
          if c = CHR ''.'' then parse_v4 s
          else if c = CHR '':'' then parse_v6 s
          else Inl MissingIPv6)"

section \<open>Printing\<close>

fun join :: "string \<Rightarrow> string list \<Rightarrow> string" where
  "join sep [] = []"
| "join sep [x] = x"
| "join sep (x # y # xs) = x @ sep @ join sep (y # xs)"

definition string4 :: "u32 \<Rightarrow> string" where
  "string4 w = join ''.'' (map (\<lambda>b. format_dec (unat b)) (As4 w))"

text \<open>The first longest run of at least two zero groups: its start and its length.\<close>

definition zero_run_at :: "u16 list \<Rightarrow> nat \<Rightarrow> nat" where
  "zero_run_at gs i = length (takeWhile (\<lambda>g. g = 0) (drop i gs))"

definition better_run :: "u16 list \<Rightarrow> nat \<Rightarrow> (nat \<times> nat) option \<Rightarrow> (nat \<times> nat) option" where
  "better_run gs i best =
     (let l = zero_run_at gs i; m = (case best of None \<Rightarrow> 0 | Some (_, m) \<Rightarrow> m)
      in if 2 \<le> l \<and> m < l then Some (i, l) else best)"

definition zero_run :: "u16 list \<Rightarrow> (nat \<times> nat) option" where
  "zero_run gs = fold (better_run gs) [0..<8] None"

definition hex_groups :: "u16 list \<Rightarrow> string" where
  "hex_groups gs = join '':'' (map (\<lambda>g. format_hex (unat g)) gs)"

definition string6 :: "u128 \<Rightarrow> string" where
  "string6 w =
     (let gs = be_units 8 w in
      case zero_run gs of
        None \<Rightarrow> hex_groups gs
      | Some (i, l) \<Rightarrow> hex_groups (take i gs) @ ''::'' @ hex_groups (drop (i + l) gs))"

fun addr_String :: "addr \<Rightarrow> string" where
  "addr_String (V4 w) = string4 w"
| "addr_String (V6 w) = (if Is4In6 w then ''::ffff:'' @ string4 (ucast w) else string6 w)"

section \<open>Words and their units\<close>

lemma parse_v6_no_zone: "CHR ''%'' \<notin> set s \<Longrightarrow> parse_v6 s = parse_v6_fields s"
  by (simp add: parse_v6_def strings_Cut_not_found [THEN iffD2])

lemma length_be_units [simp]: "length (be_units n w) = n"
  by (simp add: be_units_def)

lemma bit_be_join:
  fixes us :: "'u::len word list"
  shows "bit (be_join us :: 'a::len word) k \<longleftrightarrow>
     k < LENGTH('a) \<and> k div LENGTH('u) < length us \<and>
     bit (us ! (length us - 1 - k div LENGTH('u))) (k mod LENGTH('u))"
proof (induction us arbitrary: k rule: rev_induct)
  case Nil
  then show ?case by (simp add: be_join_def)
next
  case (snoc u us)
  let ?L = "LENGTH('u)"
  have join: "be_join (us @ [u]) = (or (push_bit ?L (be_join us)) (ucast u) :: 'a word)"
    by (simp add: be_join_def)
  show ?case
  proof (cases "k < ?L")
    case True
    then show ?thesis
      unfolding join by (auto simp: bit_or_iff bit_push_bit_iff bit_unsigned_iff nth_append dest: bit_imp_le_length)
  next
    case False
    then have "k div ?L = Suc ((k - ?L) div ?L)" "k mod ?L = (k - ?L) mod ?L"
      by (simp_all add: le_div_geq le_mod_geq)
    then show ?thesis
      unfolding join using False
      by (auto simp: bit_or_iff bit_push_bit_iff bit_unsigned_iff nth_append snoc.IH not_less dest: bit_imp_le_length)
  qed
qed

lemma bit_be_units:
  "i < n \<Longrightarrow> bit ((be_units n (w :: 'a::len word) :: 'u::len word list) ! i) k \<longleftrightarrow>
     k < LENGTH('u) \<and> bit w (LENGTH('u) * (n - 1 - i) + k)"
  by (auto simp: be_units_def bit_unsigned_iff bit_drop_bit_eq dest: bit_imp_le_length)

lemma be_join_units_ucast:
  fixes w :: "'a::len word"
  assumes "LENGTH('a) = n * LENGTH('u)"
  shows "be_join (be_units n w :: 'u::len word list) = (ucast w :: 'b::len word)"
proof (rule bit_word_eqI)
  fix k assume k: "k < LENGTH('b)"
  let ?L = "LENGTH('u)"
  show "bit (be_join (be_units n w :: 'u word list) :: 'b word) k \<longleftrightarrow> bit (ucast w :: 'b word) k"
  proof (cases "k < LENGTH('a)")
    case True
    then have q: "k div ?L < n" using assms by (simp add: less_mult_imp_div_less)
    have "bit (be_join (be_units n w :: 'u word list) :: 'b word) k \<longleftrightarrow>
        bit w (?L * (k div ?L) + k mod ?L)"
      using k q by (simp add: bit_be_join bit_be_units)
    then show ?thesis using k by (simp add: bit_unsigned_iff)
  next
    case False
    then have "n \<le> k div ?L" using assms by (metis div_le_mono nonzero_mult_div_cancel_right len_gt_0 not_less not_gr_zero)
    with False k show ?thesis by (auto simp: bit_be_join bit_unsigned_iff dest: bit_imp_le_length)
  qed
qed

lemma be_join_units:
  fixes w :: "'a::len word"
  assumes "LENGTH('a) = n * LENGTH('u)"
  shows "be_join (be_units n w :: 'u::len word list) = w"
  using be_join_units_ucast [OF assms, of w, where 'b = 'a] by simp

lemma be_join_append:
  fixes us vs :: "'u::len word list"
  shows "be_join (us @ vs) =
    (or (push_bit (LENGTH('u) * length vs) (be_join us)) (be_join vs) :: 'a::len word)"
proof (induction vs rule: rev_induct)
  case Nil
  then show ?case by (simp add: be_join_def [of "[]"])
next
  case (snoc v vs)
  have "be_join (us @ vs @ [v]) = (or (push_bit LENGTH('u) (be_join (us @ vs))) (ucast v) :: 'a word)"
    by (simp add: be_join_def)
  moreover have "be_join (vs @ [v]) = (or (push_bit LENGTH('u) (be_join vs)) (ucast v) :: 'a word)"
    by (simp add: be_join_def)
  ultimately show ?case
    using snoc by (simp add: push_bit_or or.assoc push_bit_push_bit algebra_simps)
qed

lemma be_units_join:
  fixes us :: "'u::len word list"
  assumes "LENGTH('a::len) = n * LENGTH('u)" and "length us = n"
  shows "(be_units n (be_join us :: 'a word) :: 'u word list) = us"
proof (rule nth_equalityI)
  fix i assume "i < length (be_units n (be_join us :: 'a word) :: 'u word list)"
  then have i: "i < n" by simp
  let ?L = "LENGTH('u)"
  show "(be_units n (be_join us :: 'a word) :: 'u word list) ! i = us ! i"
  proof (rule bit_word_eqI)
    fix k assume k: "k < ?L"
    have "?L * (n - 1 - i) + k < ?L * (n - 1 - i) + ?L" using k by simp
    also have "\<dots> = ?L * (n - i)" using i by (metis Suc_diff_Suc add.commute diff_Suc_eq_diff_pred mult_Suc_right)
    also have "\<dots> \<le> ?L * n" by simp
    finally have lt: "?L * (n - 1 - i) + k < LENGTH('a)" using assms(1) by (simp add: mult.commute)
    show "bit ((be_units n (be_join us :: 'a word) :: 'u word list) ! i) k \<longleftrightarrow> bit (us ! i) k"
      using i k lt assms(2) by (simp add: bit_be_units bit_be_join)
  qed
qed (simp add: assms)

text \<open>The value of joined units, as long as they fit.\<close>

lemma unat_or_push_bit:
  fixes w :: "'a::len word" and u :: "'u::len word"
  assumes "unat w < 2 ^ (LENGTH('a) - LENGTH('u))" and "LENGTH('u) \<le> LENGTH('a)"
  shows "unat (or (push_bit LENGTH('u) w) (ucast u)) = unat w * 2 ^ LENGTH('u) + unat u"
proof -
  let ?L = "LENGTH('u)" and ?A = "LENGTH('a)"
  have u: "unat u < 2 ^ ?L" by (rule unsigned_less)
  have "unat w * 2 ^ ?L < 2 ^ (?A - ?L) * 2 ^ ?L" using assms(1) by simp
  also have "\<dots> = 2 ^ ?A" using assms(2) by (simp flip: power_add)
  finally have push: "unat (push_bit ?L w) = push_bit ?L (unat w)"
    by (subst unsigned_push_bit_eq) (simp add: push_bit_eq_mult take_bit_nat_eq_self)
  have cast: "unat (ucast u :: 'a word) = unat u"
    using order_less_le_trans [OF u power_increasing [OF assms(2)]]
    by (simp add: unsigned_ucast_eq take_bit_nat_eq_self)
  have "or (push_bit ?L (unat w)) (unat u) = push_bit ?L (unat w) + unat u"
    by (intro disjunctive_add [symmetric]) (auto simp: bit_push_bit_iff bit_unsigned_iff not_le
        dest: bit_imp_le_length)
  then show ?thesis
    by (simp only: unsigned_or_eq push cast) (simp add: push_bit_eq_mult)
qed

lemma unat_be_join:
  fixes us :: "'u::len word list"
  assumes "length us * LENGTH('u) \<le> LENGTH('a::len)"
  shows "unat (be_join us :: 'a word) = of_digits (2 ^ LENGTH('u)) (map unat us) \<and>
    unat (be_join us :: 'a word) < 2 ^ (length us * LENGTH('u))"
  using assms
proof (induction us rule: rev_induct)
  case Nil
  then show ?case by (simp add: be_join_def)
next
  case (snoc u us)
  let ?L = "LENGTH('u)"
  let ?w = "be_join us :: 'a word"
  from snoc have IH: "unat ?w = of_digits (2 ^ ?L) (map unat us)" "unat ?w < 2 ^ (length us * ?L)"
    by simp_all
  have "length us * ?L \<le> LENGTH('a) - ?L" using snoc.prems by simp
  then have lt: "unat ?w < 2 ^ (LENGTH('a) - ?L)"
    by (meson IH(2) less_le_trans one_le_numeral power_increasing)
  have join: "be_join (us @ [u]) = (or (push_bit ?L ?w) (ucast u) :: 'a word)"
    by (simp add: be_join_def)
  have val: "unat (be_join (us @ [u]) :: 'a word) = unat ?w * 2 ^ ?L + unat u"
    unfolding join by (rule unat_or_push_bit [OF lt]) (use snoc.prems in simp)
  have "unat ?w * 2 ^ ?L + unat u < (unat ?w + 1) * 2 ^ ?L"
    using unsigned_less [where w = u and 'a = nat] by simp
  also have "\<dots> \<le> 2 ^ (length us * ?L) * 2 ^ ?L"
    using IH(2) by (intro mult_le_mono1) simp
  finally show ?case using val IH(1) by (simp add: power_add mult.commute)
qed

text \<open>The bytes and the groups of an address, written out for evaluation.\<close>

lemma upt_4_8: "[0..<4] = [0, 1, 2, 3 :: nat]" "[0..<8] = [0, 1, 2, 3, 4, 5, 6, 7 :: nat]"
  by code_simp+

lemma be_units_4:
  "be_units 4 (w :: u32) =
     ([ucast (drop_bit 24 w), ucast (drop_bit 16 w), ucast (drop_bit 8 w), ucast w] :: byte list)"
  by (simp add: be_units_def upt_4_8)

lemma be_units_8:
  "be_units 8 (w :: u128) =
     ([ucast (drop_bit 112 w), ucast (drop_bit 96 w), ucast (drop_bit 80 w), ucast (drop_bit 64 w),
       ucast (drop_bit 48 w), ucast (drop_bit 32 w), ucast (drop_bit 16 w), ucast w] :: u16 list)"
  by (simp add: be_units_def upt_4_8)

lemmas eval_string4 = string4_def As4_def be_units_4 format_dec_def to_digits.simps digit_char_table
lemmas eval_string6 = string6_def hex_groups_def format_hex_def to_digits.simps digit_char_table
  zero_run_def upt_4_8 better_run_def zero_run_at_def

section \<open>Printed IPv4 addresses parse back\<close>

lemma parse_v4_digits:
  assumes "\<forall>d\<in>set ds. d < 10" and "foldl (\<lambda>a d. a * 10 + d) v ds \<le> 255"
    and "0 < v \<or> k = 0 \<and> v = 0 \<and> (hd ds \<noteq> 0 \<or> length ds \<le> 1)" and "ds \<noteq> []"
  shows "\<exists>c k'. c \<noteq> CHR ''.'' \<and>
    parse_v4_loop p v k fs (map digit_char ds @ s) =
    parse_v4_loop (Some c) (foldl (\<lambda>a d. a * 10 + d) v ds) k' fs s"
  using assms
proof (induction ds arbitrary: p v k)
  case Nil
  then show ?case by simp
next
  case (Cons d ds)
  have grow: "w \<le> foldl (\<lambda>a d. a * 10 + d) w es" for w :: nat and es
  proof (induction es arbitrary: w)
    case (Cons e es)
    from Cons.IH [of "w * 10 + e"] show ?case by simp
  qed simp
  from Cons.prems have d: "d < 10" and le: "v * 10 + d \<le> 255"
    using order.trans [OF grow [of "v * 10 + d" ds]] by auto
  have dot: "digit_char d \<noteq> CHR ''.''"
    using d dec_val_digit_char [of d] by (auto simp: dec_val_def)
  have step: "parse_v4_loop p v k fs (map digit_char (d # ds) @ s) =
      parse_v4_loop (Some (digit_char d)) (v * 10 + d) (Suc k) fs (map digit_char ds @ s)"
    using Cons.prems d le by auto
  show ?case
  proof (cases "ds = []")
    case True
    with dot show ?thesis
      unfolding step by (intro exI [of _ "digit_char d"] exI [of _ "Suc k"]) simp
  next
    case False
    with Cons.prems have "0 < v * 10 + d" by (cases ds) auto
    with Cons.prems False show ?thesis
      unfolding step using Cons.IH [of "v * 10 + d" "Suc k" "Some (digit_char d)"] by simp
  qed
qed

lemma parse_v4_format_dec:
  "\<exists>c k. c \<noteq> CHR ''.'' \<and>
     parse_v4_loop p 0 0 fs (format_dec (unat (b :: byte)) @ s) =
     parse_v4_loop (Some c) (unat b) k fs s"
proof -
  let ?ds = "to_digits 10 (unat b)"
  have val: "foldl (\<lambda>a d. a * 10 + d) 0 ?ds = unat b"
    using of_to_digits [of 10 "unat b"] by (simp add: of_digits_def)
  have le: "unat b \<le> 255" using unat_byte_less [of b] by linarith
  have lead: "hd ?ds \<noteq> 0 \<or> length ?ds \<le> 1"
    using to_digits_hd_nonzero [of 10 "unat b"] by (cases "unat b = 0") auto
  have less: "\<forall>d\<in>set ?ds. d < 10"
    using to_digits_less [of 10 _ "unat b"] by simp
  show ?thesis
    unfolding format_dec_def
    by (rule parse_v4_digits [of ?ds 0 0 p fs s, unfolded val, OF less le _ to_digits_nonempty])
      (use lead in simp)
qed

lemma dec_val_dot [simp]: "dec_val CHR ''.'' = None" "dec_val CHR '':'' = None" "dec_val CHR ''%'' = None"
  "dec_val CHR ''/'' = None"
  by (simp_all add: dec_val_def)

lemma parse_v4_fields_join:
  fixes a b c d :: byte
  shows "parse_v4_fields (join ''.'' (map (\<lambda>x. format_dec (unat x)) [a, b, c, d])) = Inr [a, b, c, d]"
proof -
  have more: "parse_v4_loop p 0 0 fs (format_dec (unat x) @ CHR ''.'' # format_dec m @ s) =
      parse_v4_loop (Some CHR ''.'') 0 0 (fs @ [x]) (format_dec m @ s)"
    if "length fs < 3" for x :: byte and m p fs s
    using parse_v4_format_dec [of p fs x "CHR ''.'' # format_dec m @ s"] that by auto
  have last: "parse_v4_loop p 0 0 fs (format_dec (unat x)) = Inr (fs @ [x])"
    if "length fs = 3" for x :: byte and p fs
    using parse_v4_format_dec [of p fs x "[]"] that by auto
  show ?thesis
    using more [where s = "[]"] by (simp add: parse_v4_fields_def more last)
qed

lemma As4_cases: obtains a b c d where "As4 w = [a, b, c, d]"
proof -
  have "length (As4 w) = Suc (Suc (Suc (Suc 0)))" by (simp add: As4_def)
  then show thesis using that by (auto simp: length_Suc_conv)
qed

lemma parse_v4_fields_string4 [go_text]: "parse_v4_fields (string4 w) = Inr (As4 w)"
  by (rule As4_cases [of w]) (simp add: string4_def parse_v4_fields_join del: join.simps list.map)

lemma be_join_As4 [simp]: "be_join (As4 w) = w"
  unfolding As4_def by (rule be_join_units) simp

lemma be_join_As16 [simp]: "be_join (As16 w) = w"
  unfolding As16_def by (rule be_join_units) simp

lemma parse_v4_string4 [go_text]: "parse_v4 (string4 w) = Inr (V4 w)"
  by (simp add: parse_v4_def parse_v4_fields_string4 AddrFrom4_def)

lemma string4_split:
  obtains a s where "string4 w = format_dec a @ CHR ''.'' # s" "a < 256"
proof (rule As4_cases [of w])
  fix a b c d assume "As4 w = [a, b, c, d]"
  then show thesis
    using that [of "unat a"] by (simp add: string4_def)
qed

lemma dispatch_skip:
  "(\<forall>c\<in>set xs. c \<notin> set ''.:%'') \<Longrightarrow> dropWhile (\<lambda>c. c \<notin> set ''.:%'') (xs @ ys) =
     dropWhile (\<lambda>c. c \<notin> set ''.:%'') ys"
  by (induction xs) auto

lemma hex_val_sep [simp]: "hex_val CHR ''.'' = None" "hex_val CHR '':'' = None" "hex_val CHR ''%'' = None"
  by (simp_all add: hex_val_def)

lemma format_hex_chars: "c \<in> set (format_hex n) \<Longrightarrow> hex_val c \<noteq> None"
  using to_digits_less [of 16 _ n] by (fastforce simp: format_hex_def)

lemma format_dec_chars: "c \<in> set (format_dec n) \<Longrightarrow> hex_val c \<noteq> None"
  using to_digits_less [of 10 _ n] by (fastforce simp: format_dec_def)

lemma hex_not_sep: "hex_val c \<noteq> None \<Longrightarrow> c \<notin> set ''.:%''"
  by auto

lemma netip_ParseAddr_string4 [go_text]: "netip_ParseAddr (string4 w) = Inr (V4 w)"
proof (rule string4_split [of w])
  fix a s assume s: "string4 w = format_dec a @ CHR ''.'' # s"
  have "dropWhile (\<lambda>c. c \<notin> set ''.:%'') (string4 w) = CHR ''.'' # s"
    unfolding s using dispatch_skip format_dec_chars hex_not_sep by simp
  then show ?thesis by (simp add: netip_ParseAddr_def parse_v4_string4)
qed

section \<open>Printed IPv6 addresses parse back\<close>

lemma scan_hex_digits:
  assumes "\<forall>d\<in>set ds. d < 16" and "foldl (\<lambda>a d. a * 16 + d) acc ds \<le> 65535"
    and "off + length ds \<le> 4" and "s = [] \<or> hex_val (hd s) = None"
  shows "scan_hex off acc (map digit_char ds @ s) =
    Inr (off + length ds, foldl (\<lambda>a d. a * 16 + d) acc ds, s)"
  using assms
proof (induction ds arbitrary: off acc)
  case Nil
  then show ?case by (cases s) auto
next
  case (Cons d ds)
  have grow: "w \<le> foldl (\<lambda>a d. a * 16 + d) w es" for w :: nat and es
  proof (induction es arbitrary: w)
    case (Cons e es)
    from Cons.IH [of "w * 16 + e"] show ?case by simp
  qed simp
  from Cons.prems have "acc * 16 + d \<le> 65535"
    using order.trans [OF grow [of "acc * 16 + d" ds]] by auto
  with Cons show ?case by auto
qed

lemma scan_hex_format_hex:
  assumes "s = [] \<or> hex_val (hd s) = None"
  shows "\<exists>k. scan_hex 0 0 (format_hex (unat (g :: u16)) @ s) = Inr (Suc k, unat g, s)"
proof -
  let ?ds = "to_digits 16 (unat g)"
  have val: "foldl (\<lambda>a d. a * 16 + d) 0 ?ds = unat g"
    using of_to_digits [of 16 "unat g"] by (simp add: of_digits_def)
  have le: "unat g \<le> 65535" using unat_u16_less [of g] by linarith
  have len: "length ?ds \<le> 4" by (rule to_digits_length) simp_all
  have less: "\<forall>d\<in>set ?ds. d < 16"
    using to_digits_less [of 16 _ "unat g"] by simp
  have "scan_hex 0 0 (format_hex (unat g) @ s) = Inr (length ?ds, unat g, s)"
    using scan_hex_digits [of ?ds 0 0 s, unfolded val, OF less le] len assms
    by (simp add: format_hex_def)
  moreover have "0 < length ?ds" by simp
  ultimately show ?thesis by (metis gr0_implies_Suc)
qed

text \<open>A decimal field is read as hexadecimal digits before the dot shows that it is not a group.\<close>

lemma scan_hex_dec_field:
  assumes "n < 256"
  shows "\<exists>k acc. scan_hex 0 0 (format_dec n @ CHR ''.'' # s) = Inr (Suc k, acc, CHR ''.'' # s)"
proof -
  let ?ds = "to_digits 10 n"
  have len: "length ?ds \<le> 3" by (rule to_digits_length) (use assms in simp_all)
  have less: "\<forall>d\<in>set ?ds. d < 16"
    using to_digits_less [of 10 _ n] by force
  have bound: "foldl (\<lambda>a d. a * 16 + d) 0 ds < 16 ^ length ds" if "\<forall>d\<in>set ds. d < 16" for ds :: "nat list"
    using that by (induction ds rule: rev_induct) auto
  have "foldl (\<lambda>a d. a * 16 + d) 0 ?ds < 16 ^ length ?ds" by (rule bound [OF less])
  also have "\<dots> \<le> 16 ^ 3" using len by (intro power_increasing) auto
  finally have "scan_hex 0 0 (map digit_char ?ds @ CHR ''.'' # s) =
      Inr (length ?ds, foldl (\<lambda>a d. a * 16 + d) 0 ?ds, CHR ''.'' # s)"
    using scan_hex_digits [of ?ds 0 0 "CHR ''.'' # s"] less len by simp
  moreover have "0 < length ?ds" by simp
  ultimately show ?thesis unfolding format_dec_def by (metis gr0_implies_Suc)
qed

lemma hex_groups_Cons:
  "hex_groups (g # gs) = format_hex (unat g) @ (if gs = [] then [] else CHR '':'' # hex_groups gs)"
  by (cases gs) (simp_all add: hex_groups_def)

lemma hex_groups_hd: "gs \<noteq> [] \<Longrightarrow> hex_groups gs \<noteq> [] \<and> hd (hex_groups gs @ s) \<noteq> CHR '':''"
proof -
  assume "gs \<noteq> []"
  then obtain g gs' where gs: "gs = g # gs'" by (cases gs) auto
  have "hd (format_hex (unat g)) \<in> set (format_hex (unat g))" by simp
  then have "hd (format_hex (unat g)) \<noteq> CHR '':''"
    using format_hex_chars [of _ "unat g"] by fastforce
  then show ?thesis by (simp add: gs hex_groups_Cons)
qed

text \<open>The loop on printed groups, followed by nothing or by an ellipsis.\<close>

lemma parse_v6_loop_groups:
  assumes "hs \<noteq> []" and "length gs + length hs \<le> 8"
  shows "parse_v6_loop gs ell (hex_groups hs) = Inr (gs @ hs, ell, [])"
  using assms
proof (induction hs arbitrary: gs)
  case Nil
  then show ?case by simp
next
  case (Cons h hs)
  show ?case
  proof (cases "hs = []")
    case True
    with Cons.prems show ?thesis
      using scan_hex_format_hex [of "[]" h] by (auto simp: parse_v6_loop.simps hex_groups_Cons)
  next
    case False
    then have "parse_v6_loop gs ell (hex_groups (h # hs)) = parse_v6_loop (gs @ [h]) ell (hex_groups hs)"
      using scan_hex_format_hex [of "CHR '':'' # hex_groups hs" h] hex_groups_hd [of hs "[]"] Cons.prems
      by (auto simp: parse_v6_loop.simps [of gs ell] hex_groups_Cons)
    with Cons False show ?thesis by simp
  qed
qed

lemma parse_v6_loop_ellipsis:
  assumes "hs \<noteq> []" and "length gs + length hs < 8"
  shows "parse_v6_loop gs None (hex_groups hs @ ''::'' @ s) =
    (let gs' = gs @ hs in
     if s = [] then Inr (gs', Some (length gs'), [])
     else parse_v6_loop gs' (Some (length gs')) s)"
  using assms
proof (induction hs arbitrary: gs)
  case Nil
  then show ?case by simp
next
  case (Cons h hs)
  show ?case
  proof (cases "hs = []")
    case True
    with Cons.prems show ?thesis
      using scan_hex_format_hex [of "''::'' @ s" h]
      by (auto simp: parse_v6_loop.simps [of gs None] hex_groups_Cons)
  next
    case False
    then have "parse_v6_loop gs None (hex_groups (h # hs) @ ''::'' @ s) =
        parse_v6_loop (gs @ [h]) None (hex_groups hs @ ''::'' @ s)"
      using scan_hex_format_hex [of "CHR '':'' # hex_groups hs @ ''::'' @ s" h]
        hex_groups_hd [of hs "''::'' @ s"] Cons.prems
      by (auto simp: parse_v6_loop.simps [of gs None] hex_groups_Cons)
    with Cons False show ?thesis by simp
  qed
qed

lemma hex_groups_chars: "c \<in> set (hex_groups gs) \<Longrightarrow> hex_val c \<noteq> None \<or> c = CHR '':''"
proof (induction gs)
  case (Cons g gs)
  then show ?case
    using format_hex_chars [of c "unat g"] by (auto simp: hex_groups_Cons split: if_splits)
qed (simp add: hex_groups_def)

lemma no_percent_hex_groups [simp]: "CHR ''%'' \<notin> set (hex_groups gs)"
  using hex_groups_chars by fastforce

lemma parse_v6_plain:
  assumes "length gs = 8"
  shows "parse_v6 (hex_groups gs) = Inr (V6 (be_join gs))"
proof -
  have ne: "gs \<noteq> []" using assms by auto
  have "take 2 (hex_groups gs) \<noteq> ''::''"
    using hex_groups_hd [OF ne, of "[]"] by (cases "hex_groups gs") auto
  then show ?thesis
    using parse_v6_loop_groups [OF ne, of "[]" None] assms by (simp add: parse_v6_no_zone parse_v6_fields_def)
qed

lemma be_join_zeros: "be_join (replicate n (0 :: 'u::len word)) = (0 :: 'a::len word)"
  by (rule bit_word_eqI) (simp add: bit_be_join)

lemma parse_v6_run:
  assumes "length xs + length ys < 8"
  shows "parse_v6 (hex_groups xs @ ''::'' @ hex_groups ys) =
    Inr (V6 (be_join (xs @ replicate (8 - length xs - length ys) 0 @ ys)))"
proof -
  let ?s = "hex_groups xs @ ''::'' @ hex_groups ys"
  have pct: "CHR ''%'' \<notin> set ?s" by simp
  show ?thesis
  proof (cases "xs = []")
    case True
    show ?thesis
    proof (cases "ys = []")
      case True
      with \<open>xs = []\<close> show ?thesis
        using be_join_zeros [of 8, where 'u = 16 and 'a = 128]
        by (simp add: parse_v6_no_zone parse_v6_fields_def hex_groups_def numeral_eq_Suc)
    next
      case False
      with \<open>xs = []\<close> show ?thesis
        using parse_v6_loop_groups [OF False, of "[]" "Some 0"] assms hex_groups_hd [OF False, of "[]"]
        by (simp add: parse_v6_no_zone parse_v6_fields_def hex_groups_def [of "[]"])
    qed
  next
    case False
    have lead: "take 2 ?s \<noteq> ''::''"
      using hex_groups_hd [OF False, of "''::'' @ hex_groups ys"] by (cases ?s) auto
    have loop: "parse_v6_loop [] None ?s = Inr (xs @ ys, Some (length xs), [])"
    proof (cases "ys = []")
      case True
      with False assms show ?thesis
        using parse_v6_loop_ellipsis [OF False, of "[]" "[]"] by (simp add: hex_groups_def [of "[]"])
    next
      case ys: False
      with False assms show ?thesis
        using parse_v6_loop_ellipsis [OF False, of "[]" "hex_groups ys"]
          hex_groups_hd [OF ys, of "[]"] parse_v6_loop_groups [OF ys, of xs "Some (length xs)"]
        by simp
    qed
    with lead pct assms show ?thesis
      by (simp add: parse_v6_no_zone parse_v6_fields_def Let_def del: append.simps(2))
  qed
qed

lemma zero_run_at_zeros:
  "take (zero_run_at gs i) (drop i gs) = replicate (zero_run_at gs i) 0"
  "i \<le> length gs \<Longrightarrow> i + zero_run_at gs i \<le> length gs"
proof -
  show "take (zero_run_at gs i) (drop i gs) = replicate (zero_run_at gs i) 0"
    unfolding zero_run_at_def takeWhile_eq_take [symmetric]
    by (metis (mono_tags, lifting) replicate_length_same set_takeWhileD)
  show "i \<le> length gs \<Longrightarrow> i + zero_run_at gs i \<le> length gs"
    using length_takeWhile_le [of "\<lambda>g. g = 0" "drop i gs"] by (auto simp: zero_run_at_def)
qed

definition good_run :: "u16 list \<Rightarrow> (nat \<times> nat) option \<Rightarrow> bool" where
  "good_run gs best \<longleftrightarrow>
     (case best of None \<Rightarrow> True
      | Some (i, l) \<Rightarrow> 2 \<le> l \<and> i + l \<le> length gs \<and> take l (drop i gs) = replicate l 0)"

lemma good_run_fold:
  "good_run gs best \<Longrightarrow> \<forall>i\<in>set is. i \<le> length gs \<Longrightarrow> good_run gs (fold (better_run gs) is best)"
proof (induction "is" arbitrary: best)
  case (Cons i js)
  then have "good_run gs (better_run gs i best)"
    using zero_run_at_zeros [where gs = gs and i = i] by (auto simp: better_run_def good_run_def Let_def)
  with Cons show ?case by simp
qed simp

lemma good_zero_run: "length gs = 8 \<Longrightarrow> good_run gs (zero_run gs)"
  unfolding zero_run_def by (rule good_run_fold) (simp_all add: good_run_def)

lemma be_join_groups [simp]: "be_join (be_units 8 w :: u16 list) = (w :: u128)"
  by (rule be_join_units) simp

lemma parse_v6_string6: "parse_v6 (string6 w) = Inr (V6 w)"
proof -
  let ?gs = "be_units 8 w :: u16 list"
  have run: "good_run ?gs (zero_run ?gs)" by (rule good_zero_run) simp
  show ?thesis
  proof (cases "zero_run ?gs")
    case None
    then show ?thesis using parse_v6_plain [of ?gs] by (simp add: string6_def)
  next
    case (Some p)
    then obtain i l where p: "zero_run ?gs = Some (i, l)" by (cases p) auto
    with run have l: "2 \<le> l" "i + l \<le> 8" "take l (drop i ?gs) = replicate l 0"
      by (auto simp: good_run_def)
    have "be_join (take i ?gs @ replicate l 0 @ drop (i + l) ?gs) = w"
      unfolding l(3) [symmetric] take_drop_split3 by (rule be_join_groups)
    then show ?thesis
      using parse_v6_run [of "take i ?gs" "drop (i + l) ?gs"] l p by (simp add: string6_def Let_def)
  qed
qed

lemma Is4In6_join:
  assumes "Is4In6 w"
  shows "be_join (replicate 5 0 @ [0xffff :: u16] @ be_units 2 (ucast w :: u32)) = (w :: u128)"
proof -
  have low: "be_join (be_units 2 (ucast w :: u32) :: u16 list) = (ucast (ucast w :: u32) :: u128)"
    by (rule be_join_units_ucast) simp
  have high: "be_join (replicate 5 0 @ [0xffff :: u16]) = (drop_bit 32 w :: u128)"
    using assms by (simp add: be_join_append be_join_zeros Is4In6_def) (simp add: be_join_def)
  have "be_join ((replicate 5 0 @ [0xffff :: u16]) @ be_units 2 (ucast w :: u32)) =
      (or (push_bit 32 (drop_bit 32 w)) (ucast (ucast w :: u32)) :: u128)"
    unfolding be_join_append [of "replicate 5 0 @ [0xffff]"] low high by simp
  also have "\<dots> = w"
    by (rule bit_word_eqI) (auto simp: bit_or_iff bit_push_bit_iff bit_drop_bit_eq bit_unsigned_iff)
  finally show ?thesis by simp
qed

lemma string4_chars: "c \<in> set (string4 w) \<Longrightarrow> hex_val c \<noteq> None \<or> c = CHR ''.''"
proof (rule As4_cases [of w])
  fix a b d e assume "c \<in> set (string4 w)" "As4 w = [a, b, d, e]"
  then show ?thesis using format_dec_chars [of c] by (auto simp: string4_def)
qed

lemma hex_groups_ffff: "hex_groups [0xffff] = ''ffff''"
  by (simp add: hex_groups_def format_hex_def to_digits.simps digit_char_table)

lemma parse_v6_string4In6:
  assumes "Is4In6 w"
  shows "parse_v6 (''::ffff:'' @ string4 (ucast w)) = Inr (V6 w)"
proof -
  let ?s = "string4 (ucast w)"
  obtain a t where s: "?s = format_dec a @ CHR ''.'' # t" and a: "a < 256"
    by (rule string4_split)
  have pct: "CHR ''%'' \<notin> set ?s" using string4_chars by fastforce
  have colon: "hd ?s \<noteq> CHR '':''" "?s \<noteq> []"
    using format_dec_chars [of "hd (format_dec a)" a] by (auto simp: s)
  have "parse_v6_loop [] (Some 0) (hex_groups [0xffff] @ CHR '':'' # ?s) =
      parse_v6_loop [0xffff] (Some 0) ?s"
    using scan_hex_format_hex [of "CHR '':'' # ?s" "0xffff"] colon
    by (auto simp: parse_v6_loop.simps [of "[]"] hex_groups_Cons)
  also have "\<dots> = Inr ([0xffff] @ be_units 2 (ucast w :: u32), Some 0, [])"
    using scan_hex_dec_field [OF a, of t] parse_v4_fields_string4 [of "ucast w"]
    by (auto simp: parse_v6_loop.simps [of "[0xffff]"] s)
  finally show ?thesis
    using Is4In6_join [OF assms] pct by (simp add: parse_v6_no_zone parse_v6_fields_def hex_groups_ffff)
qed

lemma dispatch_colon:
  "(\<forall>c\<in>set xs. hex_val c \<noteq> None) \<Longrightarrow> netip_ParseAddr (xs @ CHR '':'' # s) = parse_v6 (xs @ CHR '':'' # s)"
  using dispatch_skip [of xs "CHR '':'' # s"] hex_not_sep by (simp add: netip_ParseAddr_def)

lemma hex_groups_sep_split:
  assumes "gs \<noteq> []"
  obtains t where "hex_groups gs @ CHR '':'' # s = format_hex (unat (hd gs)) @ CHR '':'' # t"
proof (cases gs)
  case (Cons g gs')
  then show thesis
    using that [of "if gs' = [] then s else hex_groups gs' @ CHR '':'' # s"]
    by (auto simp: hex_groups_Cons)
qed (use assms in simp)

lemma string6_split: obtains xs s where "string6 w = xs @ CHR '':'' # s" "\<forall>c\<in>set xs. hex_val c \<noteq> None"
proof (cases "zero_run (be_units 8 w :: u16 list)")
  case None
  let ?gs = "be_units 8 w :: u16 list"
  have "length ?gs = Suc (Suc 6)" by simp
  then obtain g g' gs where "?gs = g # g' # gs" by (metis length_Suc_conv)
  then have "string6 w = format_hex (unat g) @ CHR '':'' # hex_groups (g' # gs)"
    using None by (simp add: string6_def hex_groups_Cons)
  then show thesis using that format_hex_chars by blast
next
  case (Some p)
  then obtain i l where p: "p = (i, l)" by (cases p)
  let ?gs = "be_units 8 w :: u16 list"
  have s6: "string6 w = hex_groups (take i ?gs) @ CHR '':'' # CHR '':'' # hex_groups (drop (i + l) ?gs)"
    using Some p by (simp add: string6_def Let_def)
  show thesis
  proof (cases "take i ?gs = []")
    case True
    with that [of "[]"] s6 show thesis by (simp add: hex_groups_def [of "[]"])
  next
    case False
    then show thesis
      using that s6 format_hex_chars by (metis hex_groups_sep_split)
  qed
qed

lemma netip_ParseAddr_String [go_text]: "netip_ParseAddr (addr_String a) = Inr a"
proof (cases a)
  case (V4 w)
  then show ?thesis by (simp add: netip_ParseAddr_string4)
next
  case (V6 w)
  show ?thesis
  proof (cases "Is4In6 w")
    case True
    then show ?thesis
      using V6 parse_v6_string4In6 [OF True] dispatch_colon [of "[]"] by simp
  next
    case False
    then show ?thesis
      using V6 parse_v6_string6 [of w] dispatch_colon string6_split [of w] by (metis addr_String.simps(2))
  qed
qed

interpretation netip: printed_form addr_String netip_ParseAddr "\<lambda>_. True"
  by unfold_locales (simp_all add: netip_ParseAddr_String)

end
