(* ===== verification/Cidr.thy ===== *)
theory Cidr
  imports Netip
begin

text \<open>
  Package \<^verbatim>\<open>cidr\<close> (\<^verbatim>\<open>enforcer/internal/cidr/cidr.go\<close>): the address blocks a session credential
  lists as its targets. \<open>Parse\<close> reads a block from the credential, \<open>Contains\<close> tests membership byte
  by byte, and \<open>cidr_String\<close> prints the token that the rule renderer emits. The byte comparison of
  \<open>Contains\<close> indexes its arguments; an index out of range is a panic in Go and \<open>None\<close> here.
  The theory shows that \<open>Contains\<close> never panics on a parsed block and decides equality of the
  leading bits, and that printing a block and parsing it again gives the block.
\<close>

section \<open>The block and its operations\<close>

record Cidr =
  c_addr :: addr
  c_prefixLen :: byte

datatype cidr_error =
    MissingSlash string
  | MissingAddress string
  | ZoneNotAllowed string
  | InvalidAddress string parse_addr_error
  | InvalidPrefix string num_error
  | PrefixTooLong byte byte

definition Parse :: "string \<Rightarrow> cidr_error + Cidr" where
  "Parse s =
     (case strings_Cut s CHR ''/'' of (addrStr, prefixStr, found) \<Rightarrow>
        if \<not> found then Inl (MissingSlash s)
        else if addrStr = [] then Inl (MissingAddress s)
        else if CHR ''%'' \<in> set addrStr then Inl (ZoneNotAllowed addrStr)
        else
          case netip_ParseAddr addrStr of
            Inl err \<Rightarrow> Inl (InvalidAddress addrStr err)
          | Inr addr \<Rightarrow>
              case strconv_ParseUint (strings_TrimPrefix prefixStr ''+'') 8 of
                Inl err \<Rightarrow> Inl (InvalidPrefix prefixStr err)
              | Inr prefix64 \<Rightarrow>
                  let prefixLen = of_nat prefix64 :: byte;
                      maxPrefix = (if Is4 addr then 32 else 128)
                  in
                    if maxPrefix < prefixLen then Inl (PrefixTooLong prefixLen maxPrefix)
                    else Inr \<lparr>c_addr = addr, c_prefixLen = prefixLen\<rparr>)"

text \<open>The loop over the first \<open>full\<close> bytes.\<close>

fun maskedPrefix :: "nat \<Rightarrow> byte list \<Rightarrow> byte list \<Rightarrow> bool option" where
  "maskedPrefix 0 a b = Some True"
| "maskedPrefix (Suc n) (x # a) (y # b) = (if x \<noteq> y then Some False else maskedPrefix n a b)"
| "maskedPrefix (Suc n) _ _ = None"

definition maskedEqual :: "byte list \<Rightarrow> byte list \<Rightarrow> byte \<Rightarrow> bool option" where
  "maskedEqual a b prefixLen =
     (let full = unat (prefixLen div 8) in
      case maskedPrefix full a b of
        None \<Rightarrow> None
      | Some False \<Rightarrow> Some False
      | Some True \<Rightarrow>
          let rem = prefixLen mod 8 in
          if rem = 0 then Some True
          else
            let shift = unat (8 - rem) in
            if full < length a \<and> full < length b
            then Some (drop_bit shift (a ! full) = drop_bit shift (b ! full))
            else None)"

fun Contains :: "Cidr \<Rightarrow> addr \<Rightarrow> bool option" where
  "Contains c ip =
     (case (c_addr c, ip) of
        (V4 a, V4 b) \<Rightarrow> maskedEqual (As4 a) (As4 b) (c_prefixLen c)
      | (V6 a, V6 b) \<Rightarrow> maskedEqual (As16 a) (As16 b) (c_prefixLen c)
      | _ \<Rightarrow> Some False)"

definition cidr_String :: "Cidr \<Rightarrow> string" where
  "cidr_String c = addr_String (c_addr c) @ ''/'' @ format_dec (unat (c_prefixLen c))"

section \<open>The specification of a block\<close>

definition max_prefix :: "addr \<Rightarrow> nat" where
  "max_prefix a = (if Is4 a then 32 else 128)"

definition wf_cidr :: "Cidr \<Rightarrow> bool" where
  "wf_cidr c \<longleftrightarrow> unat (c_prefixLen c) \<le> max_prefix (c_addr c)"

text \<open>Membership as it is meant: same family, and the leading \<open>prefixLen\<close> bits agree.\<close>

fun in_block :: "Cidr \<Rightarrow> addr \<Rightarrow> bool" where
  "in_block c ip =
     (let p = unat (c_prefixLen c) in
      case (c_addr c, ip) of
        (V4 a, V4 b) \<Rightarrow> drop_bit (32 - p) a = drop_bit (32 - p) b
      | (V6 a, V6 b) \<Rightarrow> drop_bit (128 - p) a = drop_bit (128 - p) b
      | _ \<Rightarrow> False)"

declare Contains.simps [simp del] in_block.simps [simp del]

section \<open>The byte loop compares leading bits\<close>

lemma maskedPrefix_eq:
  "n \<le> length a \<Longrightarrow> n \<le> length b \<Longrightarrow> maskedPrefix n a b = Some (take n a = take n b)"
  by (induction n a b rule: maskedPrefix.induct) auto

lemma byte_div_mod: "unat ((p :: byte) div 8) = unat p div 8" "unat (p mod 8) = unat p mod 8"
  by (simp_all add: unat_div unat_mod)

lemma maskedEqual_nat:
  assumes "unat p \<le> 8 * length a" and "length b = length a"
  shows "maskedEqual a b p =
    Some (take (unat p div 8) a = take (unat p div 8) b \<and>
      (unat p mod 8 \<noteq> 0 \<longrightarrow>
        drop_bit (8 - unat p mod 8) (a ! (unat p div 8)) = drop_bit (8 - unat p mod 8) (b ! (unat p div 8))))"
proof -
  let ?q = "unat p div 8" and ?r = "unat p mod 8"
  have q: "?q \<le> length a" using assms(1) by linarith
  have zero: "p mod 8 = 0 \<longleftrightarrow> ?r = 0"
    by (metis byte_div_mod(2) unat_eq_zero)
  have shift: "unat (8 - p mod 8) = 8 - ?r"
  proof -
    have "p mod 8 \<le> 8" by (simp add: word_le_nat_alt byte_div_mod)
    then show ?thesis by (simp add: unat_sub byte_div_mod)
  qed
  have "m \<le> 8 * l \<Longrightarrow> m mod 8 \<noteq> 0 \<Longrightarrow> m div 8 < l" for m l :: nat
    by (cases "m = 8 * l") (auto simp: div_less_iff_less_mult)
  then have lt: "?q < length a" if "?r \<noteq> 0"
    using assms(1) that by blast
  show ?thesis
    using assms(2) q lt
    by (auto simp: maskedEqual_def byte_div_mod maskedPrefix_eq zero shift Let_def split: bool.splits)
qed

text \<open>The bytes of a word agree on a prefix exactly if the word's leading bits do.\<close>

lemma be_units_take_eq:
  fixes a b :: "'a::len word"
  assumes "LENGTH('a) = n * LENGTH('u)" and "q \<le> n"
  shows "take q (be_units n a :: 'u::len word list) = take q (be_units n b) \<longleftrightarrow>
    (\<forall>k. LENGTH('u) * (n - q) \<le> k \<longrightarrow> k < LENGTH('a) \<longrightarrow> bit a k = bit b k)"
    (is "?units = ?bits")
proof -
  let ?L = "LENGTH('u)"
  have "?units \<longleftrightarrow> (\<forall>i<q. \<forall>j<?L. bit a (?L * (n - 1 - i) + j) = bit b (?L * (n - 1 - i) + j))"
    using assms(2) by (auto simp: list_eq_iff_nth_eq word_bits_eq bit_be_units)
  also have "\<dots> \<longleftrightarrow> ?bits"
  proof (rule iffI; intro allI impI)
    fix k assume units: "\<forall>i<q. \<forall>j<?L. bit a (?L * (n - 1 - i) + j) = bit b (?L * (n - 1 - i) + j)"
      and lo: "?L * (n - q) \<le> k" and hi: "k < LENGTH('a)"
    have d: "k div ?L < n" using hi assms(1) by (simp add: less_mult_imp_div_less)
    have "n - q \<le> k div ?L" using lo by (simp add: less_eq_div_iff_mult_less_eq mult.commute)
    with d assms(2) have "n - 1 - k div ?L < q" and "n - 1 - (n - 1 - k div ?L) = k div ?L"
      by linarith+
    with units have "bit a (?L * (k div ?L) + k mod ?L) = bit b (?L * (k div ?L) + k mod ?L)"
      by (metis len_gt_0 mod_less_divisor)
    then show "bit a k = bit b k" by simp
  next
    fix i j assume bits: ?bits and i: "i < q" and j: "j < ?L"
    have lo: "?L * (n - q) \<le> ?L * (n - 1 - i) + j" using i by (intro trans_le_add1 mult_le_mono2) simp
    have "?L * (n - 1 - i) + j < ?L * Suc (n - 1 - i)" using j by simp
    also have "\<dots> \<le> ?L * n" using i assms(2) by (intro mult_le_mono2) linarith
    finally have "?L * (n - 1 - i) + j < LENGTH('a)" using assms(1) by (simp add: mult.commute)
    with bits lo show "bit a (?L * (n - 1 - i) + j) = bit b (?L * (n - 1 - i) + j)" by blast
  qed
  finally show ?thesis .
qed

lemma byte_drop_bit_eq:
  fixes a b :: "'a::len word"
  assumes "LENGTH('a) = n * 8" and "q < n" and "r \<le> 8"
  shows "drop_bit (8 - r) ((be_units n a :: byte list) ! q) = drop_bit (8 - r) (be_units n b ! q) \<longleftrightarrow>
    (\<forall>k. 8 * (n - q) - r \<le> k \<longrightarrow> k < 8 * (n - q) \<longrightarrow> bit a k = bit b k)"
    (is "?lhs = ?rhs")
proof -
  have "?lhs \<longleftrightarrow> (\<forall>j. 8 - r \<le> j \<longrightarrow> j < 8 \<longrightarrow> bit a (8 * (n - 1 - q) + j) = bit b (8 * (n - 1 - q) + j))"
    using assms(2) by (simp add: drop_bit_eq_iff_bits bit_be_units)
  also have "\<dots> \<longleftrightarrow> ?rhs"
  proof (rule iffI; intro allI impI)
    fix k assume *: "\<forall>j. 8 - r \<le> j \<longrightarrow> j < 8 \<longrightarrow> bit a (8 * (n - 1 - q) + j) = bit b (8 * (n - 1 - q) + j)"
      and k: "8 * (n - q) - r \<le> k" "k < 8 * (n - q)"
    from k assms(2,3) have "8 - r \<le> k - 8 * (n - 1 - q)" "k - 8 * (n - 1 - q) < 8"
      "8 * (n - 1 - q) + (k - 8 * (n - 1 - q)) = k" by linarith+
    with * show "bit a k = bit b k" by metis
  next
    fix j assume "?rhs" and "8 - r \<le> j" "j < 8"
    moreover from this assms(2,3) have "8 * (n - q) - r \<le> 8 * (n - 1 - q) + j"
      "8 * (n - 1 - q) + j < 8 * (n - q)" by linarith+
    ultimately show "bit a (8 * (n - 1 - q) + j) = bit b (8 * (n - 1 - q) + j)" by blast
  qed
  finally show ?thesis .
qed

lemma maskedEqual_be_units:
  fixes a b :: "'a::len word"
  assumes len: "LENGTH('a) = n * 8" and p: "unat p \<le> LENGTH('a)"
  shows "maskedEqual (be_units n a) (be_units n b) p =
    Some (drop_bit (LENGTH('a) - unat p) a = drop_bit (LENGTH('a) - unat p) b)"
proof -
  let ?q = "unat p div 8" and ?r = "unat p mod 8"
  have p8: "unat p = 8 * ?q + ?r" by simp
  have q: "?q \<le> n" using p len by linarith
  have qn: "?q < n" if "?r \<noteq> 0" using p len that p8 q by (cases "?q = n") auto
  have split: "LENGTH('a) - unat p = 8 * (n - ?q) - ?r"
    using p8 len q by (simp add: diff_mult_distrib2 mult.commute)
  have "(\<forall>k. LENGTH('a) - unat p \<le> k \<longrightarrow> k < LENGTH('a) \<longrightarrow> bit a k = bit b k) \<longleftrightarrow>
      (\<forall>k. 8 * (n - ?q) \<le> k \<longrightarrow> k < LENGTH('a) \<longrightarrow> bit a k = bit b k) \<and>
      (\<forall>k. 8 * (n - ?q) - ?r \<le> k \<longrightarrow> k < 8 * (n - ?q) \<longrightarrow> bit a k = bit b k)"
    unfolding split by (rule all_range_split) (use len q in simp_all)
  moreover have "take ?q (be_units n a :: byte list) = take ?q (be_units n b) \<longleftrightarrow>
      (\<forall>k. 8 * (n - ?q) \<le> k \<longrightarrow> k < LENGTH('a) \<longrightarrow> bit a k = bit b k)"
    using be_units_take_eq [where 'u = 8 and n = n and q = ?q and a = a and b = b] len q by simp
  ultimately show ?thesis
    using p len byte_drop_bit_eq [OF len, of ?q ?r a b] qn
    by (subst maskedEqual_nat) (auto simp: drop_bit_eq_iff_bits)
qed

section \<open>Contains and its specification\<close>

lemma Contains_in_block: "wf_cidr c \<Longrightarrow> Contains c ip = Some (in_block c ip)"
  by (cases "c_addr c"; cases ip)
    (auto simp: Contains.simps in_block.simps wf_cidr_def max_prefix_def As4_def As16_def Let_def
      maskedEqual_be_units)

lemma in_block_refl [simp]: "in_block c (c_addr c)"
  by (cases "c_addr c") (simp_all add: in_block.simps)

lemma in_block_family: "in_block c ip \<Longrightarrow> Is4 ip = Is4 (c_addr c)"
  by (cases "c_addr c"; cases ip) (simp_all add: in_block.simps Let_def)

lemma in_block_mono:
  assumes "in_block c (c_addr d)" and "unat (c_prefixLen c) \<le> unat (c_prefixLen d)" and "in_block d ip"
  shows "in_block c ip"
proof (cases ip)
  case (V4 w)
  with assms obtain a b where "c_addr c = V4 a" "c_addr d = V4 b"
    by (metis Is4.simps addr.exhaust in_block_family)
  with V4 assms show ?thesis
    using drop_bit_eq_mono [of "32 - unat (c_prefixLen d)" b w "32 - unat (c_prefixLen c)"]
    by (simp add: in_block.simps Let_def)
next
  case (V6 w)
  with assms obtain a b where "c_addr c = V6 a" "c_addr d = V6 b"
    by (metis Is4.simps addr.exhaust in_block_family)
  with V6 assms show ?thesis
    using drop_bit_eq_mono [of "128 - unat (c_prefixLen d)" b w "128 - unat (c_prefixLen c)"]
    by (simp add: in_block.simps Let_def)
qed

section \<open>Parsing and printing\<close>

lemma prefix_fits:
  assumes "n < 256"
  shows "\<not> (if Is4 a then 32 else 128) < (of_nat n :: byte) \<longleftrightarrow> n \<le> max_prefix a"
  using assms by (auto simp: word_less_nat_alt unat_of_nat_byte max_prefix_def)

lemma Parse_InrD:
  assumes "Parse s = Inr c"
  shows "\<exists>addrStr prefixStr. s = addrStr @ ''/'' @ prefixStr \<and> CHR ''/'' \<notin> set addrStr \<and>
    addrStr \<noteq> [] \<and> CHR ''%'' \<notin> set addrStr \<and> netip_ParseAddr addrStr = Inr (c_addr c) \<and>
    strconv_ParseUint (strings_TrimPrefix prefixStr ''+'') 8 = Inr (unat (c_prefixLen c)) \<and> wf_cidr c"
proof -
  obtain x y f where cut: "strings_Cut s CHR ''/'' = (x, y, f)" by (cases "strings_Cut s CHR ''/''")
  from assms obtain n where ok: "f" "x \<noteq> []" "CHR ''%'' \<notin> set x" "netip_ParseAddr x = Inr (c_addr c)"
    "strconv_ParseUint (strings_TrimPrefix y ''+'') 8 = Inr n"
    "\<not> (if Is4 (c_addr c) then 32 else 128) < (of_nat n :: byte)" "c_prefixLen c = of_nat n"
    by (auto simp: Parse_def cut Let_def split: if_splits sum.splits)
  have n: "n < 256" using strconv_ParseUint_less [OF ok(5)] by simp
  then have "unat (c_prefixLen c) = n" by (simp add: ok(7) unat_of_nat_byte)
  moreover have "n \<le> max_prefix (c_addr c)" using ok(6) prefix_fits [OF n] by simp
  moreover have "s = x @ CHR ''/'' # y" "CHR ''/'' \<notin> set x"
    using cut ok(1) strings_Cut_found by auto
  ultimately show ?thesis using ok by (auto simp: wf_cidr_def)
qed

lemma Parse_wf: "Parse s = Inr c \<Longrightarrow> wf_cidr c"
  using Parse_InrD by blast

lemma addr_String_chars: "c \<in> set (addr_String a) \<Longrightarrow> hex_val c \<noteq> None \<or> c = CHR '':'' \<or> c = CHR ''.''"
proof (cases a)
  case (V6 w)
  assume "c \<in> set (addr_String a)"
  then consider "Is4In6 w" "c \<in> set ''::ffff:'' \<union> set (string4 (ucast w))"
    | "c \<in> set (hex_groups (be_units 8 w))"
    | i l where "c \<in> set (hex_groups (take i (be_units 8 w))) \<union> {CHR '':''} \<union>
        set (hex_groups (drop (i + l) (be_units 8 w)))"
    using V6 by (auto simp: string6_def Let_def split: if_splits option.splits)
  then show ?thesis
    by cases (use string4_chars hex_groups_chars in \<open>fastforce simp: hex_val_def\<close>)+
qed (use string4_chars in fastforce)

lemma addr_String_nonempty: "addr_String a \<noteq> []"
  using netip_ParseAddr_String [of a] by (auto simp: netip_ParseAddr_def)

lemma Parse_String:
  assumes "wf_cidr c"
  shows "Parse (cidr_String c) = Inr c"
proof -
  let ?a = "addr_String (c_addr c)" and ?n = "unat (c_prefixLen c)"
  have slash: "CHR ''/'' \<notin> set ?a" and pct: "CHR ''%'' \<notin> set ?a"
    using addr_String_chars [of _ "c_addr c"] by (fastforce simp: hex_val_def)+
  have "?n < 2 ^ 8" using unat_byte_less by simp
  then have n: "strconv_ParseUint (strings_TrimPrefix (format_dec ?n) ''+'') 8 = Inr ?n"
    by (simp only: strings_TrimPrefix_plus_digits strconv_ParseUint_format_dec)
  have "\<not> (if Is4 (c_addr c) then 32 else 128) < (of_nat ?n :: byte)"
    using assms prefix_fits [of ?n] by (simp add: wf_cidr_def)
  then show ?thesis
    using slash pct n addr_String_nonempty [of "c_addr c"]
    by (simp add: Parse_def cidr_String_def strings_Cut_append netip_ParseAddr_String)
qed

interpretation cidr: printed_form cidr_String Parse wf_cidr
  by unfold_locales (simp_all add: Parse_String Parse_wf)

section \<open>Properties\<close>

text \<open>C20: On a block that \<open>Parse\<close> returned, \<open>Contains\<close> never reads a byte out of range, and its answer is
  that the address is of the block's family and agrees with the block's address on the leading
  \<open>prefixLen\<close> bits.\<close>

theorem contains_decides_prefix:
  assumes "Parse s = Inr c"
  shows "Contains c ip = Some (in_block c ip)"
  using assms by (rule Contains_in_block [OF Parse_wf])

text \<open>Evaluation of an IPv4 block by printing and parsing it.\<close>

lemma Parse_example: "Parse ''10.0.0.0/24'' = Inr \<lparr>c_addr = V4 0x0A000000, c_prefixLen = 24\<rparr>"
proof -
  have "cidr_String \<lparr>c_addr = V4 0x0A000000, c_prefixLen = 24\<rparr> = ''10.0.0.0/24''"
    by (simp add: cidr_String_def eval_string4)
  then show ?thesis
    using Parse_String [of "\<lparr>c_addr = V4 0x0A000000, c_prefixLen = 24\<rparr>"]
    by (simp add: wf_cidr_def max_prefix_def)
qed

theorem contains_decides_prefix_witness:
  "Contains \<lparr>c_addr = V4 0x0A000000, c_prefixLen = 24\<rparr> (V4 0x0A0000FF) = Some True"
  using contains_decides_prefix [OF Parse_example, of "V4 0x0A0000FF"]
  by (simp add: in_block.simps)

text \<open>C21: \<open>Parse\<close> accepts exactly the texts of an address without a zone, a slash and a decimal prefix
  length (with at most one plus sign in front) of at most 32 for IPv4 and 128 for IPv6, and the block
  it returns is that address and that length.\<close>

theorem Parse_accepts_iff:
  "Parse s = Inr c \<longleftrightarrow>
     (\<exists>addrStr prefixStr. s = addrStr @ ''/'' @ prefixStr \<and>
        CHR ''/'' \<notin> set addrStr \<and> CHR ''%'' \<notin> set addrStr \<and>
        netip_ParseAddr addrStr = Inr (c_addr c) \<and>
        strconv_ParseUint (strings_TrimPrefix prefixStr ''+'') 8 = Inr (unat (c_prefixLen c)) \<and>
        unat (c_prefixLen c) \<le> (if Is4 (c_addr c) then 32 else 128))"
    (is "_ \<longleftrightarrow> ?rhs")
proof
  assume "Parse s = Inr c"
  then show ?rhs
    using Parse_InrD [of s c] by (fastforce simp: wf_cidr_def max_prefix_def)
next
  assume ?rhs
  then obtain x y where s: "s = x @ CHR ''/'' # y" and x: "CHR ''/'' \<notin> set x" "CHR ''%'' \<notin> set x"
    and a: "netip_ParseAddr x = Inr (c_addr c)"
    and n: "strconv_ParseUint (strings_TrimPrefix y ''+'') 8 = Inr (unat (c_prefixLen c))"
    and le: "unat (c_prefixLen c) \<le> max_prefix (c_addr c)"
    by (auto simp: max_prefix_def)
  have "x \<noteq> []" using a by (auto simp: netip_ParseAddr_def)
  moreover have "\<not> (if Is4 (c_addr c) then 32 else 128) < (of_nat (unat (c_prefixLen c)) :: byte)"
    using le prefix_fits [of "unat (c_prefixLen c)" "c_addr c"] by simp
  ultimately show "Parse s = Inr c"
    using x a n unfolding s by (simp add: Parse_def strings_Cut_append)
qed

text \<open>C22: Printing is the inverse of parsing: a parsed block prints as a text that parses back to the
  same block, and two parsed blocks with the same text are the same block.\<close>

theorem cidr_reserialization:
  assumes "Parse s = Inr c" and "Parse t = Inr d"
  shows "Parse (cidr_String c) = Inr c \<and> (cidr_String c = cidr_String d \<longleftrightarrow> c = d)"
  using assms by (simp add: cidr.reprint cidr.normal_form_unique)

theorem cidr_reserialization_witness:
  "Parse (cidr_String \<lparr>c_addr = V4 0x0A000000, c_prefixLen = 24\<rparr>) =
     Inr \<lparr>c_addr = V4 0x0A000000, c_prefixLen = 24\<rparr>"
  using cidr_reserialization [OF Parse_example Parse_example] by blast

text \<open>A block inside another one is contained in it: if \<open>c\<close> contains the address of \<open>d\<close> and its
  prefix is not longer, \<open>c\<close> contains every address that \<open>d\<close> contains.\<close>

theorem contains_nested:
  assumes "Parse s = Inr c" and "Parse t = Inr d"
    and "Contains c (c_addr d) = Some True" and "c_prefixLen c \<le> c_prefixLen d"
    and "Contains d ip = Some True"
  shows "Contains c ip = Some True"
  using assms in_block_mono [of c d ip]
  by (simp add: Contains_in_block Parse_wf word_le_nat_alt)

theorem contains_nested_witness:
  "Contains \<lparr>c_addr = V4 0x0A000000, c_prefixLen = 24\<rparr> (V4 0x0A000001) = Some True"
proof -
  let ?c = "\<lparr>c_addr = V4 0x0A000000, c_prefixLen = 24\<rparr>"
  have "Contains ?c (V4 0x0A000000) = Some True" "Contains ?c (V4 0x0A000001) = Some True"
    using Contains_in_block [OF Parse_wf [OF Parse_example]] by (simp_all add: in_block.simps)
  then show ?thesis
    using contains_nested [OF Parse_example Parse_example, of "V4 0x0A000001"] by simp
qed

end
