(* ===== verification/Sandbox.thy ===== *)
theory Sandbox
  imports Cidr
begin

text \<open>
  The sandbox controller (\<^verbatim>\<open>enforcer/internal/sandbox/sandbox.go\<close>): it tracks which sessions have
  an active sandbox and calls a backend to create and destroy them. The Go interface \<^verbatim>\<open>Backend\<close> is a
  record of operations on a backend state \<open>'b\<close>; an operation returns the error, \<open>None\<close> for nil, and the new
  state. What the controller relies on is the locale \<open>session_backend\<close>; the no-op backend is an
  instance here and the Linux backend is one in theory \<open>LinuxBackend\<close>.
\<close>

section \<open>Errors and the backend interface\<close>

datatype sandbox_error =
    AlreadyExistsError session_id
  | NotFoundError session_id
  | BackendError string

text \<open>The three \<^verbatim>\<open>Error()\<close> methods.\<close>

fun sandbox_Error :: "sandbox_error \<Rightarrow> string" where
  "sandbox_Error (AlreadyExistsError s) = ''session already exists: '' @ s"
| "sandbox_Error (NotFoundError s) = ''session not found: '' @ s"
| "sandbox_Error (BackendError msg) = ''backend error: '' @ msg"

record 'b Backend =
  be_Create :: "session_id \<Rightarrow> Cidr list \<Rightarrow> 'b \<Rightarrow> sandbox_error option \<times> 'b"
  be_Destroy :: "session_id \<Rightarrow> 'b \<Rightarrow> sandbox_error option \<times> 'b"
  be_LostDrops :: "session_id \<Rightarrow> 'b \<Rightarrow> u64"

definition NoopBackend :: "unit Backend" where
  "NoopBackend =
     \<lparr>be_Create = (\<lambda>_ _ b. (None, b)), be_Destroy = (\<lambda>_ b. (None, b)), be_LostDrops = (\<lambda>_ _. 0)\<rparr>"

section \<open>The controller\<close>

record 'b Controller =
  ct_backend :: 'b
  ct_active :: "session_id set"

definition NewController :: "'b \<Rightarrow> 'b Controller" where
  "NewController b = \<lparr>ct_backend = b, ct_active = {}\<rparr>"

definition CreateSandbox ::
  "'b Backend \<Rightarrow> 'b Controller \<Rightarrow> session_id \<Rightarrow> Cidr list \<Rightarrow> sandbox_error option \<times> 'b Controller" where
  "CreateSandbox ops c sessionID cidrs =
     (if sessionID \<in> ct_active c then (Some (AlreadyExistsError sessionID), c)
      else
        case be_Create ops sessionID cidrs (ct_backend c) of
          (Some err, b') \<Rightarrow> (Some err, c\<lparr>ct_backend := b'\<rparr>)
        | (None, b') \<Rightarrow> (None, c\<lparr>ct_backend := b', ct_active := insert sessionID (ct_active c)\<rparr>))"

definition DestroySandbox ::
  "'b Backend \<Rightarrow> 'b Controller \<Rightarrow> session_id \<Rightarrow> sandbox_error option \<times> 'b Controller" where
  "DestroySandbox ops c sessionID =
     (if sessionID \<notin> ct_active c then (Some (NotFoundError sessionID), c)
      else
        case be_Destroy ops sessionID (ct_backend c) of
          (Some err, b') \<Rightarrow> (Some err, c\<lparr>ct_backend := b'\<rparr>)
        | (None, b') \<Rightarrow> (None, c\<lparr>ct_backend := b', ct_active := ct_active c - {sessionID}\<rparr>))"

definition IsActive :: "'b Controller \<Rightarrow> session_id \<Rightarrow> bool" where
  "IsActive c sessionID \<longleftrightarrow> sessionID \<in> ct_active c"

definition ActiveCount :: "'b Controller \<Rightarrow> nat" where
  "ActiveCount c = card (ct_active c)"

definition LostDrops :: "'b Backend \<Rightarrow> 'b Controller \<Rightarrow> session_id \<Rightarrow> u64" where
  "LostDrops ops c sessionID = be_LostDrops ops sessionID (ct_backend c)"

lemmas controller_defs [step_defs] = CreateSandbox_def DestroySandbox_def NewController_def
  IsActive_def ActiveCount_def LostDrops_def

section \<open>The contract of a backend\<close>

text \<open>
  \<open>holds A b\<close> relates the set of active sessions to the backend's own state. A backend keeps the
  relation when the controller updates its set the way \<open>CreateSandbox\<close> and \<open>DestroySandbox\<close> do: on
  success the set changes, on failure it does not. Creation is promised only for a session that
  is not active, destruction only for one that is: the controller's guards.
\<close>

locale session_backend =
  fixes ops :: "'b Backend"
    and holds :: "session_id set \<Rightarrow> 'b \<Rightarrow> bool"
  assumes create_ok:
      "holds A b \<Longrightarrow> s \<notin> A \<Longrightarrow> be_Create ops s cs b = (None, b') \<Longrightarrow> holds (insert s A) b'"
    and create_failed:
      "holds A b \<Longrightarrow> s \<notin> A \<Longrightarrow> be_Create ops s cs b = (Some e, b') \<Longrightarrow> holds A b'"
    and destroy_ok:
      "holds A b \<Longrightarrow> s \<in> A \<Longrightarrow> be_Destroy ops s b = (None, b') \<Longrightarrow> holds (A - {s}) b'"
    and destroy_failed:
      "holds A b \<Longrightarrow> s \<in> A \<Longrightarrow> be_Destroy ops s b = (Some e, b') \<Longrightarrow> holds A b'"
    and backend_errors:
      "be_Create ops s cs b = (Some e, b') \<Longrightarrow> \<exists>m. e = BackendError m"
      "be_Destroy ops s b = (Some e, b') \<Longrightarrow> \<exists>m. e = BackendError m"
begin

definition synced :: "'b Controller \<Rightarrow> bool" where
  "synced c \<longleftrightarrow> holds (ct_active c) (ct_backend c)"

lemma synced_create:
  assumes "synced c"
  shows "synced (snd (CreateSandbox ops c s cs))"
proof (cases "s \<in> ct_active c")
  case False
  obtain err b' where r: "be_Create ops s cs (ct_backend c) = (err, b')"
    by fastforce
  show ?thesis
    using create_ok [OF assms [unfolded synced_def] False] create_failed [OF assms [unfolded synced_def] False] r False
    by (cases err) (simp_all add: synced_def CreateSandbox_def)
qed (use assms in \<open>simp add: CreateSandbox_def\<close>)

lemma synced_destroy:
  assumes "synced c"
  shows "synced (snd (DestroySandbox ops c s))"
proof (cases "s \<in> ct_active c")
  case True
  obtain err b' where r: "be_Destroy ops s (ct_backend c) = (err, b')"
    by fastforce
  show ?thesis
    using destroy_ok [OF assms [unfolded synced_def] True] destroy_failed [OF assms [unfolded synced_def] True] r True
    by (cases err) (simp_all add: synced_def DestroySandbox_def)
qed (use assms in \<open>simp add: DestroySandbox_def\<close>)

lemma create_error_cases:
  "fst (CreateSandbox ops c s cs) = Some e \<Longrightarrow>
     s \<in> ct_active c \<and> e = AlreadyExistsError s \<or> s \<notin> ct_active c \<and> (\<exists>m. e = BackendError m)"
  by (auto simp: CreateSandbox_def dest: backend_errors(1) split: if_splits prod.splits option.splits)

lemma destroy_error_cases:
  "fst (DestroySandbox ops c s) = Some e \<Longrightarrow>
     s \<notin> ct_active c \<and> e = NotFoundError s \<or> s \<in> ct_active c \<and> (\<exists>m. e = BackendError m)"
  by (auto simp: DestroySandbox_def dest: backend_errors(2) split: if_splits prod.splits option.splits)

end

interpretation noop: session_backend NoopBackend "\<lambda>_ _. True"
  by unfold_locales (auto simp: NoopBackend_def)

section \<open>The active set\<close>

lemma CreateSandbox_active:
  "ct_active (snd (CreateSandbox ops c s cs)) =
     (if fst (CreateSandbox ops c s cs) = None then insert s (ct_active c) else ct_active c)"
  by (auto simp: CreateSandbox_def split: prod.splits option.splits)

lemma DestroySandbox_active:
  "ct_active (snd (DestroySandbox ops c s)) =
     (if fst (DestroySandbox ops c s) = None then ct_active c - {s} else ct_active c)"
  by (auto simp: DestroySandbox_def split: prod.splits option.splits)

lemma CreateSandbox_None: "fst (CreateSandbox ops c s cs) = None \<Longrightarrow> s \<notin> ct_active c"
  by (auto simp: CreateSandbox_def split: if_splits)

lemma DestroySandbox_None: "fst (DestroySandbox ops c s) = None \<Longrightarrow> s \<in> ct_active c"
  by (auto simp: DestroySandbox_def split: if_splits)

section \<open>Properties\<close>

text \<open>Creating a sandbox makes exactly that session active and only if the backend succeeded; a
  session that is already active is refused before the backend is called; on any error the set of
  active sessions is unchanged.\<close>

theorem create_sandbox_tracks:
  "CreateSandbox ops c s cs = (err, c') \<Longrightarrow>
     (s \<in> ct_active c \<longrightarrow> err = Some (AlreadyExistsError s) \<and> c' = c) \<and>
     (s \<notin> ct_active c \<longrightarrow>
        be_Create ops s cs (ct_backend c) = (err, ct_backend c') \<and>
        ct_active c' = (if err = None then insert s (ct_active c) else ct_active c))"
  by (auto simp: CreateSandbox_def split: if_splits prod.splits option.splits)

theorem create_sandbox_tracks_witness:
  "ct_active (snd (CreateSandbox NoopBackend (NewController ()) ''s-1'' [])) = {''s-1''}"
  using create_sandbox_tracks [of NoopBackend "NewController ()" "''s-1''" "[]"
      "fst (CreateSandbox NoopBackend (NewController ()) ''s-1'' [])"
      "snd (CreateSandbox NoopBackend (NewController ()) ''s-1'' [])"]
  by (simp add: NewController_def NoopBackend_def)

text \<open>Destroying a sandbox that is not active is refused before the backend is called; a backend
  failure keeps the session active, so that the teardown can be tried again; success removes that
  session only.\<close>

theorem destroy_sandbox_tracks:
  "DestroySandbox ops c s = (err, c') \<Longrightarrow>
     (s \<notin> ct_active c \<longrightarrow> err = Some (NotFoundError s) \<and> c' = c) \<and>
     (s \<in> ct_active c \<longrightarrow>
        be_Destroy ops s (ct_backend c) = (err, ct_backend c') \<and>
        ct_active c' = (if err = None then ct_active c - {s} else ct_active c))"
  by (auto simp: DestroySandbox_def split: if_splits prod.splits option.splits)

theorem destroy_sandbox_tracks_witness:
  "ct_active (snd (DestroySandbox NoopBackend \<lparr>ct_backend = (), ct_active = {''s-1'', ''s-2''}\<rparr> ''s-1'')) =
     {''s-2''}"
  using destroy_sandbox_tracks [of NoopBackend "\<lparr>ct_backend = (), ct_active = {''s-1'', ''s-2''}\<rparr>" "''s-1''"
      "fst (DestroySandbox NoopBackend \<lparr>ct_backend = (), ct_active = {''s-1'', ''s-2''}\<rparr> ''s-1'')"
      "snd (DestroySandbox NoopBackend \<lparr>ct_backend = (), ct_active = {''s-1'', ''s-2''}\<rparr> ''s-1'')"]
  by (simp add: NoopBackend_def)

end
