(* ===== verification/Packet.thy ===== *)
theory Packet
  imports Netip
begin

text \<open>
  The packet facts of a dropped packet (\<^verbatim>\<open>enforcer/internal/sandbox/drop.go\<close>): \<open>parseDropPayload\<close>
  reads the addresses, the destination port and the protocol from the raw bytes that NFLOG delivers.
  A slice or an index out of range is a panic in Go; here the outer \<open>None\<close> is the panic, and the
  inner option is the code's \<open>ok\<close> result. The theory shows that no payload makes the parser panic,
  which payloads it rejects, and that it recovers the fields of every well-formed IPv4 header (with
  options) and IPv6 header.
\<close>

section \<open>Slices\<close>

text \<open>\<^verbatim>\<open>p[i:j]\<close>, and \<^verbatim>\<open>p[i]\<close>.\<close>

definition go_slice :: "'a list \<Rightarrow> nat \<Rightarrow> nat \<Rightarrow> 'a list option" where
  "go_slice p i j = (if i \<le> j \<and> j \<le> length p then Some (take (j - i) (drop i p)) else None)"

definition go_index :: "'a list \<Rightarrow> nat \<Rightarrow> 'a option" where
  "go_index p i = (if i < length p then Some (p ! i) else None)"

section \<open>Drops\<close>

record Drop =
  d_SessionID :: session_id
  d_SrcIP :: addr
  d_DstIP :: addr
  d_DstPort :: u16
  d_Proto :: string
  d_At :: int

record drop_facts =
  df_src :: addr
  df_dst :: addr
  df_port :: u16
  df_proto :: string

text \<open>\<^verbatim>\<open>binary.BigEndian.Uint16\<close>.\<close>

definition be_uint16 :: "byte list \<Rightarrow> u16" where
  "be_uint16 bs = be_join bs"

definition l4Facts :: "byte \<Rightarrow> byte list \<Rightarrow> (u16 \<times> string) option" where
  "l4Facts protoNum l4 =
     (if protoNum = 6 \<or> protoNum = 17 then
        let name = (if protoNum = 17 then ''udp'' else ''tcp'') in
        if 4 \<le> length l4
        then map_option (\<lambda>bs. (be_uint16 bs, name)) (go_slice l4 2 4)
        else Some (0, name)
      else if protoNum = 1 then Some (0, ''icmp'')
      else if protoNum = 58 then Some (0, ''icmpv6'')
      else Some (0, format_dec (unat protoNum)))"

definition parse_v4_payload :: "byte list \<Rightarrow> drop_facts option option" where
  "parse_v4_payload p =
     (let ihl = unat (and (p ! 0) 0x0f) * 4 in
      if ihl < 20 \<or> length p < ihl then Some None
      else
        Option.bind (go_slice p 12 16) (\<lambda>src.
        Option.bind (go_slice p 16 20) (\<lambda>dst.
        Option.bind (go_index p 9) (\<lambda>protoNum.
        Option.bind (go_slice p ihl (length p)) (\<lambda>l4.
        Option.bind (l4Facts protoNum l4) (\<lambda>(port, proto).
          Some (Some \<lparr>df_src = AddrFrom4 src, df_dst = AddrFrom4 dst, df_port = port, df_proto = proto\<rparr>)))))))"

definition parse_v6_payload :: "byte list \<Rightarrow> drop_facts option option" where
  "parse_v6_payload p =
     (if length p < 40 then Some None
      else
        Option.bind (go_slice p 8 24) (\<lambda>src.
        Option.bind (go_slice p 24 40) (\<lambda>dst.
        Option.bind (go_index p 6) (\<lambda>protoNum.
        Option.bind (go_slice p 40 (length p)) (\<lambda>l4.
        Option.bind (l4Facts protoNum l4) (\<lambda>(port, proto).
          Some (Some \<lparr>df_src = AddrFrom16 src, df_dst = AddrFrom16 dst, df_port = port, df_proto = proto\<rparr>)))))))"

definition parseDropPayload :: "byte list \<Rightarrow> drop_facts option option" where
  "parseDropPayload p =
     (if length p < 1 then Some None
      else
        let version = drop_bit 4 (p ! 0) in
        if version = 4 then parse_v4_payload p
        else if version = 6 then parse_v6_payload p
        else Some None)"

section \<open>The facts of the transport header\<close>

text \<open>The protocol names, apart from the port.\<close>

definition proto_name :: "byte \<Rightarrow> string" where
  "proto_name n =
     (if n = 6 then ''tcp'' else if n = 17 then ''udp'' else if n = 1 then ''icmp''
      else if n = 58 then ''icmpv6'' else format_dec (unat n))"

lemma l4Facts_eq:
  "l4Facts n l4 =
     Some (if (n = 6 \<or> n = 17) \<and> 4 \<le> length l4 then be_uint16 [l4 ! 2, l4 ! 3] else 0, proto_name n)"
proof -
  have "take 2 (drop 2 l4) = [l4 ! 2, l4 ! 3]" if "4 \<le> length l4"
    using that by (simp add: list_eq_iff_nth_eq less_Suc_eq numeral_eq_Suc)
  then show ?thesis by (auto simp: l4Facts_def proto_name_def go_slice_def)
qed

lemma proto_name_dec:
  assumes "n \<notin> {6, 17, 1, 58}"
  shows "proto_name n = format_dec (unat n)" and "proto_name n \<notin> {''tcp'', ''udp'', ''icmp'', ''icmpv6''}"
proof -
  show eq: "proto_name n = format_dec (unat n)" using assms by (simp add: proto_name_def)
  have "\<forall>c\<in>set (proto_name n). dec_val c \<noteq> None"
    unfolding eq using format_dec_digits by fastforce
  then show "proto_name n \<notin> {''tcp'', ''udp'', ''icmp'', ''icmpv6''}"
    by (auto simp: dec_val_def)
qed

lemma proto_name_inj: "proto_name m = proto_name n \<longleftrightarrow> m = n"
proof
  assume eq: "proto_name m = proto_name n"
  show "m = n"
  proof (cases "m \<in> {6, 17, 1, 58} \<or> n \<in> {6, 17, 1, 58}")
    case True
    then show ?thesis using eq proto_name_dec [of m] proto_name_dec [of n]
      by (cases "m \<in> {6, 17, 1, 58}"; cases "n \<in> {6, 17, 1, 58}")
        (auto simp: proto_name_def split: if_splits)
  next
    case False
    then have "unat m = unat n" using eq by (simp add: proto_name_dec)
    then show ?thesis by (simp only: word_unat_eq_iff)
  qed
qed simp

section \<open>The parser\<close>

lemma parse_v4_payload_ok:
  assumes "20 \<le> unat (and (p ! 0) 0x0f) * 4" and "unat (and (p ! 0) 0x0f) * 4 \<le> length p"
  shows "parse_v4_payload p =
    (case l4Facts (p ! 9) (drop (unat (and (p ! 0) 0x0f) * 4) p) of
       Some (port, proto) \<Rightarrow>
         Some (Some \<lparr>df_src = AddrFrom4 (take 4 (drop 12 p)), df_dst = AddrFrom4 (take 4 (drop 16 p)),
           df_port = port, df_proto = proto\<rparr>)
     | None \<Rightarrow> None)"
  using assms by (simp add: parse_v4_payload_def go_slice_def go_index_def Let_def split: option.splits)

lemma parse_v6_payload_ok:
  assumes "40 \<le> length p"
  shows "parse_v6_payload p =
    (case l4Facts (p ! 6) (drop 40 p) of
       Some (port, proto) \<Rightarrow>
         Some (Some \<lparr>df_src = AddrFrom16 (take 16 (drop 8 p)), df_dst = AddrFrom16 (take 16 (drop 24 p)),
           df_port = port, df_proto = proto\<rparr>)
     | None \<Rightarrow> None)"
  using assms by (simp add: parse_v6_payload_def go_slice_def go_index_def Let_def split: option.splits)

lemma parse_v4_payload_cases:
  "parse_v4_payload p = Some None \<and> (unat (and (p ! 0) 0x0f) * 4 < 20 \<or> length p < unat (and (p ! 0) 0x0f) * 4) \<or>
   (\<exists>f. parse_v4_payload p = Some (Some f)) \<and> 20 \<le> unat (and (p ! 0) 0x0f) * 4 \<and>
     unat (and (p ! 0) 0x0f) * 4 \<le> length p"
proof (cases "unat (and (p ! 0) 0x0f) * 4 < 20 \<or> length p < unat (and (p ! 0) 0x0f) * 4")
  case True
  then show ?thesis by (simp add: parse_v4_payload_def)
next
  case False
  then show ?thesis
    using parse_v4_payload_ok [of p] by (simp add: l4Facts_eq not_less)
qed

lemma parse_v6_payload_cases:
  "parse_v6_payload p = Some None \<and> length p < 40 \<or>
   (\<exists>f. parse_v6_payload p = Some (Some f)) \<and> 40 \<le> length p"
  using parse_v6_payload_ok [of p]
  by (cases "length p < 40") (simp_all add: parse_v6_payload_def l4Facts_eq)

lemma length_As [simp]: "length (As4 w) = 4" "length (As16 v) = 16"
  by (simp_all add: As4_def As16_def)

lemma parse_never_panics: "\<exists>r. parseDropPayload p = Some r"
  using parse_v4_payload_cases [of p] parse_v6_payload_cases [of p]
  by (auto simp: parseDropPayload_def Let_def)

section \<open>Properties\<close>

text \<open>C30: No payload makes the parser panic, whatever its bytes and its length; it reports a packet
  exactly for an IPv4 packet whose header length field is at least five words and fits the payload, and
  for an IPv6 packet of at least forty bytes.\<close>

theorem parseDropPayload_total:
  "\<exists>r. parseDropPayload p = Some r \<and>
     (r \<noteq> None \<longleftrightarrow>
        p \<noteq> [] \<and>
        (drop_bit 4 (p ! 0) = 4 \<and> 20 \<le> unat (and (p ! 0) 0x0f) * 4 \<and> unat (and (p ! 0) 0x0f) * 4 \<le> length p \<or>
         drop_bit 4 (p ! 0) = 6 \<and> 40 \<le> length p))"
  using parse_v4_payload_cases [of p] parse_v6_payload_cases [of p]
  by (cases "p = []"; cases "drop_bit 4 (p ! 0) = 4"; cases "drop_bit 4 (p ! 0) = 6")
    (auto simp: parseDropPayload_def Suc_le_eq)

text \<open>C31: For an IPv4 header with any options, followed by any transport bytes, the parser returns the
  header's addresses, the name of its protocol, and for TCP and UDP the destination port (0 if the
  transport header is cut off before it).\<close>

theorem parse_ipv4_header:
  assumes "drop_bit 4 b0 = 4" and "unat (and b0 0x0f) = n" and "5 \<le> n"
    and "length mid = 8" and "length cksum = 2" and "length opts = 4 * n - 20"
  shows "parseDropPayload ([b0] @ mid @ [proto] @ cksum @ As4 src @ As4 dst @ opts @ l4) =
    Some (Some \<lparr>df_src = V4 src, df_dst = V4 dst,
      df_port = (if proto \<in> {6, 17} \<and> 4 \<le> length l4 then be_uint16 [l4 ! 2, l4 ! 3] else 0),
      df_proto = proto_name proto\<rparr>)"
proof -
  let ?p = "[b0] @ mid @ [proto] @ cksum @ As4 src @ As4 dst @ opts @ l4"
  have "?p ! 9 = proto" using assms(4) by (simp add: nth_append nth_Cons')
  moreover have "take 4 (drop 12 ?p) = As4 src" "take 4 (drop 16 ?p) = As4 dst"
    using assms(4,5) by (simp_all add: drop_Cons')
  moreover have "drop (n * 4) ?p = l4" using assms(3-6) by (simp add: drop_Cons')
  ultimately show ?thesis
    using assms parse_v4_payload_ok [of ?p]
    by (simp add: parseDropPayload_def l4Facts_eq AddrFrom4_def)
qed

theorem parse_ipv4_header_witness:
  "parseDropPayload ([0x45] @ replicate 8 0 @ [6] @ [0, 0] @ As4 0x0A000002 @ As4 0xCB007107 @ [] @
     [0x9c, 0x40, 0x01, 0xbb]) =
   Some (Some \<lparr>df_src = V4 0x0A000002, df_dst = V4 0xCB007107, df_port = 443, df_proto = ''tcp''\<rparr>)"
proof -
  have "drop_bit 4 (0x45 :: byte) = 4" "unat (and (0x45 :: byte) 0x0f) = 5" by simp_all
  moreover have "be_uint16 [0x01, 0xbb] = 443" by (simp add: be_uint16_def be_join_def)
  ultimately show ?thesis
    using parse_ipv4_header [of "0x45" 5 "replicate 8 0" "[0, 0]" "[]" 6 "0x0A000002" "0xCB007107"
        "[0x9c, 0x40, 0x01, 0xbb]"]
    by (simp add: proto_name_def)
qed

text \<open>The same for an IPv6 header.\<close>

theorem parse_ipv6_header:
  assumes "drop_bit 4 b0 = 6" and "length mid = 5"
  shows "parseDropPayload ([b0] @ mid @ [nextHeader, hopLimit] @ As16 src @ As16 dst @ l4) =
    Some (Some \<lparr>df_src = V6 src, df_dst = V6 dst,
      df_port = (if nextHeader \<in> {6, 17} \<and> 4 \<le> length l4 then be_uint16 [l4 ! 2, l4 ! 3] else 0),
      df_proto = proto_name nextHeader\<rparr>)"
proof -
  let ?p = "[b0] @ mid @ [nextHeader, hopLimit] @ As16 src @ As16 dst @ l4"
  have "?p ! 6 = nextHeader" using assms(2) by (simp add: nth_append nth_Cons')
  moreover have "take 16 (drop 8 ?p) = As16 src" "take 16 (drop 24 ?p) = As16 dst" "drop 40 ?p = l4"
    using assms(2) by (simp_all add: drop_Cons')
  ultimately show ?thesis
    using assms parse_v6_payload_ok [of ?p]
    by (simp add: parseDropPayload_def l4Facts_eq AddrFrom16_def)
qed

theorem parse_ipv6_header_witness:
  "parseDropPayload ([0x60] @ replicate 5 0 @ [58, 64] @ As16 1 @ As16 2 @ []) =
   Some (Some \<lparr>df_src = V6 1, df_dst = V6 2, df_port = 0, df_proto = ''icmpv6''\<rparr>)"
proof -
  have "drop_bit 4 (0x60 :: byte) = 6" by simp
  then show ?thesis
    using parse_ipv6_header [of "0x60" "replicate 5 0" 58 64 1 2 "[]"]
    by (simp add: proto_name_def)
qed

text \<open>The protocol text of a drop names one protocol number only.\<close>

theorem protocol_name_unambiguous:
  assumes "l4Facts m l4 = Some (port, name)" and "l4Facts n l4' = Some (port', name)"
  shows "m = n"
  using assms proto_name_inj [of m n] by (auto simp: l4Facts_eq)

theorem protocol_name_unambiguous_witness:
  "l4Facts 17 [] = Some (0, ''udp'') \<and> (\<forall>n. l4Facts n [] = Some (0, ''udp'') \<longrightarrow> n = 17)"
proof -
  have udp: "l4Facts 17 [] = Some (0, ''udp'')" by (simp add: l4Facts_eq proto_name_def)
  then show ?thesis using protocol_name_unambiguous [OF _ udp] by blast
qed

end
