(* ===== verification/Encode.thy ===== *)
theory Encode
  imports GoText
begin

text \<open>
  The encoders of Go's \<^verbatim>\<open>encoding/base64\<close> and \<^verbatim>\<open>encoding/hex\<close> that the enforcer uses: the
  unpadded URL alphabet for keys and signatures, the padded standard alphabet for the log, hexadecimal
  for hashes. \<open>RawURL_DecodeString\<close> follows the decoder: line breaks are skipped, every other character has
  to be of the alphabet, a last group of one character is an error, and unused low bits of
  the last group are ignored. The theory shows the round trip and which strings decode to how many bytes.
\<close>

section \<open>Bytes and text\<close>

definition bytes_of :: "string \<Rightarrow> byte list" where
  "bytes_of s = map (\<lambda>c. of_nat (of_char c)) s"

definition text_of :: "byte list \<Rightarrow> string" where
  "text_of bs = map (\<lambda>b. char_of (unat b)) bs"

lemma char_byte [simp]: "char_of (unat (of_nat (of_char c) :: byte)) = c"
  by (metis char_of_char nat_of_char_less_256 unat_of_nat_byte)

lemma byte_char [simp]: "(of_nat (of_char (char_of (unat b))) :: byte) = b"
  using unat_byte_less [of b] by simp

lemma text_bytes [simp]: "text_of (bytes_of s) = s"
  by (induction s) (simp_all add: text_of_def bytes_of_def)

lemma bytes_text [simp]: "bytes_of (text_of bs) = bs"
  by (induction bs) (simp_all add: text_of_def bytes_of_def)

lemma length_bytes_of [simp]: "length (bytes_of s) = length s"
  by (simp add: bytes_of_def)

lemma bytes_of_eq_iff [simp]: "bytes_of s = bytes_of t \<longleftrightarrow> s = t"
  by (metis text_bytes)

section \<open>Base64\<close>

definition b64_common :: "nat \<Rightarrow> char" where
  "b64_common n = (if n < 26 then char_of (65 + n) else if n < 52 then char_of (71 + n) else char_of (n - 4))"

definition url_char :: "nat \<Rightarrow> char" where
  "url_char n = (if n = 62 then CHR ''-'' else if n = 63 then CHR ''_'' else b64_common n)"

definition std_char :: "nat \<Rightarrow> char" where
  "std_char n = (if n = 62 then CHR ''+'' else if n = 63 then CHR ''/'' else b64_common n)"

definition url_val :: "char \<Rightarrow> nat option" where
  "url_val c =
     (let n = of_char c in
      if 65 \<le> n \<and> n \<le> 90 then Some (n - 65)
      else if 97 \<le> n \<and> n \<le> 122 then Some (n - 71)
      else if 48 \<le> n \<and> n \<le> 57 then Some (n + 4)
      else if n = 45 then Some 62
      else if n = 95 then Some 63
      else None)"

text \<open>\<^verbatim>\<open>Encode\<close>: three bytes are four characters; the rest is two or three characters and the padding.\<close>

fun b64_encode :: "(nat \<Rightarrow> char) \<Rightarrow> bool \<Rightarrow> byte list \<Rightarrow> string" where
  "b64_encode enc pad [] = []"
| "b64_encode enc pad [a] =
     map enc [unat a div 4, unat a mod 4 * 16] @ (if pad then ''=='' else [])"
| "b64_encode enc pad [a, b] =
     map enc [unat a div 4, unat a mod 4 * 16 + unat b div 16, unat b mod 16 * 4] @ (if pad then ''='' else [])"
| "b64_encode enc pad (a # b # c # bs) =
     map enc [unat a div 4, unat a mod 4 * 16 + unat b div 16, unat b mod 16 * 4 + unat c div 64, unat c mod 64] @
     b64_encode enc pad bs"

definition RawURL_EncodeToString :: "byte list \<Rightarrow> string" where
  "RawURL_EncodeToString = b64_encode url_char False"

definition Std_EncodeToString :: "byte list \<Rightarrow> string" where
  "Std_EncodeToString = b64_encode std_char True"

text \<open>\<^verbatim>\<open>CorruptInputError\<close> with its byte offset.\<close>

datatype b64_error = CorruptInput nat

definition b64_Error :: "b64_error \<Rightarrow> string" where
  "b64_Error e = (case e of CorruptInput n \<Rightarrow> ''illegal base64 data at input byte '' @ format_dec n)"

definition is_line_break :: "char \<Rightarrow> bool" where
  "is_line_break c \<longleftrightarrow> c = CHR 0x0A \<or> c = CHR 0x0D"

fun b64_sextets :: "nat \<Rightarrow> string \<Rightarrow> b64_error + nat list" where
  "b64_sextets i [] = Inr []"
| "b64_sextets i (c # cs) =
     (if is_line_break c then b64_sextets (Suc i) cs
      else case url_val c of
        None \<Rightarrow> Inl (CorruptInput i)
      | Some v \<Rightarrow> rbind (b64_sextets (Suc i) cs) (\<lambda>vs. Inr (v # vs)))"

fun b64_bytes :: "nat list \<Rightarrow> byte list option" where
  "b64_bytes [] = Some []"
| "b64_bytes [v] = None"
| "b64_bytes [v, w] = Some [of_nat (v * 4 + w div 16)]"
| "b64_bytes [v, w, x] = Some [of_nat (v * 4 + w div 16), of_nat (w mod 16 * 16 + x div 4)]"
| "b64_bytes (v # w # x # y # vs) =
     map_option (\<lambda>bs. of_nat (v * 4 + w div 16) # of_nat (w mod 16 * 16 + x div 4) # of_nat (x mod 4 * 64 + y) # bs)
       (b64_bytes vs)"

definition RawURL_DecodeString :: "string \<Rightarrow> b64_error + byte list" where
  "RawURL_DecodeString s =
     rbind (b64_sextets 0 s) (\<lambda>vs.
       case b64_bytes vs of Some bs \<Rightarrow> Inr bs | None \<Rightarrow> Inl (CorruptInput (length s - 1)))"

section \<open>Hexadecimal\<close>

definition hex_EncodeToString :: "byte list \<Rightarrow> string" where
  "hex_EncodeToString bs = concat (map (\<lambda>b. [digit_char (unat b div 16), digit_char (unat b mod 16)]) bs)"

lemma byte_div_less [simp]: "unat (b :: byte) div 16 < 16" "unat b div 4 < 64" "unat b div 64 < 4"
  using unat_byte_less [of b] by (simp_all add: less_mult_imp_div_less)

lemma hex_inj: "hex_EncodeToString bs = hex_EncodeToString cs \<Longrightarrow> bs = cs"
proof (induction bs arbitrary: cs)
  case Nil
  then show ?case by (cases cs) (simp_all add: hex_EncodeToString_def)
next
  case (Cons b bs)
  then obtain c cs' where cs: "cs = c # cs'" by (cases cs) (simp_all add: hex_EncodeToString_def)
  have eq: "digit_char (unat b div 16) = digit_char (unat c div 16)"
    "digit_char (unat b mod 16) = digit_char (unat c mod 16)" "hex_EncodeToString bs = hex_EncodeToString cs'"
    using Cons.prems by (simp_all add: cs hex_EncodeToString_def)
  have inj: "m = n" if "digit_char m = digit_char n" "m < 16" "n < 16" for m n
    using hex_val_digit_char that by (metis option.inject)
  have "unat b div 16 = unat c div 16" "unat b mod 16 = unat c mod 16"
    using eq unat_byte_less [of b] unat_byte_less [of c] by (auto intro!: inj)
  then have "unat b = unat c" by (metis div_mult_mod_eq)
  with Cons.IH [OF eq(3)] cs show ?case by (simp add: word_unat_eq_iff)
qed

section \<open>Round trip\<close>

lemma url_val_less: "url_val c = Some v \<Longrightarrow> v < 64"
  by (auto simp: url_val_def Let_def split: if_splits)

lemma url_val_url_char [simp]: "n < 64 \<Longrightarrow> url_val (url_char n) = Some n"
  by (auto simp: url_val_def url_char_def b64_common_def Let_def)

lemma url_val_not_break: "url_val c = Some v \<Longrightarrow> \<not> is_line_break c"
  by (auto simp: url_val_def is_line_break_def Let_def)

lemma url_char_not_break [simp]: "n < 64 \<Longrightarrow> \<not> is_line_break (url_char n)"
  using url_val_not_break url_val_url_char by blast

lemma b64_sextets_url_char [simp]:
  "n < 64 \<Longrightarrow> b64_sextets i (url_char n # cs) = rbind (b64_sextets (Suc i) cs) (\<lambda>vs. Inr (n # vs))"
  by simp

lemma split6_all:
  assumes "a < 256" "b < 256" "c < 256"
  shows "a div 4 * 4 + (a mod 4 * 16 + b div 16) div 16 = a"
    "(a mod 4 * 16 + b div 16) mod 16 * 16 + (b mod 16 * 4 + c div 64) div 4 = b"
    "(b mod 16 * 4 + c div 64) mod 4 * 64 + c mod 64 = (c :: nat)"
proof -
  have "b div 16 < 16" "c div 64 < 4" using assms by auto
  then have "(a mod 4 * 16 + b div 16) div 16 = a mod 4" "(a mod 4 * 16 + b div 16) mod 16 = b div 16"
    "(b mod 16 * 4 + c div 64) div 4 = b mod 16" "(b mod 16 * 4 + c div 64) mod 4 = c div 64"
    by simp_all
  then show "a div 4 * 4 + (a mod 4 * 16 + b div 16) div 16 = a"
    "(a mod 4 * 16 + b div 16) mod 16 * 16 + (b mod 16 * 4 + c div 64) div 4 = b"
    "(b mod 16 * 4 + c div 64) mod 4 * 64 + c mod 64 = c"
    by simp_all
qed

lemma sextets_less [simp]:
  "unat (a :: byte) mod 4 * 16 < 64" "unat (b :: byte) mod 16 * 4 < 64"
  "unat a mod 4 * 16 + unat b div 16 < 64" "unat b mod 16 * 4 + unat (c :: byte) div 64 < 64"
proof -
  have "unat a mod 4 \<le> 3" "unat b mod 16 \<le> 15" "unat b div 16 \<le> 15" "unat c div 64 \<le> 3"
    using byte_div_less(1) [of b] byte_div_less(3) [of c] by (simp_all flip: less_Suc_eq_le)
  then show "unat a mod 4 * 16 < 64" "unat b mod 16 * 4 < 64"
    "unat a mod 4 * 16 + unat b div 16 < 64" "unat b mod 16 * 4 + unat c div 64 < 64"
    by simp_all
qed

lemma RawURL_roundtrip_sextets:
  "\<exists>vs. b64_sextets i (RawURL_EncodeToString bs) = Inr vs \<and> b64_bytes vs = Some bs"
proof (induction url_char False bs arbitrary: i rule: b64_encode.induct)
  case (2 a)
  have "a = of_nat (unat a div 4 * 4 + (unat a mod 4 * 16 + 0 div 16) div 16)"
    using split6_all(1) [of "unat a" 0 0] by simp
  then show ?case by (simp add: RawURL_EncodeToString_def)
next
  case (3 a b)
  have "a = of_nat (unat a div 4 * 4 + (unat a mod 4 * 16 + unat b div 16) div 16)"
    "b = of_nat ((unat a mod 4 * 16 + unat b div 16) mod 16 * 16 + (unat b mod 16 * 4 + 0 div 64) div 4)"
    using split6_all [of "unat a" "unat b" 0] by simp_all
  then show ?case by (simp add: RawURL_EncodeToString_def del: of_nat_add of_nat_mult)
next
  case (4 a b c bs)
  have "a = of_nat (unat a div 4 * 4 + (unat a mod 4 * 16 + unat b div 16) div 16)"
    "b = of_nat ((unat a mod 4 * 16 + unat b div 16) mod 16 * 16 + (unat b mod 16 * 4 + unat c div 64) div 4)"
    "c = of_nat ((unat b mod 16 * 4 + unat c div 64) mod 4 * 64 + unat c mod 64)"
    using split6_all [of "unat a" "unat b" "unat c"] by simp_all
  then show ?case
    using 4 [of "Suc (Suc (Suc (Suc i)))"]
    by (auto simp add: RawURL_EncodeToString_def simp del: of_nat_add of_nat_mult)
qed (simp add: RawURL_EncodeToString_def)

lemma RawURL_roundtrip [go_text]: "RawURL_DecodeString (RawURL_EncodeToString bs) = Inr bs"
  using RawURL_roundtrip_sextets [of 0 bs] by (auto simp: RawURL_DecodeString_def)

interpretation raw_url: printed_form RawURL_EncodeToString RawURL_DecodeString "\<lambda>_. True"
  by unfold_locales (simp_all add: RawURL_roundtrip)

lemma RawURL_encode_inj: "RawURL_EncodeToString bs = RawURL_EncodeToString cs \<longleftrightarrow> bs = cs"
  using raw_url.print_inj by simp

lemma b64_bytes_length: "b64_bytes vs = Some bs \<Longrightarrow> length vs mod 4 \<noteq> 1 \<and> length bs = length vs * 3 div 4"
  by (induction vs arbitrary: bs rule: b64_bytes.induct) auto

lemma b64_bytes_defined: "b64_bytes vs = None \<longleftrightarrow> length vs mod 4 = 1"
  by (induction vs rule: b64_bytes.induct) auto

lemma b64_sextets_ok:
  "(\<exists>vs. b64_sextets i s = Inr vs) \<longleftrightarrow> (\<forall>c\<in>set s. is_line_break c \<or> url_val c \<noteq> None)"
  by (induction s arbitrary: i) (auto simp: rbind_Inr_iff split: option.splits)

lemma b64_sextets_length:
  "b64_sextets i s = Inr vs \<Longrightarrow> length vs = length (filter (\<lambda>c. \<not> is_line_break c) s)"
  by (induction s arbitrary: i vs) (auto simp: rbind_Inr_iff split: option.splits if_splits)

text \<open>Which strings decode to \<open>n\<close> bytes, for a multiple of three plus two, as a key of 32 bytes is.\<close>

lemma RawURL_DecodeString_ok:
  "RawURL_DecodeString s = Inr bs \<Longrightarrow>
     (\<forall>c\<in>set s. is_line_break c \<or> url_val c \<noteq> None) \<and>
     length bs = length (filter (\<lambda>c. \<not> is_line_break c) s) * 3 div 4"
  using b64_sextets_ok [of 0 s] b64_bytes_length b64_sextets_length
  by (fastforce simp: RawURL_DecodeString_def rbind_Inr_iff split: option.splits)

lemma RawURL_DecodeString_total:
  assumes "\<forall>c\<in>set s. is_line_break c \<or> url_val c \<noteq> None"
    and "length (filter (\<lambda>c. \<not> is_line_break c) s) mod 4 \<noteq> 1"
  shows "\<exists>bs. RawURL_DecodeString s = Inr bs"
proof -
  obtain vs where vs: "b64_sextets 0 s = Inr vs"
    using b64_sextets_ok assms(1) by blast
  then have "b64_bytes vs \<noteq> None"
    using b64_sextets_length [OF vs] assms(2) by (simp add: b64_bytes_defined)
  with vs show ?thesis by (auto simp: RawURL_DecodeString_def)
qed

section \<open>The standard alphabet\<close>

fun sextets_of :: "byte list \<Rightarrow> nat list" where
  "sextets_of [] = []"
| "sextets_of [a] = [unat a div 4, unat a mod 4 * 16]"
| "sextets_of [a, b] = [unat a div 4, unat a mod 4 * 16 + unat b div 16, unat b mod 16 * 4]"
| "sextets_of (a # b # c # bs) =
     [unat a div 4, unat a mod 4 * 16 + unat b div 16, unat b mod 16 * 4 + unat c div 64, unat c mod 64] @
     sextets_of bs"

lemma sextets_of_less: "v \<in> set (sextets_of bs) \<Longrightarrow> v < 64"
  by (induction bs rule: sextets_of.induct) auto

lemma b64_encode_sextets:
  "\<exists>p. b64_encode enc padded bs = map enc (sextets_of bs) @ p \<and> set p \<subseteq> {CHR ''=''} \<and> (\<not> padded \<longrightarrow> p = [])"
  by (induction enc padded bs rule: b64_encode.induct) auto

lemma std_char_not_pad: "n < 64 \<Longrightarrow> std_char n \<noteq> CHR ''=''"
  by (auto simp: std_char_def b64_common_def dest: arg_cong [of _ _ "of_char :: char \<Rightarrow> nat"])

lemma std_char_inj: "inj_on std_char {..<64}"
proof (rule inj_onI)
  fix m n
  assume "m \<in> {..<64}" "n \<in> {..<64}" "std_char m = std_char n"
  then show "m = n"
    by (auto simp: std_char_def b64_common_def split: if_splits dest: arg_cong [of _ _ "of_char :: char \<Rightarrow> nat"])
qed

lemma Std_encode_inj: "Std_EncodeToString bs = Std_EncodeToString cs \<longleftrightarrow> bs = cs"
proof
  assume eq: "Std_EncodeToString bs = Std_EncodeToString cs"
  have strip: "takeWhile (\<lambda>c. c \<noteq> CHR ''='') (Std_EncodeToString ds) = map std_char (sextets_of ds)" for ds
  proof -
    obtain p where p: "Std_EncodeToString ds = map std_char (sextets_of ds) @ p" "set p \<subseteq> {CHR ''=''}"
      using b64_encode_sextets [of std_char True ds] by (auto simp: Std_EncodeToString_def)
    have "takeWhile (\<lambda>c. c \<noteq> CHR ''='') p = []" using p(2) by (cases p) auto
    moreover have "c \<noteq> CHR ''=''" if "c \<in> set (map std_char (sextets_of ds))" for c
      using that std_char_not_pad sextets_of_less by auto
    ultimately show ?thesis
      unfolding p(1) by (subst takeWhile_append2) simp_all
  qed
  from eq have "map std_char (sextets_of bs) = map std_char (sextets_of cs)"
    by (metis strip)
  moreover have "set (sextets_of bs) \<union> set (sextets_of cs) \<subseteq> {..<64}"
    using sextets_of_less by auto
  ultimately have "sextets_of bs = sextets_of cs"
    using inj_on_map_eq_map [OF inj_on_subset [OF std_char_inj]] by blast
  then have "RawURL_EncodeToString bs = RawURL_EncodeToString cs"
    using b64_encode_sextets [of url_char False] by (metis RawURL_EncodeToString_def append_Nil2)
  then show "bs = cs" by (simp add: RawURL_encode_inj)
qed simp

lemma b64_text_ascii: "c \<in> set (Std_EncodeToString bs) \<Longrightarrow> (of_char c :: nat) < 0x80"
proof -
  assume c: "c \<in> set (Std_EncodeToString bs)"
  have "(of_char (std_char n) :: nat) < 0x80" if "n < 64" for n
    using that by (auto simp: std_char_def b64_common_def)
  with c b64_encode_sextets [of std_char True bs] sextets_of_less show ?thesis
    by (fastforce simp: Std_EncodeToString_def)
qed

lemma Std_no_newline: "CHR 0x0A \<notin> set (Std_EncodeToString bs)"
proof
  assume c: "CHR 0x0A \<in> set (Std_EncodeToString bs)"
  have "std_char n \<noteq> CHR 0x0A" if "n < 64" for n
    using that by (auto simp: std_char_def b64_common_def dest: arg_cong [of _ _ "of_char :: char \<Rightarrow> nat"])
  with c b64_encode_sextets [of std_char True bs] sextets_of_less show False
    by (fastforce simp: Std_EncodeToString_def)
qed

end
