(* ===== verification/Json.thy ===== *)
theory Json
  imports GoText "HOL-Library.List_Lexorder" "HOL-Library.Char_ord"
begin

text \<open>
  What the enforcer uses of Go's \<^verbatim>\<open>encoding/json\<close>. \<open>json_encode\<close> prints a value the way \<^verbatim>\<open>Marshal\<close>
  does (HTML characters and line separators escaped, invalid UTF-8 replaced), \<open>json_parse\<close> reads the
  first value of a text: a lexer, and a parser that keeps a stack of open containers, as the
  scanner of the package does, with its nesting limit of 10000. Strings are byte strings; \<open>utf8_size\<close> is
  the length of the valid UTF-8 sequence at the start of a string, 0 if there is none. The main
  fact is the round trip: a printed value of valid strings is read back as it was, whatever follows it,
  and it contains no line break.
\<close>

section \<open>UTF-8\<close>

definition utf8_cont :: "char \<Rightarrow> bool" where
  "utf8_cont c \<longleftrightarrow> 0x80 \<le> (of_char c :: nat) \<and> (of_char c :: nat) \<le> 0xBF"

text \<open>The second byte, for a given first byte.\<close>

definition utf8_second :: "nat \<Rightarrow> char \<Rightarrow> bool" where
  "utf8_second n c \<longleftrightarrow>
     (if n = 0xE0 then 0xA0 else if n = 0xF0 then 0x90 else 0x80) \<le> (of_char c :: nat) \<and>
     (of_char c :: nat) \<le> (if n = 0xED then 0x9F else if n = 0xF4 then 0x8F else 0xBF)"

fun utf8_size :: "string \<Rightarrow> nat" where
  "utf8_size [] = 0"
| "utf8_size (a # s) =
     (let n = of_char a in
      if n < 0x80 then 1
      else if 0xC2 \<le> n \<and> n \<le> 0xDF then
        (case s of b # _ \<Rightarrow> if utf8_cont b then 2 else 0 | _ \<Rightarrow> 0)
      else if 0xE0 \<le> n \<and> n \<le> 0xEF then
        (case s of b # c # _ \<Rightarrow> if utf8_second n b \<and> utf8_cont c then 3 else 0 | _ \<Rightarrow> 0)
      else if 0xF0 \<le> n \<and> n \<le> 0xF4 then
        (case s of b # c # d # _ \<Rightarrow> if utf8_second n b \<and> utf8_cont c \<and> utf8_cont d then 4 else 0 | _ \<Rightarrow> 0)
      else 0)"

definition utf8_encode :: "nat \<Rightarrow> string" where
  "utf8_encode n =
     (if n < 0x80 then [char_of n]
      else if n < 0x800 then map char_of [0xC0 + n div 0x40, 0x80 + n mod 0x40]
      else if n < 0x10000 then map char_of [0xE0 + n div 0x1000, 0x80 + n div 0x40 mod 0x40, 0x80 + n mod 0x40]
      else map char_of [0xF0 + n div 0x40000, 0x80 + n div 0x1000 mod 0x40, 0x80 + n div 0x40 mod 0x40,
                        0x80 + n mod 0x40])"

definition utf8_replacement :: string where
  "utf8_replacement = utf8_encode 0xFFFD"

text \<open>Every byte that starts no valid sequence is replaced.\<close>

function utf8_sanitize :: "string \<Rightarrow> string" where
  "utf8_sanitize [] = []"
| "utf8_sanitize (c # s) =
     (let k = utf8_size (c # s) in
      if k = 0 then utf8_replacement @ utf8_sanitize s
      else take k (c # s) @ utf8_sanitize (drop k (c # s)))"
  by pat_completeness auto
termination
  by (relation "measure length") auto

declare utf8_size.simps(2) [simp del] utf8_sanitize.simps(2) [simp del]

section \<open>Values and printing\<close>

datatype json =
    JNull
  | JBool bool
  | JNum string
  | JStr string
  | JArr "json list"
  | JObj "(string \<times> json) list"

definition hex4 :: "nat \<Rightarrow> string" where
  "hex4 n = [CHR 0x5C, CHR ''u''] @ map digit_char [n div 4096, n div 256 mod 16, n div 16 mod 16, n mod 16]"

definition escape_ascii :: "char \<Rightarrow> string" where
  "escape_ascii c =
     (if c = CHR 0x22 \<or> c = CHR 0x5C then [CHR 0x5C, c]
      else if c = CHR 0x08 then [CHR 0x5C, CHR ''b'']
      else if c = CHR 0x0C then [CHR 0x5C, CHR ''f'']
      else if c = CHR 0x0A then [CHR 0x5C, CHR ''n'']
      else if c = CHR 0x0D then [CHR 0x5C, CHR ''r'']
      else if c = CHR 0x09 then [CHR 0x5C, CHR ''t'']
      else if (of_char c :: nat) < 0x20 \<or> c = CHR ''<'' \<or> c = CHR ''>'' \<or> c = CHR ''&'' then hex4 (of_char c)
      else [c])"

function json_escape :: "string \<Rightarrow> string" where
  "json_escape [] = []"
| "json_escape (c # s) =
     (if (of_char c :: nat) < 0x80 then escape_ascii c @ json_escape s
      else
        let k = utf8_size (c # s) in
        if k = 0 then hex4 0xFFFD @ json_escape s
        else if take k (c # s) = utf8_encode 0x2028 then hex4 0x2028 @ json_escape (drop k (c # s))
        else if take k (c # s) = utf8_encode 0x2029 then hex4 0x2029 @ json_escape (drop k (c # s))
        else take k (c # s) @ json_escape (drop k (c # s)))"
  by pat_completeness auto
termination
  by (relation "measure length") auto

declare json_escape.simps(2) [simp del]

definition json_quote :: "string \<Rightarrow> string" where
  "json_quote s = CHR 0x22 # json_escape s @ [CHR 0x22]"

fun json_encode :: "json \<Rightarrow> string" where
  "json_encode JNull = ''null''"
| "json_encode (JBool b) = (if b then ''true'' else ''false'')"
| "json_encode (JNum l) = l"
| "json_encode (JStr s) = json_quote s"
| "json_encode (JArr vs) = ''['' @ strings_Join (map json_encode vs) '','' @ '']''"
| "json_encode (JObj ms) =
     ''{'' @ strings_Join (map (\<lambda>(k, v). json_quote k @ '':'' @ json_encode v) ms) '','' @ ''}''"

text \<open>A Go map of strings to values, printed with its keys in order.\<close>

definition json_map :: "(string \<times> json) list \<Rightarrow> json" where
  "json_map ms = JObj (sort_key fst ms)"

section \<open>Reading\<close>

fun hex_digits :: "string \<Rightarrow> nat option" where
  "hex_digits [] = Some 0"
| "hex_digits (c # cs) =
     Option.bind (hex_val c) (\<lambda>d. map_option (\<lambda>n. d * 16 ^ length cs + n) (hex_digits cs))"

definition read_u4 :: "string \<Rightarrow> nat option" where
  "read_u4 s = (if 4 \<le> length s then hex_digits (take 4 s) else None)"

text \<open>After a backslash and a \<^verbatim>\<open>u\<close>: the characters read and the rest. A surrogate that is not the first of a
  pair is replaced.\<close>

definition unescape_u :: "string \<Rightarrow> (string \<times> string) option" where
  "unescape_u s =
     Option.bind (read_u4 s) (\<lambda>n.
       let r = drop 4 s in
       if 0xD800 \<le> n \<and> n < 0xE000 then
         case (if take 2 r = [CHR 0x5C, CHR ''u''] then read_u4 (drop 2 r) else None) of
           Some m \<Rightarrow>
             if n < 0xDC00 \<and> 0xDC00 \<le> m \<and> m < 0xE000
             then Some (utf8_encode ((n - 0xD800) * 0x400 + (m - 0xDC00) + 0x10000), drop 6 r)
             else Some (utf8_replacement, r)
         | None \<Rightarrow> Some (utf8_replacement, r)
       else Some (utf8_encode n, r))"

definition simple_escape :: "char \<Rightarrow> char option" where
  "simple_escape c =
     map_of [(CHR 0x22, CHR 0x22), (CHR 0x5C, CHR 0x5C), (CHR ''/'', CHR ''/''), (CHR ''b'', CHR 0x08),
             (CHR ''f'', CHR 0x0C), (CHR ''n'', CHR 0x0A), (CHR ''r'', CHR 0x0D), (CHR ''t'', CHR 0x09)] c"

definition unescape :: "string \<Rightarrow> (string \<times> string) option" where
  "unescape s =
     (case s of
        [] \<Rightarrow> None
      | e # r \<Rightarrow>
        if e = CHR ''u'' then unescape_u r else map_option (\<lambda>c. ([c], r)) (simple_escape e))"

lemma unescape_shorter: "unescape s = Some (out, r) \<Longrightarrow> length r < length s"
  by (auto simp: unescape_def unescape_u_def Let_def bind_eq_Some_conv read_u4_def
      split: list.splits if_splits option.splits)

definition prepend :: "string \<Rightarrow> (string \<times> string) option \<Rightarrow> (string \<times> string) option" where
  "prepend out = map_option (\<lambda>(t, r). (out @ t, r))"

text \<open>The rest of a string literal, after its opening quote.\<close>

function json_string :: "string \<Rightarrow> (string \<times> string) option" where
  "json_string [] = None"
| "json_string (c # s) =
     (if c = CHR 0x22 then Some ([], s)
      else if c = CHR 0x5C then
        (case unescape s of None \<Rightarrow> None | Some (out, r) \<Rightarrow> prepend out (json_string r))
      else if (of_char c :: nat) < 0x20 then None
      else if (of_char c :: nat) < 0x80 then prepend [c] (json_string s)
      else
        let k = utf8_size (c # s) in
        if k = 0 then prepend utf8_replacement (json_string s)
        else prepend (take k (c # s)) (json_string (drop k (c # s))))"
  by pat_completeness auto
termination
  by (relation "measure length") (auto dest: unescape_shorter)

declare json_string.simps(2) [simp del]

definition is_ws :: "char \<Rightarrow> bool" where
  "is_ws c \<longleftrightarrow> c = CHR '' '' \<or> c = CHR 0x09 \<or> c = CHR 0x0A \<or> c = CHR 0x0D"

definition is_digit :: "char \<Rightarrow> bool" where
  "is_digit c \<longleftrightarrow> dec_val c \<noteq> None"

text \<open>At least one digit.\<close>

definition lex_digits :: "string \<Rightarrow> (string \<times> string) option" where
  "lex_digits s =
     (let ds = takeWhile is_digit s in if ds = [] then None else Some (ds, dropWhile is_digit s))"

definition lex_int :: "string \<Rightarrow> (string \<times> string) option" where
  "lex_int s = (case s of c # r \<Rightarrow> if c = CHR ''0'' then Some ([c], r) else lex_digits s | [] \<Rightarrow> None)"

definition lex_frac :: "string \<Rightarrow> (string \<times> string) option" where
  "lex_frac s = (if take 1 s = ''.'' then prepend ''.'' (lex_digits (drop 1 s)) else Some ([], s))"

definition lex_exp :: "string \<Rightarrow> (string \<times> string) option" where
  "lex_exp s =
     (if take 1 s = ''e'' \<or> take 1 s = ''E'' then
        let r = drop 1 s in
        if take 1 r = ''+'' \<or> take 1 r = ''-''
        then prepend (take 2 s) (lex_digits (drop 1 r))
        else prepend (take 1 s) (lex_digits r)
      else Some ([], s))"

definition lex_number :: "string \<Rightarrow> (string \<times> string) option" where
  "lex_number s =
     (let sign = (if take 1 s = ''-'' then ''-'' else []) in
      Option.bind (lex_int (drop (length sign) s)) (\<lambda>(i, s1).
      Option.bind (lex_frac s1) (\<lambda>(f, s2).
      Option.bind (lex_exp s2) (\<lambda>(e, s3). Some (sign @ i @ f @ e, s3)))))"

datatype token = TLBrace | TRBrace | TLBrack | TRBrack | TColon | TComma | TValue json

definition lex_word :: "string \<Rightarrow> (token \<times> string) option" where
  "lex_word s =
     (if take 4 s = ''null'' then Some (TValue JNull, drop 4 s)
      else if take 4 s = ''true'' then Some (TValue (JBool True), drop 4 s)
      else if take 5 s = ''false'' then Some (TValue (JBool False), drop 5 s)
      else map_option (\<lambda>(l, r). (TValue (JNum l), r)) (lex_number s))"

definition next_token :: "string \<Rightarrow> (token \<times> string) option" where
  "next_token s =
     (case dropWhile is_ws s of
        [] \<Rightarrow> None
      | c # r \<Rightarrow>
        if c = CHR ''{'' then Some (TLBrace, r)
        else if c = CHR ''}'' then Some (TRBrace, r)
        else if c = CHR ''['' then Some (TLBrack, r)
        else if c = CHR '']'' then Some (TRBrack, r)
        else if c = CHR '':'' then Some (TColon, r)
        else if c = CHR '','' then Some (TComma, r)
        else if c = CHR 0x22 then map_option (\<lambda>(t, r'). (TValue (JStr t), r')) (json_string r)
        else lex_word (c # r))"

lemma prepend_eq_Some: "prepend out x = Some (t, r) \<longleftrightarrow> (\<exists>t'. x = Some (t', r) \<and> t = out @ t')"
  by (auto simp: prepend_def)

lemma json_string_shorter: "json_string s = Some (t, r) \<Longrightarrow> length r < length s"
proof (induction s arbitrary: t rule: measure_induct_rule [of length])
  case (less s)
  then obtain c s' where s: "s = c # s'" by (cases s) auto
  have step: "length r < length s" if "json_string y = Some (t', r)" "length y \<le> length s'" for y t'
    using less.IH [of y t'] that s by simp
  consider (quote) "c = CHR 0x22" | (esc) out y t' where "unescape s' = Some (out, y)" "json_string y = Some (t', r)"
    | (ascii) t' where "json_string s' = Some (t', r)"
    | (utf8) t' where "json_string (drop (utf8_size (c # s')) (c # s')) = Some (t', r)" "utf8_size (c # s') \<noteq> 0"
    using less.prems unfolding s json_string.simps(2) Let_def
    by (auto simp: prepend_eq_Some split: if_split_asm option.split_asm)
  then show ?case
  proof cases
    case quote
    with less.prems s show ?thesis by (simp add: json_string.simps(2))
  next
    case esc
    with unescape_shorter [OF esc(1)] show ?thesis by (intro step [OF esc(2)]) simp
  next
    case ascii
    then show ?thesis by (rule step) simp
  next
    case utf8
    then show ?thesis by (intro step [OF utf8(1)]) auto
  qed
qed

lemma lex_digits_shorter: "lex_digits s = Some (t, r) \<Longrightarrow> length r < length s"
  by (cases s) (auto simp: lex_digits_def Let_def less_Suc_eq_le length_dropWhile_le split: if_splits)

lemma lex_int_shorter: "lex_int s = Some (t, r) \<Longrightarrow> length r < length s"
  by (auto simp: lex_int_def split: list.splits if_splits dest: lex_digits_shorter)

lemma lex_frac_shorter: "lex_frac s = Some (t, r) \<Longrightarrow> length r \<le> length s"
  by (auto simp: lex_frac_def prepend_eq_Some split: if_splits dest: lex_digits_shorter)

lemma lex_exp_shorter: "lex_exp s = Some (t, r) \<Longrightarrow> length r \<le> length s"
  unfolding lex_exp_def Let_def
  by (auto simp: prepend_eq_Some split: if_splits dest!: lex_digits_shorter)

lemma lex_number_shorter:
  assumes "lex_number s = Some (t, r)"
  shows "length r < length s"
proof -
  obtain i s1 f s2 e where "lex_int (drop (length (if take 1 s = ''-'' then ''-'' else [])) s) = Some (i, s1)"
    "lex_frac s1 = Some (f, s2)" "lex_exp s2 = Some (e, r)"
    using assms unfolding lex_number_def Let_def by (auto simp: bind_eq_Some_conv)
  from lex_int_shorter [OF this(1)] lex_frac_shorter [OF this(2)] lex_exp_shorter [OF this(3)]
  show ?thesis by simp
qed

lemma lex_word_shorter: "lex_word s = Some (t, r) \<Longrightarrow> length r < length s"
  by (cases s) (auto simp: lex_word_def dest: lex_number_shorter split: if_splits)

lemma next_token_shorter: "next_token s = Some (t, r) \<Longrightarrow> length r < length s"
proof -
  assume a: "next_token s = Some (t, r)"
  have "length r < length (dropWhile is_ws s)"
    using a by (auto simp: next_token_def split: list.splits if_splits
        dest!: json_string_shorter lex_word_shorter)
  also have "\<dots> \<le> length s" by (rule length_dropWhile_le)
  finally show ?thesis .
qed

text \<open>The parser: a stack of open containers and what may come next. An open object holds its members so far
  and the key whose value is read.\<close>

datatype frame = InArr "json list" | InObj "(string \<times> json) list" string

datatype expect = XValue | XElem | XKeyOrEnd | XKey | XColon | XNext

datatype presult = PErr | PMore "frame list" expect | PDone json

definition maxNestingDepth :: nat where
  "maxNestingDepth = 10000"

definition push :: "frame \<Rightarrow> expect \<Rightarrow> frame list \<Rightarrow> presult" where
  "push f x fs = (if length fs < maxNestingDepth then PMore (f # fs) x else PErr)"

fun complete :: "json \<Rightarrow> frame list \<Rightarrow> presult" where
  "complete v [] = PDone v"
| "complete v (InArr vs # fs) = PMore (InArr (vs @ [v]) # fs) XNext"
| "complete v (InObj ms k # fs) = PMore (InObj (ms @ [(k, v)]) k # fs) XNext"

fun value_token :: "token \<Rightarrow> frame list \<Rightarrow> presult" where
  "value_token TLBrace fs = push (InObj [] []) XKeyOrEnd fs"
| "value_token TLBrack fs = push (InArr []) XElem fs"
| "value_token (TValue v) fs = complete v fs"
| "value_token _ fs = PErr"

fun pstep :: "frame list \<Rightarrow> expect \<Rightarrow> token \<Rightarrow> presult" where
  "pstep fs XValue t = value_token t fs"
| "pstep (InArr vs # fs) XElem TRBrack = complete (JArr vs) fs"
| "pstep fs XElem t = value_token t fs"
| "pstep (InObj ms k # fs) XKeyOrEnd TRBrace = complete (JObj ms) fs"
| "pstep (InObj ms k # fs) XKeyOrEnd (TValue (JStr s)) = PMore (InObj ms s # fs) XColon"
| "pstep (InObj ms k # fs) XKey (TValue (JStr s)) = PMore (InObj ms s # fs) XColon"
| "pstep fs XColon TColon = PMore fs XValue"
| "pstep (InArr vs # fs) XNext TComma = PMore (InArr vs # fs) XValue"
| "pstep (InArr vs # fs) XNext TRBrack = complete (JArr vs) fs"
| "pstep (InObj ms k # fs) XNext TComma = PMore (InObj ms k # fs) XKey"
| "pstep (InObj ms k # fs) XNext TRBrace = complete (JObj ms) fs"
| "pstep fs x t = PErr"

function json_loop :: "frame list \<Rightarrow> expect \<Rightarrow> string \<Rightarrow> (json \<times> string) option" where
  "json_loop fs x s =
     (case next_token s of
        None \<Rightarrow> None
      | Some (t, r) \<Rightarrow>
        (case pstep fs x t of
           PErr \<Rightarrow> None
         | PDone v \<Rightarrow> Some (v, r)
         | PMore fs' x' \<Rightarrow> json_loop fs' x' r))"
  by pat_completeness auto
termination
  by (relation "measure (\<lambda>(fs, x, s). length s)") (auto dest: next_token_shorter)

declare json_loop.simps [simp del]

text \<open>\<^verbatim>\<open>Decoder.Decode\<close> reads the first value; \<^verbatim>\<open>Unmarshal\<close> takes a text that is one value.\<close>

definition json_parse :: "string \<Rightarrow> (json \<times> string) option" where
  "json_parse s = json_loop [] XValue s"

definition json_parse_all :: "string \<Rightarrow> json option" where
  "json_parse_all s =
     Option.bind (json_parse s) (\<lambda>(v, r). if list_all is_ws r then Some v else None)"

section \<open>Fields of a struct\<close>

text \<open>The name a key is matched by if no field has exactly the key: letters in upper case, with the two
  characters outside of ASCII that fold to letters.\<close>

fun fold_name :: "string \<Rightarrow> string" where
  "fold_name [] = []"
| "fold_name (c # s) =
     (if 97 \<le> (of_char c :: nat) \<and> (of_char c :: nat) \<le> 122 then char_of (of_char c - 32 :: nat) # fold_name s
      else if c # take 1 s = utf8_encode 0x17F then CHR ''S'' # fold_name (drop 1 s)
      else if c # take 2 s = utf8_encode 0x212A then CHR ''K'' # fold_name (drop 2 s)
      else c # fold_name s)"

definition field_of :: "string list \<Rightarrow> string \<Rightarrow> string option" where
  "field_of names key =
     (if key \<in> set names then Some key else find (\<lambda>n. fold_name n = fold_name key) names)"

text \<open>The values that a struct's field receives, in order.\<close>

definition field_values :: "string list \<Rightarrow> string \<Rightarrow> (string \<times> json) list \<Rightarrow> json list" where
  "field_values names f ms = map snd (filter (\<lambda>(k, v). field_of names k = Some f) ms)"

section \<open>Round trip\<close>

lemma utf8_size_ascii: "(of_char c :: nat) < 0x80 \<Longrightarrow> utf8_size (c # s) = 1"
  by (simp add: utf8_size.simps(2))

lemma utf8_size_le: "utf8_size s \<le> length s"
  by (cases s) (auto simp: utf8_size.simps(2) Let_def split: list.splits)

lemma utf8_size_take:
  assumes "utf8_size s \<noteq> 0"
  shows "utf8_size (take (utf8_size s) s @ r) = utf8_size s"
proof (cases s)
  case (Cons a s')
  then show ?thesis
    using assms
    by (cases s'; cases "tl s'"; cases "tl (tl s')")
      (auto simp: utf8_size.simps(2) Let_def split: if_splits)
qed (use assms in simp)

lemma hex_digits_4:
  "a < 16 \<Longrightarrow> b < 16 \<Longrightarrow> c < 16 \<Longrightarrow> d < 16 \<Longrightarrow>
     hex_digits (map digit_char [a, b, c, d]) = Some (a * 4096 + b * 256 + c * 16 + d)"
  by simp

lemma nibbles:
  fixes n :: nat
  assumes "n < 65536"
  shows "n div 4096 * 4096 + n div 256 mod 16 * 256 + n div 16 mod 16 * 16 + n mod 16 = n" "n div 4096 < 16"
proof -
  have "n div 256 = n div 16 div 16" "n div 4096 = n div 256 div 16"
    by (simp_all add: div_mult2_eq [symmetric])
  then show "n div 4096 * 4096 + n div 256 mod 16 * 256 + n div 16 mod 16 * 16 + n mod 16 = n"
    using div_mult_mod_eq [of n 16] div_mult_mod_eq [of "n div 16" 16] div_mult_mod_eq [of "n div 256" 16]
    by linarith
  show "n div 4096 < 16" using assms by (simp add: less_mult_imp_div_less)
qed

lemma json_string_hex4:
  assumes "n < 65536" and "\<not> (0xD800 \<le> n \<and> n < 0xE000)"
  shows "json_string (hex4 n @ y) = prepend (utf8_encode n) (json_string y)"
proof -
  have "hex_digits (map digit_char [n div 4096, n div 256 mod 16, n div 16 mod 16, n mod 16]) = Some n"
    using hex_digits_4 [OF nibbles(2) [OF assms(1)], of "n div 256 mod 16" "n div 16 mod 16" "n mod 16"] nibbles(1) [OF assms(1)]
    by (simp del: list.map hex_digits.simps)
  then have "unescape_u (map digit_char [n div 4096, n div 256 mod 16, n div 16 mod 16, n mod 16] @ y) = Some (utf8_encode n, y)"
    using assms(2) by (auto simp add: unescape_u_def read_u4_def simp del: hex_digits.simps)
  then show ?thesis
    by (simp add: hex4_def json_string.simps(2) unescape_def)
qed

lemma json_string_escape_ascii:
  assumes "(of_char c :: nat) < 0x80"
  shows "json_string (escape_ascii c @ y) = prepend [c] (json_string y)"
proof -
  have simple: "json_string (CHR 0x5C # e # y) = prepend [c'] (json_string y)" if "simple_escape e = Some c'" "e \<noteq> CHR ''u''" for e c'
    using that by (simp add: json_string.simps(2) unescape_def)
  have hex: "json_string (hex4 (of_char c) @ y) = prepend [c] (json_string y)"
    using json_string_hex4 [of "of_char c" y] assms by (simp add: utf8_encode_def)
  have plain: "json_string (c # y) = prepend [c] (json_string y)"
    if "c \<noteq> CHR 0x22" "c \<noteq> CHR 0x5C" "\<not> (of_char c :: nat) < 0x20"
    using that assms by (simp add: json_string.simps(2))
  show ?thesis
    using hex plain by (simp add: escape_ascii_def simple simple_escape_def)
qed

lemma json_string_utf8:
  assumes "utf8_size s \<noteq> 0" and "\<not> (of_char (hd s) :: nat) < 0x80"
  shows "json_string (take (utf8_size s) s @ y) = prepend (take (utf8_size s) s) (json_string y)"
proof -
  obtain c s' where s: "s = c # s'" using assms by (cases s) auto
  obtain u where u: "take (utf8_size s) s = c # u" using assms(1) s by (cases "utf8_size s") auto
  have len: "length (c # u) = utf8_size s"
    using u utf8_size_le [of s] by (metis length_take min.absorb2)
  have "utf8_size (c # u @ y) = utf8_size s"
    using utf8_size_take [OF assms(1), of y] u by simp
  moreover have "c \<noteq> CHR 0x22" "c \<noteq> CHR 0x5C" "\<not> (of_char c :: nat) < 0x20" "\<not> (of_char c :: nat) < 0x80"
    using assms(2) s by auto
  ultimately show ?thesis
    using assms(1) len unfolding u
    by (simp add: json_string.simps(2) Let_def) (metis append_Cons append_eq_conv_conj length_Cons)
qed

lemma json_string_escape: "json_string (json_escape s @ CHR 0x22 # r) = Some (utf8_sanitize s, r)"
proof (induction s rule: json_escape.induct)
  case (2 c s)
  let ?k = "utf8_size (c # s)"
  show ?case
  proof (cases "(of_char c :: nat) < 0x80")
    case True
    with 2(1) show ?thesis
      by (simp add: json_escape.simps(2) json_string_escape_ascii utf8_sanitize.simps(2) utf8_size_ascii prepend_def)
  next
    case high: False
    show ?thesis
    proof (cases "?k = 0")
      case True
      with 2(2) high show ?thesis
        by (simp add: json_escape.simps(2) json_string_hex4 utf8_sanitize.simps(2) utf8_replacement_def prepend_def)
    next
      case False
      have utf8: "json_string (take ?k (c # s) @ y) = prepend (take ?k (c # s)) (json_string y)" for y
        using json_string_utf8 [OF False] high by simp
      show ?thesis
        using 2(3,4,5) high False utf8
        by (auto simp: json_escape.simps(2) json_string_hex4 utf8_sanitize.simps(2) prepend_def Let_def simp del: take_Suc_Cons)
    qed
  qed
qed (simp add: json_string.simps(2))

definition valid_utf8 :: "string \<Rightarrow> bool" where
  "valid_utf8 s \<longleftrightarrow> utf8_sanitize s = s"

text \<open>Values without numbers, which is all that the enforcer prints; a value with its strings sanitized;
  and the depth of a value.\<close>

fun no_num :: "json \<Rightarrow> bool" where
  "no_num (JNum l) \<longleftrightarrow> False"
| "no_num (JArr vs) \<longleftrightarrow> list_all no_num vs"
| "no_num (JObj ms) \<longleftrightarrow> list_all (\<lambda>(k, v). no_num v) ms"
| "no_num _ \<longleftrightarrow> True"

fun json_sanitize :: "json \<Rightarrow> json" where
  "json_sanitize (JStr s) = JStr (utf8_sanitize s)"
| "json_sanitize (JArr vs) = JArr (map json_sanitize vs)"
| "json_sanitize (JObj ms) = JObj (map (\<lambda>(k, v). (utf8_sanitize k, json_sanitize v)) ms)"
| "json_sanitize v = v"

fun json_depth :: "json \<Rightarrow> nat" where
  "json_depth (JArr vs) = Suc (foldr max (map json_depth vs) 0)"
| "json_depth (JObj ms) = Suc (foldr max (map (\<lambda>(k, v). json_depth v) ms) 0)"
| "json_depth _ = 0"

text \<open>The parser after a token.\<close>

definition resume :: "presult \<Rightarrow> string \<Rightarrow> (json \<times> string) option" where
  "resume p r = (case p of PErr \<Rightarrow> None | PDone v \<Rightarrow> Some (v, r) | PMore fs x \<Rightarrow> json_loop fs x r)"

lemma json_loop_token: "next_token s = Some (t, r) \<Longrightarrow> json_loop fs x s = resume (pstep fs x t) r"
  by (simp add: json_loop.simps [of fs x s] resume_def)

lemma resume_PMore [simp]: "resume (PMore fs x) r = json_loop fs x r"
  by (simp add: resume_def)

lemma next_token_punct [simp]:
  "next_token (CHR ''{'' # r) = Some (TLBrace, r)" "next_token (CHR ''}'' # r) = Some (TRBrace, r)"
  "next_token (CHR ''['' # r) = Some (TLBrack, r)" "next_token (CHR '']'' # r) = Some (TRBrack, r)"
  "next_token (CHR '':'' # r) = Some (TColon, r)" "next_token (CHR '','' # r) = Some (TComma, r)"
  by (simp_all add: next_token_def is_ws_def)

lemma next_token_words [simp]:
  "next_token (CHR ''n'' # CHR ''u'' # CHR ''l'' # CHR ''l'' # r) = Some (TValue JNull, r)"
  "next_token (CHR ''t'' # CHR ''r'' # CHR ''u'' # CHR ''e'' # r) = Some (TValue (JBool True), r)"
  "next_token (CHR ''f'' # CHR ''a'' # CHR ''l'' # CHR ''s'' # CHR ''e'' # r) = Some (TValue (JBool False), r)"
  by (simp_all add: next_token_def is_ws_def lex_word_def)

lemma next_token_quote: "next_token (json_quote s @ r) = Some (TValue (JStr (utf8_sanitize s)), r)"
  by (simp add: next_token_def is_ws_def json_quote_def json_string_escape)

lemma pstep_XElem_value: "t \<noteq> TRBrack \<Longrightarrow> pstep fs XElem t = pstep fs XValue t"
  by (cases fs; cases "hd fs"; cases t) auto

lemma depth_member: "v \<in> set vs \<Longrightarrow> json_depth v \<le> foldr max (map json_depth vs) 0"
  by (induction vs) auto

lemma strings_Join_Cons: "strings_Join (a # as) sep = a @ (if as = [] then [] else sep @ strings_Join as sep)"
  by (cases as) simp_all

text \<open>A printed value is read, and the parser goes on as after a value.\<close>

definition reads_before :: "(string \<Rightarrow> bool) \<Rightarrow> json \<Rightarrow> bool" where
  "reads_before P v \<longleftrightarrow>
     (\<forall>fs r x. P r \<longrightarrow> json_depth v + length fs \<le> maxNestingDepth \<longrightarrow> x = XValue \<or> x = XElem \<longrightarrow>
        json_loop fs x (json_encode v @ r) = resume (complete (json_sanitize v) fs) r)"

abbreviation reads :: "json \<Rightarrow> bool" where
  "reads \<equiv> reads_before (\<lambda>_. True)"

text \<open>A text that cannot continue a number.\<close>

fun separated :: "string \<Rightarrow> bool" where
  "separated [] \<longleftrightarrow> False"
| "separated (c # s) \<longleftrightarrow> c = CHR '','' \<or> c = CHR '']'' \<or> c = CHR ''}''"

lemma readsD:
  "reads_before P v \<Longrightarrow> P r \<Longrightarrow> json_depth v + length fs \<le> maxNestingDepth \<Longrightarrow> x = XValue \<or> x = XElem \<Longrightarrow>
     json_loop fs x (json_encode v @ r) = resume (complete (json_sanitize v) fs) r"
  unfolding reads_before_def by blast

lemma reads_separated: "reads v \<Longrightarrow> reads_before separated v"
  by (simp add: reads_before_def)

lemma reads_elems:
  assumes "\<forall>v\<in>set vs. reads_before separated v" and "vs \<noteq> []" and "x = XValue \<or> x = XElem"
    and "\<forall>v\<in>set vs. json_depth v + Suc (length fs) \<le> maxNestingDepth"
  shows "json_loop (InArr us # fs) x (strings_Join (map json_encode vs) '','' @ CHR '']'' # r) =
    resume (complete (JArr (us @ map json_sanitize vs)) fs) r"
  using assms
proof (induction vs arbitrary: us x)
  case (Cons v vs)
  have v: "json_loop (InArr us # fs) x (json_encode v @ y) =
      json_loop (InArr (us @ [json_sanitize v]) # fs) XNext y" if "separated y" for y
    using Cons.prems that readsD [of separated v y "InArr us # fs" x] by simp
  show ?case
  proof (cases "vs = []")
    case True
    then show ?thesis by (simp add: v json_loop_token)
  next
    case False
    then have "json_loop (InArr (us @ [json_sanitize v]) # fs) XNext
        (CHR '','' # strings_Join (map json_encode vs) '','' @ CHR '']'' # r) =
        resume (complete (JArr ((us @ [json_sanitize v]) @ map json_sanitize vs)) fs) r"
      using Cons.IH [of XValue "us @ [json_sanitize v]"] Cons.prems by (simp add: json_loop_token)
    then show ?thesis
      using False by (simp add: strings_Join_Cons v)
  qed
qed simp

lemma reads_members:
  assumes "\<forall>(k, v)\<in>set ms. reads_before separated v" and "ms \<noteq> []" and "x = XKey \<or> x = XKeyOrEnd"
    and "\<forall>(k, v)\<in>set ms. json_depth v + Suc (length fs) \<le> maxNestingDepth"
  shows "json_loop (InObj us k0 # fs) x
      (strings_Join (map (\<lambda>(k, v). json_quote k @ '':'' @ json_encode v) ms) '','' @ CHR ''}'' # r) =
    resume (complete (JObj (us @ map (\<lambda>(k, v). (utf8_sanitize k, json_sanitize v)) ms)) fs) r"
  using assms
proof (induction ms arbitrary: us x k0)
  case (Cons m ms)
  obtain k v where m: "m = (k, v)" by fastforce
  let ?us = "us @ [(utf8_sanitize k, json_sanitize v)]"
  have v: "json_loop (InObj us k0 # fs) x (json_quote k @ CHR '':'' # json_encode v @ y) =
      json_loop (InObj ?us (utf8_sanitize k) # fs) XNext y" if "separated y" for y
  proof -
    have "json_loop (InObj us k0 # fs) x (json_quote k @ CHR '':'' # json_encode v @ y) =
        json_loop (InObj us (utf8_sanitize k) # fs) XValue (json_encode v @ y)"
      using Cons.prems(1,3) by (auto simp: m json_loop_token [OF next_token_quote] json_loop_token)
    with Cons.prems(1,4) that show ?thesis by (simp add: m readsD [of separated])
  qed
  show ?case
  proof (cases "ms = []")
    case True
    then show ?thesis by (simp add: m v json_loop_token)
  next
    case False
    then have "json_loop (InObj ?us (utf8_sanitize k) # fs) XNext
        (CHR '','' # strings_Join (map (\<lambda>(k, v). json_quote k @ '':'' @ json_encode v) ms) '','' @ CHR ''}'' # r) =
        resume (complete (JObj (?us @ map (\<lambda>(k, v). (utf8_sanitize k, json_sanitize v)) ms)) fs) r"
      using Cons.IH [of XKey ?us "utf8_sanitize k"] Cons.prems by (simp add: json_loop_token)
    then show ?thesis
      using False by (simp add: strings_Join_Cons m v)
  qed
qed simp

text \<open>Decimal numbers are read where something follows that ends them.\<close>

fun dec_num :: "json \<Rightarrow> bool" where
  "dec_num (JNum l) \<longleftrightarrow> l \<in> range format_dec"
| "dec_num (JArr vs) \<longleftrightarrow> list_all dec_num vs"
| "dec_num (JObj ms) \<longleftrightarrow> list_all (\<lambda>(k, v). dec_num v) ms"
| "dec_num _ \<longleftrightarrow> True"

fun is_num :: "json \<Rightarrow> bool" where
  "is_num (JNum l) \<longleftrightarrow> True"
| "is_num _ \<longleftrightarrow> False"

lemma no_num_dec_num: "no_num v \<Longrightarrow> dec_num v \<and> \<not> is_num v"
  by (induction v) (fastforce simp: list_all_iff)+

lemma format_dec_shape:
  obtains (zero) "format_dec n = ''0''"
  | (positive) c cs where "format_dec n = c # cs" "c \<noteq> CHR ''0''" "\<forall>x\<in>set (c # cs). is_digit x"
proof (cases "n = 0")
  case False
  obtain d ds where d: "to_digits 10 n = d # ds" by (metis neq_Nil_conv to_digits_nonempty)
  then have "d \<noteq> 0" "\<forall>x\<in>set (d # ds). x < 10"
    using to_digits_hd_nonzero [of 10 n] to_digits_less [of 10 _ n] False by auto
  moreover have "digit_char d \<noteq> CHR ''0''" if "d \<noteq> 0" "d < 10"
    using dec_val_digit_char [of d] dec_val_digit_char [of 0] that by (metis digit_char_table(1) option.inject zero_less_numeral)
  ultimately show ?thesis
    using d by (intro positive [of "digit_char d" "map digit_char ds"]) (auto simp: format_dec_def is_digit_def)
qed (simp add: zero format_dec_def digit_char_table)

lemma next_token_number:
  assumes "separated r"
  shows "next_token (format_dec n @ r) = Some (TValue (JNum (format_dec n)), r)"
proof -
  obtain e r' where r: "r = e # r'" "e = CHR '','' \<or> e = CHR '']'' \<or> e = CHR ''}''"
    using assms by (cases r) auto
  have e: "\<not> is_digit e" "e \<noteq> CHR ''.''" "e \<noteq> CHR ''e''" "e \<noteq> CHR ''E''"
    using r(2) by (auto simp: is_digit_def dec_val_def)
  show ?thesis
  proof (cases rule: format_dec_shape [of n])
    case zero
    then show ?thesis
      using e by (simp add: r(1) next_token_def is_ws_def lex_word_def lex_number_def lex_int_def lex_frac_def lex_exp_def)
  next
    case (positive c cs)
    have c: "is_digit c" using positive(3) by simp
    then have "dec_val c \<noteq> None" by (simp add: is_digit_def)
    then have ne: "\<not> is_ws c" "c \<noteq> CHR ''{''" "c \<noteq> CHR ''}''" "c \<noteq> CHR ''[''" "c \<noteq> CHR '']''" "c \<noteq> CHR '':''"
      "c \<noteq> CHR '',''" "c \<noteq> CHR 0x22" "c \<noteq> CHR ''n''" "c \<noteq> CHR ''t''" "c \<noteq> CHR ''f''" "c \<noteq> CHR ''-''"
      by (auto simp: is_ws_def dec_val_def)
    have "lex_digits (c # cs @ r) = Some (c # cs, r)"
      using positive(3) e(1) by (simp add: lex_digits_def r(1))
    then show ?thesis
      using positive(1,2) ne e by (simp add: next_token_def lex_word_def lex_number_def lex_int_def lex_frac_def lex_exp_def r(1))
  qed
qed

lemma dec_num_reads: "dec_num v \<Longrightarrow> reads_before separated v \<and> (\<not> is_num v \<longrightarrow> reads v)"
proof (induction v)
  case (JNum l)
  then obtain n where l: "l = format_dec n" by auto
  then show ?case
    by (auto simp: reads_before_def json_loop_token [OF next_token_number])
next
  case (JArr vs)
  then have elems: "\<forall>v\<in>set vs. reads_before separated v" by (auto simp: list_all_iff)
  have "reads (JArr vs)"
    unfolding reads_before_def
  proof (intro allI impI)
    fix fs :: "frame list" and r x
    assume d: "json_depth (JArr vs) + length fs \<le> maxNestingDepth" and x: "x = XValue \<or> x = XElem"
    then have "\<forall>v\<in>set vs. json_depth v + Suc (length fs) \<le> maxNestingDepth"
      using depth_member [of _ vs] by fastforce
    with elems d x reads_elems [of vs XElem fs "[]" r]
    show "json_loop fs x (json_encode (JArr vs) @ r) = resume (complete (json_sanitize (JArr vs)) fs) r"
      by (cases "vs = []") (auto simp: json_loop_token push_def)
  qed
  then show ?case by (simp add: reads_separated)
next
  case (JObj ms)
  then have members: "\<forall>(k, v)\<in>set ms. reads_before separated v" by (fastforce simp: list_all_iff)
  have "reads (JObj ms)"
    unfolding reads_before_def
  proof (intro allI impI)
    fix fs :: "frame list" and r x
    assume d: "json_depth (JObj ms) + length fs \<le> maxNestingDepth" and x: "x = XValue \<or> x = XElem"
    have "json_depth v \<le> foldr max (map (\<lambda>(k, v). json_depth v) ms) 0" if "(k, v) \<in> set ms" for k v
      using depth_member [of v "map snd ms"] that by (force simp: comp_def case_prod_unfold)
    then have "\<forall>(k, v)\<in>set ms. json_depth v + Suc (length fs) \<le> maxNestingDepth"
      using d by fastforce
    with members d x reads_members [of ms XKeyOrEnd fs "[]" "[]" r]
    show "json_loop fs x (json_encode (JObj ms) @ r) = resume (complete (json_sanitize (JObj ms)) fs) r"
      by (cases "ms = []") (auto simp: json_loop_token push_def)
  qed
  then show ?case by (simp add: reads_separated)
qed (auto simp: reads_before_def json_loop_token json_loop_token [OF next_token_quote])

lemma json_roundtrip_num:
  assumes "dec_num v" and "\<not> is_num v" and "json_depth v \<le> maxNestingDepth"
  shows "json_parse (json_encode v @ r) = Some (json_sanitize v, r)"
  using dec_num_reads [OF assms(1)] assms(2,3) by (simp add: reads_before_def json_parse_def resume_def)

lemma json_roundtrip:
  assumes "no_num v" and "json_depth v \<le> maxNestingDepth"
  shows "json_parse (json_encode v @ r) = Some (json_sanitize v, r)"
  using json_roundtrip_num no_num_dec_num [OF assms(1)] assms(2) by blast

lemma json_roundtrip_all:
  "no_num v \<Longrightarrow> json_depth v \<le> maxNestingDepth \<Longrightarrow> list_all is_ws r \<Longrightarrow>
     json_parse_all (json_encode v @ r) = Some (json_sanitize v)"
  by (simp add: json_parse_all_def json_roundtrip)

section \<open>Printed text\<close>

text \<open>A printed value is one line.\<close>

lemma utf8_tail_high: "utf8_cont c \<Longrightarrow> 0x80 \<le> (of_char c :: nat)" "utf8_second n c \<Longrightarrow> 0x80 \<le> (of_char c :: nat)"
  by (auto simp: utf8_cont_def utf8_second_def split: if_splits)

lemma utf8_size_tail:
  assumes "utf8_size (c # s) \<noteq> 0" and "\<not> (of_char c :: nat) < 0x80" and "x \<in> set (take (utf8_size (c # s) - 1) s)"
  shows "utf8_cont x \<or> utf8_second (of_char c) x"
proof (cases s)
  case (Cons b s1)
  show ?thesis
  proof (cases s1)
    case Nil
    with Cons assms show ?thesis by (auto simp: utf8_size.simps(2) Let_def split: if_splits)
  next
    case (Cons d s2)
    with \<open>s = b # s1\<close> assms show ?thesis
      by (cases s2) (auto simp: utf8_size.simps(2) Let_def split: if_splits)
  qed
qed (use assms in simp)

lemma utf8_size_high:
  assumes "utf8_size (c # s) \<noteq> 0" and "\<not> (of_char c :: nat) < 0x80" and "x \<in> set (take (utf8_size (c # s)) (c # s))"
  shows "0x80 \<le> (of_char x :: nat)"
proof -
  have "x = c \<or> x \<in> set (take (utf8_size (c # s) - 1) s)"
    using assms(3) by (cases "utf8_size (c # s)") auto
  with assms(2) utf8_size_tail [OF assms(1,2)] show ?thesis by (auto dest: utf8_tail_high)
qed

lemma hex4_printable: "n < 65536 \<Longrightarrow> x \<in> set (hex4 n) \<Longrightarrow> 0x20 \<le> (of_char x :: nat)"
  using nibbles(2) [of n] by (auto simp: hex4_def of_char_digit_char)

lemma escape_ascii_printable:
  assumes "x \<in> set (escape_ascii c)"
  shows "0x20 \<le> (of_char x :: nat)"
proof -
  have "x \<in> set (hex4 (of_char c)) \<Longrightarrow> 0x20 \<le> (of_char x :: nat)"
    using hex4_printable [of "of_char c" x] nat_of_char_less_256 [of c] by simp
  moreover have "x = CHR 0x5C \<or> x = CHR 0x22 \<or> x \<in> set ''bfnrt'' \<or> x \<in> set (hex4 (of_char c)) \<or>
      x = c \<and> \<not> (of_char c :: nat) < 0x20"
    using assms unfolding escape_ascii_def by (simp split: if_split_asm) blast+
  ultimately show ?thesis by auto
qed

lemma json_escape_printable: "x \<in> set (json_escape s) \<Longrightarrow> 0x20 \<le> (of_char x :: nat)"
proof (induction s rule: json_escape.induct)
  case (2 c s)
  let ?k = "utf8_size (c # s)"
  consider "x \<in> set (escape_ascii c)" | "x \<in> set (hex4 0xFFFD)" | "x \<in> set (hex4 0x2028)" | "x \<in> set (hex4 0x2029)"
    | "x \<in> set (take ?k (c # s))" "?k \<noteq> 0" "\<not> (of_char c :: nat) < 0x80" | "0x20 \<le> (of_char x :: nat)"
    using 2 by (auto simp: json_escape.simps(2) Let_def split: if_split_asm simp del: take_Suc_Cons)
  then show ?case
  proof cases
    case 5
    then show ?thesis using utf8_size_high [of c s x] by simp
  qed (auto dest: escape_ascii_printable hex4_printable [rotated])
qed simp

lemma strings_Join_set: "set (strings_Join xs sep) \<subseteq> \<Union> (set ` set xs) \<union> set sep"
  by (induction xs sep rule: strings_Join.induct) auto

lemma json_quote_printable: "x \<in> set (json_quote s) \<Longrightarrow> 0x20 \<le> (of_char x :: nat)"
  by (auto simp: json_quote_def dest: json_escape_printable)

lemma json_encode_printable: "no_num v \<Longrightarrow> x \<in> set (json_encode v) \<Longrightarrow> 0x20 \<le> (of_char x :: nat)"
proof (induction v)
  case (JArr vs)
  then show ?case
    using strings_Join_set [of "map json_encode vs" "'',''"] by (fastforce simp: list_all_iff)
next
  case (JObj ms)
  let ?member = "\<lambda>(k, v). json_quote k @ '':'' @ json_encode v"
  have "x \<in> set ''{},'' \<or> (\<exists>m\<in>set ms. x \<in> set (?member m))"
    using JObj.prems(2) strings_Join_set [of "map ?member ms" "'',''"] by auto
  then consider "x \<in> set ''{},:''" | k v where "(k, v) \<in> set ms" "x \<in> set (json_quote k)"
    | k v where "(k, v) \<in> set ms" "x \<in> set (json_encode v)"
    by (auto split: prod.splits)
  then show ?case
  proof cases
    case 3
    then show ?thesis using JObj.IH [of "(k, v)" v] JObj.prems(1) by (fastforce simp: list_all_iff)
  qed (auto dest: json_quote_printable)
qed (auto dest: json_quote_printable split: if_splits)

lemma json_encode_one_line: "no_num v \<Longrightarrow> CHR 0x0A \<notin> set (json_encode v)"
  using json_encode_printable [of v "CHR 0x0A"] by auto

lemma json_encode_inj:
  "no_num v \<Longrightarrow> no_num w \<Longrightarrow> json_depth v \<le> maxNestingDepth \<Longrightarrow> json_depth w \<le> maxNestingDepth \<Longrightarrow>
     json_encode v = json_encode w \<Longrightarrow> json_sanitize v = json_sanitize w"
  using json_roundtrip [of v "[]"] json_roundtrip [of w "[]"] by simp

section \<open>Sanitized strings\<close>

lemma utf8_sanitize_ascii: "list_all (\<lambda>c. (of_char c :: nat) < 0x80) s \<Longrightarrow> utf8_sanitize s = s"
  by (induction s) (simp_all add: utf8_sanitize.simps(2) utf8_size_ascii)

lemma utf8_sanitize_prefix:
  assumes "utf8_size u \<noteq> 0"
  shows "utf8_sanitize (take (utf8_size u) u @ s) = take (utf8_size u) u @ utf8_sanitize s"
proof -
  obtain c v where u: "take (utf8_size u) u = c # v"
    using assms by (cases u; cases "utf8_size u") auto
  have len: "length (c # v) = utf8_size u"
    using u utf8_size_le [of u] by (metis length_take min.absorb2)
  have "utf8_size (c # v @ s) = utf8_size u"
    using utf8_size_take [OF assms, of s] u by simp
  then show ?thesis
    using assms len unfolding u
    by (simp add: utf8_sanitize.simps(2) Let_def) (metis append_Cons append_eq_conv_conj length_Cons)
qed

lemma utf8_replacement_valid: "utf8_size utf8_replacement = 3" "length utf8_replacement = 3"
  by (simp_all add: utf8_replacement_def utf8_encode_def utf8_size.simps(2) utf8_cont_def utf8_second_def)

lemma utf8_sanitize_idem [simp]: "utf8_sanitize (utf8_sanitize s) = utf8_sanitize s"
proof (induction s rule: utf8_sanitize.induct)
  case (2 c s)
  let ?k = "utf8_size (c # s)"
  show ?case
  proof (cases "?k = 0")
    case True
    have "utf8_sanitize (utf8_replacement @ x) = utf8_replacement @ utf8_sanitize x" for x
      using utf8_sanitize_prefix [of utf8_replacement x] by (simp add: utf8_replacement_valid)
    with True 2(1) show ?thesis by (simp add: utf8_sanitize.simps(2) [of c s])
  next
    case False
    with 2(2) utf8_sanitize_prefix [OF False] show ?thesis
      by (simp add: utf8_sanitize.simps(2) [of c s] Let_def del: take_Suc_Cons)
  qed
qed simp

end
