(* ===== verification/Attest.thy ===== *)
theory Attest
  imports Encode Json "HOL-Library.AList" "HOL-Library.Multiset"
begin

text \<open>
  Signing keys, canonical JSON and breach events (\<^verbatim>\<open>enforcer/internal/signingkey\<close>,
  \<^verbatim>\<open>canonical\<close>, \<^verbatim>\<open>breachevent\<close>). The record \<open>Crypto\<close> holds what is not part of the source: the
  functions of Ed25519 and SHA-256 and the transformation of the package \<^verbatim>\<open>jcs\<close>; what the theorems rely on of them is
  stated in \<open>ed25519_correct\<close> and \<open>jcs_faithful\<close>. A fresh UUID and the clock are arguments of the
  operations that read them. JSON is the model of theory \<open>Json\<close>, so the bytes that are signed are
  computed. The theory shows what a signature covers, that signing and verifying agree, that
  changing any covered field changes the signed bytes, and what the public log payload reveals.
\<close>

record Crypto =
  ed_public :: "byte list \<Rightarrow> byte list"
  ed_Sign :: "byte list \<Rightarrow> byte list \<Rightarrow> byte list"
  ed_Verify :: "byte list \<Rightarrow> byte list \<Rightarrow> byte list \<Rightarrow> bool"
  jcs_Transform :: "string \<Rightarrow> string + string"
  sha256_Sum :: "byte list \<Rightarrow> byte list"

section \<open>Time stamps\<close>

text \<open>The civil date of a number of days since 1970-01-01.\<close>

definition civil_date :: "int \<Rightarrow> int \<times> int \<times> int" where
  "civil_date days =
     (let z = days + 719468;
          era = z div 146097;
          doe = z - era * 146097;
          yoe = (doe - doe div 1460 + doe div 36524 - doe div 146096) div 365;
          doy = doe - (365 * yoe + yoe div 4 - yoe div 100);
          mp = (5 * doy + 2) div 153;
          d = doy - (153 * mp + 2) div 5 + 1;
          m = (if mp < 10 then mp + 3 else mp - 9)
      in (yoe + era * 400 + (if m \<le> 2 then 1 else 0), m, d))"

definition pad :: "nat \<Rightarrow> int \<Rightarrow> string" where
  "pad w n = (let s = format_dec (nat n) in replicate (w - length s) CHR ''0'' @ s)"

text \<open>\<^verbatim>\<open>t.UTC().Format\<close> of a Unix time in seconds, for the layout \<^verbatim>\<open>2006-01-02T15:04:05\<close> followed by a zone; the zone of
  \<^verbatim>\<open>timestampLayout\<close> prints as \<^verbatim>\<open>+00:00\<close>, that of \<^verbatim>\<open>time.RFC3339\<close> as \<^verbatim>\<open>Z\<close>. Years from 0 to 9999.\<close>

definition format_time :: "string \<Rightarrow> int \<Rightarrow> string" where
  "format_time zone t =
     (case civil_date (t div 86400) of (y, m, d) \<Rightarrow>
        let s = t mod 86400 in
        pad 4 y @ ''-'' @ pad 2 m @ ''-'' @ pad 2 d @ ''T'' @
        pad 2 (s div 3600) @ '':'' @ pad 2 (s div 60 mod 60) @ '':'' @ pad 2 (s mod 60) @ zone)"

section \<open>Signing keys\<close>

record Record =
  sk_keyID :: string
  sk_priv :: "byte list"
  sk_createdAt :: string
  sk_retiredAt :: string

text \<open>\<^verbatim>\<open>ed25519.NewKeyFromSeed\<close>: a private key is the seed followed by the public key.\<close>

definition NewKeyFromSeed :: "Crypto \<Rightarrow> byte list \<Rightarrow> byte list" where
  "NewKeyFromSeed cr seed = seed @ ed_public cr seed"

text \<open>\<open>rnd\<close> is what reading 32 bytes from the random source gives, \<open>uuid\<close> the fresh identifier.\<close>

definition Generate :: "Crypto \<Rightarrow> string + byte list \<Rightarrow> string \<Rightarrow> int \<Rightarrow> string + Record" where
  "Generate cr rnd uuid now =
     rbind rnd (\<lambda>seed.
       Inr \<lparr>sk_keyID = uuid, sk_priv = NewKeyFromSeed cr seed, sk_createdAt = format_time ''Z'' now,
            sk_retiredAt = []\<rparr>)"

definition Load :: "Crypto \<Rightarrow> int \<Rightarrow> string \<Rightarrow> byte list \<Rightarrow> string + Record" where
  "Load cr now keyID privateKeyBytes =
     Inr \<lparr>sk_keyID = keyID, sk_priv = NewKeyFromSeed cr privateKeyBytes,
          sk_createdAt = format_time ''Z'' now, sk_retiredAt = []\<rparr>"

definition Retire :: "Record \<Rightarrow> string \<Rightarrow> Record" where
  "Retire r retiredAt = r\<lparr>sk_retiredAt := retiredAt\<rparr>"

definition sk_IsActive :: "Record \<Rightarrow> bool" where
  "sk_IsActive r \<longleftrightarrow> sk_retiredAt r = []"

definition PrivateKeyBytes :: "Record \<Rightarrow> byte list" where
  "PrivateKeyBytes r = take 32 (sk_priv r)"

definition VerifyingKey :: "Record \<Rightarrow> byte list" where
  "VerifyingKey r = drop 32 (sk_priv r)"

definition SigningKey :: "Record \<Rightarrow> byte list" where
  "SigningKey r = sk_priv r"

definition PublicKeyJWK :: "Record \<Rightarrow> (string \<times> json) list" where
  "PublicKeyJWK r =
     [(''kty'', JStr ''OKP''), (''crv'', JStr ''Ed25519''),
      (''x'', JStr (RawURL_EncodeToString (VerifyingKey r)))]"

section \<open>Canonical JSON\<close>

text \<open>\<^verbatim>\<open>json.Marshal\<close> cannot fail on the values that the enforcer passes.\<close>

definition ToCanonicalBytes :: "Crypto \<Rightarrow> json \<Rightarrow> string + byte list" where
  "ToCanonicalBytes cr value = rbind (jcs_Transform cr (json_encode value)) (\<lambda>t. Inr (bytes_of t))"

section \<open>Breach events\<close>

record Event =
  ev_AgentID :: string
  ev_Attester :: string
  ev_AttesterKeyID :: string
  ev_BreachID :: string
  ev_Layer :: string
  ev_SessionID :: string
  ev_Signature :: string
  ev_Timestamp :: string
  ev_TokenClaim :: string
  ev_Violation :: string

definition New :: "string \<Rightarrow> int \<Rightarrow> string \<Rightarrow> string \<Rightarrow> string \<Rightarrow> string \<Rightarrow> Event" where
  "New uuid now sessionID agentID violation attesterKeyID =
     \<lparr>ev_AgentID = agentID, ev_Attester = ''warden-enforcer'', ev_AttesterKeyID = attesterKeyID,
      ev_BreachID = uuid, ev_Layer = ''network'', ev_SessionID = sessionID, ev_Signature = [],
      ev_Timestamp = format_time ''+00:00'' now, ev_TokenClaim = ''targets'', ev_Violation = violation\<rparr>"

text \<open>\<^verbatim>\<open>json.Marshal\<close> of an event: its members in the order of the struct.\<close>

definition event_members :: "Event \<Rightarrow> (string \<times> string) list" where
  "event_members e =
     [(''agent_id'', ev_AgentID e), (''attester'', ev_Attester e), (''attester_key_id'', ev_AttesterKeyID e),
      (''breach_id'', ev_BreachID e), (''layer'', ev_Layer e), (''session_id'', ev_SessionID e),
      (''signature'', ev_Signature e), (''timestamp'', ev_Timestamp e), (''token_claim'', ev_TokenClaim e),
      (''violation'', ev_Violation e)]"

definition string_members :: "(string \<times> string) list \<Rightarrow> (string \<times> json) list" where
  "string_members ms = map (\<lambda>(k, s). (k, JStr s)) ms"

definition event_json :: "Event \<Rightarrow> json" where
  "event_json e = JObj (string_members (event_members e))"

text \<open>A JSON object read into a Go map: the last of equal keys counts.\<close>

definition go_map :: "(string \<times> json) list \<Rightarrow> (string \<times> json) list" where
  "go_map ms = AList.clearjunk (rev ms)"

definition signableBytes :: "Crypto \<Rightarrow> Event \<Rightarrow> string + byte list" where
  "signableBytes cr e =
     (case json_parse_all (json_encode (event_json e)) of
        Some (JObj ms) \<Rightarrow> ToCanonicalBytes cr (json_map (AList.delete ''signature'' (go_map ms)))
      | _ \<Rightarrow> Inl ''json'')"

definition Sign :: "Crypto \<Rightarrow> Event \<Rightarrow> byte list \<Rightarrow> string + Event" where
  "Sign cr e signingKey =
     rbind (signableBytes cr e) (\<lambda>msg.
       Inr (e\<lparr>ev_Signature := RawURL_EncodeToString (ed_Sign cr signingKey msg)\<rparr>))"

definition ed_SignatureSize :: nat where
  "ed_SignatureSize = 64"

definition Verify :: "Crypto \<Rightarrow> Event \<Rightarrow> byte list \<Rightarrow> bool" where
  "Verify cr e verifyingKey =
     (case RawURL_DecodeString (ev_Signature e) of
        Inl _ \<Rightarrow> False
      | Inr sig \<Rightarrow>
        length sig = ed_SignatureSize \<and>
        (case signableBytes cr e of
           Inl _ \<Rightarrow> False
         | Inr msg \<Rightarrow> ed_Verify cr verifyingKey msg sig))"

definition RekorPayload :: "Event \<Rightarrow> json" where
  "RekorPayload e =
     json_map (string_members
       [(''agent_id'', ev_AgentID e), (''attester'', ev_Attester e), (''attester_key_id'', ev_AttesterKeyID e),
        (''breach_id'', ev_BreachID e), (''layer'', ev_Layer e), (''session_id'', ev_SessionID e),
        (''signature'', ev_Signature e), (''timestamp'', ev_Timestamp e)])"

section \<open>What the theorems rely on\<close>

text \<open>Ed25519 (RFC 8032): public keys have 32 bytes and signatures 64, and a signature made with a private key
  verifies under its public key.\<close>

definition ed25519_correct :: "Crypto \<Rightarrow> bool" where
  "ed25519_correct cr \<longleftrightarrow>
     (\<forall>seed. length seed = 32 \<longrightarrow> length (ed_public cr seed) = 32 \<and>
        (\<forall>msg. length (ed_Sign cr (seed @ ed_public cr seed) msg) = 64 \<and>
           ed_Verify cr (ed_public cr seed) msg (ed_Sign cr (seed @ ed_public cr seed) msg)))"

text \<open>JCS (RFC 8785) on a printed object of strings whose keys are in order: it succeeds, and objects
  with different strings have different canonical texts.\<close>

definition ordered_keys :: "(string \<times> string) list \<Rightarrow> bool" where
  "ordered_keys ms \<longleftrightarrow> sorted (map fst ms) \<and> distinct (map fst ms) \<and> (\<forall>k\<in>fst ` set ms. valid_utf8 k)"

definition jcs_faithful :: "Crypto \<Rightarrow> bool" where
  "jcs_faithful cr \<longleftrightarrow>
     (\<forall>ms. ordered_keys ms \<longrightarrow> (\<exists>t. jcs_Transform cr (json_encode (JObj (string_members ms))) = Inr t)) \<and>
     (\<forall>ms ns. ordered_keys ms \<longrightarrow> ordered_keys ns \<longrightarrow>
        jcs_Transform cr (json_encode (JObj (string_members ms))) =
          jcs_Transform cr (json_encode (JObj (string_members ns))) \<longrightarrow>
        json_sanitize (JObj (string_members ms)) = json_sanitize (JObj (string_members ns)))"

section \<open>The signed bytes\<close>

lemma sort_key_rev_distinct:
  assumes "sorted (map f xs)" and "distinct (map f xs)"
  shows "sort_key f (rev xs) = xs"
proof (rule properties_for_sort_key)
  fix k
  assume "k \<in> set xs"
  have "filter (\<lambda>x. f k = f x) xs = [k]"
    using assms(2) \<open>k \<in> set xs\<close>
    by (induction xs) (auto simp: filter_empty_conv, metis imageI)
  then show "filter (\<lambda>x. f k = f x) xs = filter (\<lambda>x. f k = f x) (rev xs)"
    by (simp flip: rev_filter)
qed (use assms in simp_all)

lemma go_map_sorted:
  assumes "sorted (map fst ms)" and "distinct (map fst ms)"
  shows "json_map (AList.delete k (go_map ms)) = JObj (filter (\<lambda>m. fst m \<noteq> k) ms)"
proof -
  have "AList.delete k (go_map ms) = rev (filter (\<lambda>m. fst m \<noteq> k) ms)"
    using assms(2) by (simp add: go_map_def distinct_clearjunk_id [of "rev ms"] rev_map [symmetric] AList.delete_eq rev_filter case_prod_unfold eq_commute)
  moreover have "sort_key fst (rev (filter (\<lambda>m. fst m \<noteq> k) ms)) = filter (\<lambda>m. fst m \<noteq> k) ms"
    using assms by (intro sort_key_rev_distinct) (simp_all add: sorted_filter distinct_map_filter)
  ultimately show ?thesis by (simp add: json_map_def)
qed

definition event_keys :: "string list" where
  "event_keys =
     [''agent_id'', ''attester'', ''attester_key_id'', ''breach_id'', ''layer'', ''session_id'', ''signature'',
      ''timestamp'', ''token_claim'', ''violation'']"

lemma event_members_keys: "map fst (event_members e) = event_keys"
  by (simp add: event_keys_def event_members_def)

lemma event_keys_ordered: "sorted event_keys" "distinct event_keys"
  "list_all (list_all (\<lambda>c. (of_char c :: nat) < 0x80)) event_keys"
  by code_simp+

text \<open>The members that a signature covers.\<close>

definition covered :: "Event \<Rightarrow> (string \<times> string) list" where
  "covered e = filter (\<lambda>m. fst m \<noteq> ''signature'') (event_members e)"

definition sanitized :: "(string \<times> string) list \<Rightarrow> (string \<times> string) list" where
  "sanitized ms = map (\<lambda>(k, s). (k, utf8_sanitize s)) ms"

lemma ToCanonicalBytes_eq_iff:
  "ToCanonicalBytes cr v = ToCanonicalBytes cr w \<longleftrightarrow>
     jcs_Transform cr (json_encode v) = jcs_Transform cr (json_encode w)"
  by (cases "jcs_Transform cr (json_encode v)"; cases "jcs_Transform cr (json_encode w)")
    (simp_all add: ToCanonicalBytes_def)

lemma string_members_no_num: "no_num (JObj (string_members ms))"
  by (auto simp: string_members_def list_all_iff)

lemma string_members_depth: "json_depth (JObj (string_members ms)) = 1"
  by (induction ms) (auto simp: string_members_def)

lemma sanitize_string_members:
  "\<forall>k\<in>fst ` set ms. valid_utf8 k \<Longrightarrow>
     json_sanitize (JObj (string_members ms)) = JObj (string_members (sanitized ms))"
  by (auto simp: string_members_def sanitized_def valid_utf8_def)

lemma parse_string_members:
  assumes "\<forall>k\<in>fst ` set ms. valid_utf8 k" and "list_all is_ws r"
  shows "json_parse_all (json_encode (JObj (string_members ms)) @ r) = Some (JObj (string_members (sanitized ms)))"
  using json_roundtrip_all [OF string_members_no_num _ assms(2), of ms]
  unfolding sanitize_string_members [OF assms(1)] string_members_depth by (simp add: maxNestingDepth_def)

lemma event_keys_valid: "\<forall>k\<in>fst ` set (event_members e). valid_utf8 k"
proof -
  have "fst ` set (event_members e) = set event_keys"
    using event_members_keys [of e] by (metis list.set_map)
  then show ?thesis
    using event_keys_ordered(3) by (auto simp: valid_utf8_def list_all_iff utf8_sanitize_ascii)
qed

lemma sanitized_keys [simp]: "map fst (sanitized ms) = map fst ms"
  by (auto simp: sanitized_def)

lemma sanitized_key_set [simp]: "fst ` set (sanitized ms) = fst ` set ms"
  by (metis list.set_map sanitized_keys)

lemma filter_string_members:
  "filter (\<lambda>m. fst m \<noteq> k) (string_members ms) = string_members (filter (\<lambda>m. fst m \<noteq> k) ms)"
  by (auto simp: string_members_def filter_map comp_def case_prod_unfold)

lemma filter_sanitized: "filter (\<lambda>m. fst m \<noteq> k) (sanitized ms) = sanitized (filter (\<lambda>m. fst m \<noteq> k) ms)"
  by (auto simp: sanitized_def filter_map comp_def case_prod_unfold)

lemma string_members_keys [simp]: "map fst (string_members ms) = map fst ms"
  by (auto simp: string_members_def)

lemma signableBytes_eq: "signableBytes cr e = ToCanonicalBytes cr (JObj (string_members (sanitized (covered e))))"
proof -
  let ?ms = "string_members (sanitized (event_members e))"
  have "json_parse_all (json_encode (event_json e)) = Some (JObj ?ms)"
    using parse_string_members [OF event_keys_valid, of "[]" e] by (simp add: event_json_def)
  moreover have "json_map (AList.delete ''signature'' (go_map ?ms)) = JObj (filter (\<lambda>m. fst m \<noteq> ''signature'') ?ms)"
    using event_keys_ordered(1,2) by (intro go_map_sorted) (simp_all only: string_members_keys sanitized_keys event_members_keys)
  ultimately show ?thesis
    by (simp add: signableBytes_def filter_string_members filter_sanitized covered_def)
qed

lemma covered_ordered: "ordered_keys (sanitized (covered e))"
proof -
  have keys: "map fst (covered e) = filter (\<lambda>k. k \<noteq> ''signature'') event_keys"
    by (simp add: covered_def filter_map comp_def flip: event_members_keys [of e])
  have "sorted (map fst (covered e))" "distinct (map fst (covered e))"
    unfolding keys using event_keys_ordered(1,2) by (simp_all add: sorted_wrt_filter)
  moreover have "\<forall>k\<in>fst ` set (covered e). valid_utf8 k"
    using event_keys_valid [of e] by (auto simp: covered_def)
  ultimately show ?thesis
    by (simp add: ordered_keys_def)
qed

lemma signableBytes_ignores_signature [simp]: "signableBytes cr (e\<lparr>ev_Signature := x\<rparr>) = signableBytes cr e"
  by (simp add: signableBytes_eq covered_def event_members_def)

section \<open>Properties\<close>

definition valid_event :: "Event \<Rightarrow> bool" where
  "valid_event e \<longleftrightarrow> list_all valid_utf8 (map snd (event_members e))"

lemma sanitized_valid: "list_all valid_utf8 (map snd ms) \<Longrightarrow> sanitized ms = ms"
  by (induction ms) (auto simp: sanitized_def valid_utf8_def)

lemma covered_valid: "valid_event e \<Longrightarrow> sanitized (covered e) = covered e"
  by (intro sanitized_valid) (auto simp: valid_event_def covered_def list_all_iff)

lemma covered_eq_iff: "covered e = covered e' \<longleftrightarrow> e\<lparr>ev_Signature := []\<rparr> = e'\<lparr>ev_Signature := []\<rparr>"
  by (cases e; cases e') (auto simp: covered_def event_members_def)

lemma string_members_inj: "string_members ms = string_members ns \<longleftrightarrow> ms = ns"
proof
  assume "string_members ms = string_members ns"
  then have "map (\<lambda>(k, v). (k, case v of JStr s \<Rightarrow> s | _ \<Rightarrow> [])) (string_members ms) =
      map (\<lambda>(k, v). (k, case v of JStr s \<Rightarrow> s | _ \<Rightarrow> [])) (string_members ns)"
    by simp
  then show "ms = ns"
    by (simp add: string_members_def comp_def case_prod_unfold)
qed simp

lemma sanitized_idem [simp]: "sanitized (sanitized ms) = sanitized ms"
  by (auto simp: sanitized_def)

lemma signableBytes_eq_iff:
  assumes "jcs_faithful cr"
  shows "signableBytes cr e = signableBytes cr e' \<longleftrightarrow> sanitized (covered e) = sanitized (covered e')"
proof
  let ?j = "\<lambda>e. JObj (string_members (sanitized (covered e)))"
  assume "signableBytes cr e = signableBytes cr e'"
  then have "jcs_Transform cr (json_encode (?j e)) = jcs_Transform cr (json_encode (?j e'))"
    unfolding signableBytes_eq ToCanonicalBytes_eq_iff .
  then have "json_sanitize (?j e) = json_sanitize (?j e')"
    using assms covered_ordered [of e] covered_ordered [of e'] unfolding jcs_faithful_def by blast
  moreover have "json_sanitize (?j x) = ?j x" for x
    using sanitize_string_members [of "sanitized (covered x)"] covered_ordered [of x]
    unfolding ordered_keys_def sanitized_idem by blast
  ultimately have "string_members (sanitized (covered e)) = string_members (sanitized (covered e'))"
    by (metis json.inject(5))
  then show "sanitized (covered e) = sanitized (covered e')"
    by (simp add: string_members_inj)
qed (simp add: signableBytes_eq)

lemma signableBytes_total: "jcs_faithful cr \<Longrightarrow> \<exists>msg. signableBytes cr e = Inr msg"
  using covered_ordered [of e] unfolding jcs_faithful_def signableBytes_eq ToCanonicalBytes_def by (metis rbind.simps(2))

text \<open>A scheme that meets the requirements, for the witnesses: the canonical text is the text itself, and a
  signature is the public key and a digest of the message by position.\<close>

definition example_crypto :: Crypto where
  "example_crypto =
     \<lparr>ed_public = (\<lambda>seed. seed),
      ed_Sign = (\<lambda>priv msg. take 32 (drop 32 priv) @ take 32 (msg @ replicate 32 0)),
      ed_Verify = (\<lambda>pub msg sig. sig = pub @ take 32 (msg @ replicate 32 0)),
      jcs_Transform = (\<lambda>t. Inr t), sha256_Sum = (\<lambda>_. replicate 32 0)\<rparr>"

lemma example_ed25519: "ed25519_correct example_crypto"
  by (auto simp: ed25519_correct_def example_crypto_def min_def)

lemma example_jcs: "jcs_faithful example_crypto"
  unfolding jcs_faithful_def
proof (intro conjI allI impI)
  fix ms ns
  assume "jcs_Transform example_crypto (json_encode (JObj (string_members ms))) =
    jcs_Transform example_crypto (json_encode (JObj (string_members ns)))"
  then have "json_encode (JObj (string_members ms)) = json_encode (JObj (string_members ns))"
    by (simp only: example_crypto_def Crypto.simps sum.inject)
  then show "json_sanitize (JObj (string_members ms)) = json_sanitize (JObj (string_members ns))"
    by (rule json_encode_inj [OF string_members_no_num string_members_no_num, rotated 2])
      (simp_all only: string_members_depth, simp_all add: maxNestingDepth_def)
qed (simp add: example_crypto_def)

text \<open>C12: A signature covers the whole event: two events have the same signed bytes exactly if they agree on every
  field but the signature. So a signature moved to an event that differs in any field, the
  violation included, is checked against other bytes.\<close>

theorem signature_covers_event:
  assumes "jcs_faithful cr" and "valid_event e" and "valid_event e'"
  shows "signableBytes cr e = signableBytes cr e' \<longleftrightarrow> e\<lparr>ev_Signature := []\<rparr> = e'\<lparr>ev_Signature := []\<rparr>"
  using assms by (simp add: signableBytes_eq_iff covered_valid covered_eq_iff)

definition example_event :: Event where
  "example_event = (New ''id'' 0 ''s-1'' ''a'' ''v'' ''k'')\<lparr>ev_Timestamp := ''t''\<rparr>"

lemma example_valid: "valid_event example_event" "valid_event (example_event\<lparr>ev_Violation := ''w''\<rparr>)"
  unfolding valid_event_def list_all_iff valid_utf8_def
  by (code_simp)+

theorem signature_covers_event_witness:
  "signableBytes example_crypto example_event \<noteq>
     signableBytes example_crypto (example_event\<lparr>ev_Violation := ''w''\<rparr>)"
  using signature_covers_event [OF example_jcs example_valid]
  by (simp add: example_event_def New_def)

text \<open>Signing with a loaded key always succeeds and changes the signature field only; the signed event
  verifies under the public key of the same record.\<close>

theorem sign_then_verify:
  assumes "ed25519_correct cr" and "jcs_faithful cr" and "length seed = 32"
    and "Load cr now keyID seed = Inr r"
  shows "\<exists>sig. Sign cr e (SigningKey r) = Inr (e\<lparr>ev_Signature := RawURL_EncodeToString sig\<rparr>) \<and>
    length sig = 64 \<and> Verify cr (e\<lparr>ev_Signature := RawURL_EncodeToString sig\<rparr>) (VerifyingKey r)"
proof -
  obtain msg where msg: "signableBytes cr e = Inr msg"
    using signableBytes_total [OF assms(2)] by blast
  have r: "SigningKey r = seed @ ed_public cr seed" "VerifyingKey r = ed_public cr seed"
    using assms(3,4) by (auto simp: Load_def SigningKey_def VerifyingKey_def NewKeyFromSeed_def)
  let ?sig = "ed_Sign cr (SigningKey r) msg"
  have sig: "length ?sig = 64" "ed_Verify cr (VerifyingKey r) msg ?sig"
    using assms(1,3) unfolding r ed25519_correct_def by simp_all
  show ?thesis
    by (intro exI [of _ ?sig]) (simp add: Sign_def msg sig Verify_def RawURL_roundtrip ed_SignatureSize_def)
qed

theorem sign_then_verify_witness:
  "\<exists>e r. Load example_crypto 0 ''k'' (replicate 32 7) = Inr r \<and>
     Sign example_crypto example_event (SigningKey r) = Inr e \<and> Verify example_crypto e (VerifyingKey r)"
proof -
  obtain r where r: "Load example_crypto 0 ''k'' (replicate 32 7) = Inr r"
    by (simp add: Load_def)
  with sign_then_verify [OF example_ed25519 example_jcs _ r, of example_event] show ?thesis
    by auto
qed

text \<open>C27: The payload for the public log has exactly eight members, the violation and the token claim are not among
  them, and it reveals nothing about them directly: two events have the same payload exactly if they agree on
  the eight fields, whatever the other two are.\<close>

theorem rekor_payload_reduced:
  "(\<exists>vs. RekorPayload e = JObj (zip [''agent_id'', ''attester'', ''attester_key_id'', ''breach_id'', ''layer'',
      ''session_id'', ''signature'', ''timestamp''] (map JStr vs)) \<and> length vs = 8) \<and>
   (RekorPayload e = RekorPayload e' \<longleftrightarrow>
     e\<lparr>ev_TokenClaim := [], ev_Violation := []\<rparr> = e'\<lparr>ev_TokenClaim := [], ev_Violation := []\<rparr>)"
proof -
  have sorted: "sorted [''agent_id'', ''attester'', ''attester_key_id'', ''breach_id'', ''layer'',
      ''session_id'', ''signature'', ''timestamp'']"
    by code_simp
  have payload: "RekorPayload x = JObj (zip [''agent_id'', ''attester'', ''attester_key_id'', ''breach_id'', ''layer'',
      ''session_id'', ''signature'', ''timestamp''] (map JStr [ev_AgentID x, ev_Attester x, ev_AttesterKeyID x,
      ev_BreachID x, ev_Layer x, ev_SessionID x, ev_Signature x, ev_Timestamp x]))" for x
    unfolding RekorPayload_def json_map_def
    by (subst sort_key_id_if_sorted) (use sorted in \<open>simp_all add: string_members_def\<close>)
  show ?thesis
    by (cases e; cases e') (auto simp: payload intro!: exI [of _ "[ev_AgentID e, ev_Attester e, ev_AttesterKeyID e,
      ev_BreachID e, ev_Layer e, ev_SessionID e, ev_Signature e, ev_Timestamp e]"])
qed

text \<open>A key that was persisted is loaded back: loading the private bytes of any key that was generated or
  loaded gives the same private and public key, and the record is active until it is retired.\<close>

theorem key_reload:
  assumes "length seed = 32" and "Load cr now keyID seed = Inr r \<or> Generate cr (Inr seed) keyID now = Inr r"
  shows "PrivateKeyBytes r = seed \<and> VerifyingKey r = ed_public cr seed \<and> sk_IsActive r \<and>
    (\<exists>r'. Load cr now' keyID (PrivateKeyBytes r) = Inr r' \<and> SigningKey r' = SigningKey r \<and> sk_keyID r' = sk_keyID r) \<and>
    (\<forall>t. SigningKey (Retire r t) = SigningKey r \<and> (sk_IsActive (Retire r t) \<longleftrightarrow> t = []))"
  using assms by (auto simp: Load_def Generate_def PrivateKeyBytes_def VerifyingKey_def SigningKey_def
      NewKeyFromSeed_def Retire_def sk_IsActive_def)

theorem key_reload_witness:
  "\<exists>r. Load example_crypto 0 ''k'' (replicate 32 7) = Inr r \<and> PrivateKeyBytes r = replicate 32 7"
proof -
  obtain r where r: "Load example_crypto 0 ''k'' (replicate 32 7) = Inr r"
    by (simp add: Load_def)
  with key_reload [of "replicate 32 7" example_crypto 0 "''k''" r] show ?thesis by simp
qed

end
