(* ===== verification/Outbox.thy ===== *)
theory Outbox
  imports Attest
begin

text \<open>
  Package \<^verbatim>\<open>outbox\<close> (\<^verbatim>\<open>enforcer/internal/outbox/outbox.go\<close>): the append-only spool of signed events and the
  submitter that drains it into the transparency log behind a checkpoint. The files are the bytes
  of the spool, how many of them are durable, and the text of the checkpoint file. What the
  operating system answers is an argument of the operation: how much of a write was done, whether
  a sync or the replacement of the checkpoint succeeded. What the log answers is a function of the submissions
  made so far. The theory shows that every line of the spool is read back; the guarantees over crashes
  and drains are in \<open>OutboxSafety\<close>.
\<close>

section \<open>Entries\<close>

record Entry =
  en_Event :: Event
  en_SecondSig :: string
  en_PublicKeyPEM :: string
  en_PayloadSHA256 :: string

definition ReducedPayload :: "Crypto \<Rightarrow> Entry \<Rightarrow> string + byte list" where
  "ReducedPayload cr e = ToCanonicalBytes cr (RekorPayload (en_Event e))"

definition entry_json :: "Entry \<Rightarrow> json" where
  "entry_json e =
     JObj [(''event'', event_json (en_Event e)), (''second_sig'', JStr (en_SecondSig e)),
           (''public_key_pem'', JStr (en_PublicKeyPEM e)), (''payload_sha256'', JStr (en_PayloadSHA256 e))]"

text \<open>\<^verbatim>\<open>json.Unmarshal\<close> into a string, an event and an entry. The values are those that the input has for the
  field, in order; null leaves the field as it is; a value of another type is an error.\<close>

fun into_string :: "string \<Rightarrow> json list \<Rightarrow> string option" where
  "into_string s [] = Some s"
| "into_string s (JNull # vs) = into_string s vs"
| "into_string s (JStr t # vs) = into_string t vs"
| "into_string s (v # vs) = None"

definition into_event :: "Event \<Rightarrow> (string \<times> json) list \<Rightarrow> Event option" where
  "into_event e ms =
     (let field = (\<lambda>f get. into_string (get e) (field_values event_keys f ms)) in
      Option.bind (field ''agent_id'' ev_AgentID) (\<lambda>a.
      Option.bind (field ''attester'' ev_Attester) (\<lambda>b.
      Option.bind (field ''attester_key_id'' ev_AttesterKeyID) (\<lambda>c.
      Option.bind (field ''breach_id'' ev_BreachID) (\<lambda>d.
      Option.bind (field ''layer'' ev_Layer) (\<lambda>l.
      Option.bind (field ''session_id'' ev_SessionID) (\<lambda>s.
      Option.bind (field ''signature'' ev_Signature) (\<lambda>g.
      Option.bind (field ''timestamp'' ev_Timestamp) (\<lambda>t.
      Option.bind (field ''token_claim'' ev_TokenClaim) (\<lambda>k.
      Option.bind (field ''violation'' ev_Violation) (\<lambda>v.
        Some \<lparr>ev_AgentID = a, ev_Attester = b, ev_AttesterKeyID = c, ev_BreachID = d, ev_Layer = l,
              ev_SessionID = s, ev_Signature = g, ev_Timestamp = t, ev_TokenClaim = k,
              ev_Violation = v\<rparr>)))))))))))"

fun into_events :: "Event \<Rightarrow> json list \<Rightarrow> Event option" where
  "into_events e [] = Some e"
| "into_events e (JNull # vs) = into_events e vs"
| "into_events e (JObj ms # vs) = Option.bind (into_event e ms) (\<lambda>e'. into_events e' vs)"
| "into_events e (v # vs) = None"

definition zero_event :: Event where
  "zero_event = \<lparr>ev_AgentID = [], ev_Attester = [], ev_AttesterKeyID = [], ev_BreachID = [], ev_Layer = [],
     ev_SessionID = [], ev_Signature = [], ev_Timestamp = [], ev_TokenClaim = [], ev_Violation = []\<rparr>"

definition entry_keys :: "string list" where
  "entry_keys = [''event'', ''second_sig'', ''public_key_pem'', ''payload_sha256'']"

definition entry_of_json :: "json \<Rightarrow> Entry option" where
  "entry_of_json v =
     (case v of
        JNull \<Rightarrow> Some \<lparr>en_Event = zero_event, en_SecondSig = [], en_PublicKeyPEM = [], en_PayloadSHA256 = []\<rparr>
      | JObj ms \<Rightarrow>
        Option.bind (into_events zero_event (field_values entry_keys ''event'' ms)) (\<lambda>e.
        Option.bind (into_string [] (field_values entry_keys ''second_sig'' ms)) (\<lambda>s.
        Option.bind (into_string [] (field_values entry_keys ''public_key_pem'' ms)) (\<lambda>p.
        Option.bind (into_string [] (field_values entry_keys ''payload_sha256'' ms)) (\<lambda>h.
          Some \<lparr>en_Event = e, en_SecondSig = s, en_PublicKeyPEM = p, en_PayloadSHA256 = h\<rparr>))))
      | _ \<Rightarrow> None)"

definition read_entry :: "string \<Rightarrow> Entry option" where
  "read_entry line = Option.bind (json_parse_all line) entry_of_json"

section \<open>The spool\<close>

text \<open>The bytes of the spool file, the number of them that are known to be on disk, and the text of the
  checkpoint file.\<close>

record Spool =
  sp_data :: string
  sp_synced :: nat
  sp_ckpt :: "string option"

abbreviation newline :: char where
  "newline \<equiv> CHR 0x0A"

definition entry_line :: "Entry \<Rightarrow> string" where
  "entry_line e = json_encode (entry_json e) @ [newline]"

text \<open>\<^verbatim>\<open>Append\<close>. \<open>Some n\<close>: the write failed after \<open>n\<close> bytes. The result tells whether the entry was acknowledged.\<close>

definition Append :: "nat option \<Rightarrow> bool \<Rightarrow> Spool \<Rightarrow> Entry \<Rightarrow> bool \<times> Spool" where
  "Append written sync_ok sp e =
     (case written of
        Some n \<Rightarrow> (False, sp\<lparr>sp_data := sp_data sp @ take n (entry_line e)\<rparr>)
      | None \<Rightarrow>
        let sp' = sp\<lparr>sp_data := sp_data sp @ entry_line e\<rparr> in
        if sync_ok then (True, sp'\<lparr>sp_synced := length (sp_data sp')\<rparr>) else (False, sp'))"

text \<open>\<^verbatim>\<open>truncateTornTail\<close>: back to after the last line break.\<close>

definition truncateTornTail :: "string \<Rightarrow> string" where
  "truncateTornTail raw =
     (if raw = [] \<or> last raw = newline then raw
      else rev (dropWhile (\<lambda>c. c \<noteq> newline) (rev raw)))"

text \<open>\<^verbatim>\<open>Open\<close>, with the answers to making the directory, reading, truncating and opening the file. A missing file
  has no bytes.\<close>

record OpenEnv =
  oe_mkdir :: bool
  oe_read :: bool
  oe_truncate :: bool
  oe_open :: bool

definition Open :: "OpenEnv \<Rightarrow> Spool \<Rightarrow> bool \<times> Spool" where
  "Open env sp =
     (if \<not> oe_mkdir env \<or> \<not> oe_read env then (False, sp)
      else
        let data = truncateTornTail (sp_data sp) in
        if data \<noteq> sp_data sp \<and> \<not> oe_truncate env then (False, sp)
        else (oe_open env, sp\<lparr>sp_data := data, sp_synced := min (sp_synced sp) (length data)\<rparr>))"

text \<open>A crash keeps what is on disk and any part of what was written after it.\<close>

definition crash :: "nat \<Rightarrow> Spool \<Rightarrow> Spool" where
  "crash n sp =
     (let data = take (max (sp_synced sp) n) (sp_data sp)
      in sp\<lparr>sp_data := data, sp_synced := length data\<rparr>)"

text \<open>\<^verbatim>\<open>Record\<close>: an entry with the offset after it.\<close>

type_synonym spool_record = "Entry \<times> int"

text \<open>The loop of \<^verbatim>\<open>ReadFrom\<close> on the rest of the file: the records, and the offset of a corrupt line.\<close>

function read_lines :: "int \<Rightarrow> string \<Rightarrow> spool_record list \<times> int option" where
  "read_lines off s =
     (if newline \<in> set s then
        let line = takeWhile (\<lambda>c. c \<noteq> newline) s @ [newline] in
        case read_entry line of
          None \<Rightarrow> ([], Some off)
        | Some e \<Rightarrow>
          let off' = off + int (length line);
              (recs, err) = read_lines off' (drop (length line) s)
          in ((e, off') # recs, err)
      else ([], None))"
  by pat_completeness auto
termination
  by (relation "measure (\<lambda>(off, s). length s)") (auto intro!: diff_less simp: length_pos_if_in_set)

declare read_lines.simps [simp del]

text \<open>\<^verbatim>\<open>ReadFrom\<close>, with what the operating system answers to opening and reading the file: opening fails, all bytes are
  read, or reading fails after \<open>n\<close> bytes. Seeking to a negative offset is an error, seeking past the end is not.
  Like the code, which stops at any error of \<^verbatim>\<open>ReadBytes\<close>, it takes a failed read for the end of the file.\<close>

datatype read_answer = OpenFails | ReadsAll | ReadsOnly nat

fun bytes_read :: "read_answer \<Rightarrow> string \<Rightarrow> string" where
  "bytes_read OpenFails s = []"
| "bytes_read ReadsAll s = s"
| "bytes_read (ReadsOnly n) s = take n s"

datatype read_error = OpenError | SeekError | CorruptLine int

definition ReadFrom :: "read_answer \<Rightarrow> Spool \<Rightarrow> int \<Rightarrow> spool_record list \<times> read_error option" where
  "ReadFrom ra sp off =
     (if ra = OpenFails then ([], Some OpenError)
      else if off < 0 then ([], Some SeekError)
      else case read_lines off (bytes_read ra (drop (nat off) (sp_data sp))) of
        (recs, err) \<Rightarrow> (recs, map_option CorruptLine err))"

text \<open>\<^verbatim>\<open>strconv.ParseInt\<close> for 64 bits, and \<^verbatim>\<open>strconv.FormatInt\<close>.\<close>

definition strconv_ParseInt :: "string \<Rightarrow> num_error + int" where
  "strconv_ParseInt s =
     (case s of
        [] \<Rightarrow> Inl ErrSyntax
      | c # r \<Rightarrow>
        let (neg, digits) = (if c = CHR ''+'' then (False, r) else if c = CHR ''-'' then (True, r) else (False, s)) in
        rbind (strconv_ParseUint digits 64) (\<lambda>un.
          if \<not> neg \<and> 2 ^ 63 \<le> un then Inl ErrRange
          else if neg \<and> 2 ^ 63 < un then Inl ErrRange
          else Inr (if neg then - int un else int un)))"

definition strconv_FormatInt :: "int \<Rightarrow> string" where
  "strconv_FormatInt n = (if n < 0 then ''-'' @ format_dec (nat (- n)) else format_dec (nat n))"

text \<open>\<^verbatim>\<open>Checkpoint\<close>: \<open>readable\<close> tells whether the file, or that it is missing, could be read.\<close>

datatype ckpt_error = CkptUnreadable | CkptCorrupt num_error

definition Checkpoint :: "bool \<Rightarrow> Spool \<Rightarrow> ckpt_error + int" where
  "Checkpoint readable sp =
     (if \<not> readable then Inl CkptUnreadable
      else case sp_ckpt sp of
        None \<Rightarrow> Inr 0
      | Some raw \<Rightarrow>
        (case strconv_ParseInt (strings_TrimSpace raw) of
           Inl err \<Rightarrow> Inl (CkptCorrupt err)
         | Inr off \<Rightarrow> Inr off))"

text \<open>\<^verbatim>\<open>SetCheckpoint\<close>: the file is replaced by a rename, or not at all.\<close>

definition SetCheckpoint :: "bool \<Rightarrow> Spool \<Rightarrow> int \<Rightarrow> bool \<times> Spool" where
  "SetCheckpoint ok sp off =
     (if ok then (True, sp\<lparr>sp_ckpt := Some (strconv_FormatInt off)\<rparr>) else (False, sp))"

section \<open>The submitter\<close>

text \<open>A submission: content, signature, public key. The log answers a submission given those made so far; \<open>fs\<close>
  tells whether writing the checkpoint for an offset succeeds, and \<open>read\<close> what reading the spool does. The state is the
  spool and the history of submissions with their answers.\<close>

type_synonym submission = "byte list \<times> byte list \<times> string"
type_synonym history = "(submission \<times> bool) list"

record World =
  w_log :: "history \<Rightarrow> submission \<Rightarrow> bool"
  w_fs :: "history \<Rightarrow> int \<Rightarrow> bool"
  w_read :: "history \<Rightarrow> read_answer"

fun drain_loop ::
  "Crypto \<Rightarrow> World \<Rightarrow> spool_record list \<Rightarrow> int \<Rightarrow> Spool \<times> history \<Rightarrow> (int \<times> bool) \<times> Spool \<times> history" where
  "drain_loop cr w [] off st = ((off, True), st)"
| "drain_loop cr w ((e, next) # recs) off (sp, h) =
     (case ReducedPayload cr e of
        Inl _ \<Rightarrow> ((off, False), sp, h)
      | Inr reduced \<Rightarrow>
        (case RawURL_DecodeString (en_SecondSig e) of
           Inl _ \<Rightarrow> ((off, False), sp, h)
         | Inr sig \<Rightarrow>
           let s = (reduced, sig, en_PublicKeyPEM e);
               ok = w_log w h s;
               h' = h @ [(s, ok)]
           in if \<not> ok then ((off, False), sp, h')
              else case SetCheckpoint (w_fs w h' next) sp next of
                (False, sp') \<Rightarrow> ((next, False), sp', h')
              | (True, sp') \<Rightarrow> drain_loop cr w recs next (sp', h')))"

definition drainOnce ::
  "Crypto \<Rightarrow> World \<Rightarrow> int \<Rightarrow> Spool \<times> history \<Rightarrow> (int \<times> bool) \<times> Spool \<times> history" where
  "drainOnce cr w off st =
     (case ReadFrom (w_read w (snd st)) (fst st) off of
        (_, Some _) \<Rightarrow> ((off, False), st)
      | (recs, None) \<Rightarrow> drain_loop cr w recs off st)"

text \<open>\<^verbatim>\<open>Run\<close>: the offset to start from, and one turn of its loop. The second part of the result is the new retry
  delay in seconds and whether the loop now sleeps for the old one (\<open>False\<close>: it waits for a kick).\<close>

definition run_start :: "bool \<Rightarrow> Spool \<Rightarrow> int" where
  "run_start readable sp = (case Checkpoint readable sp of Inl _ \<Rightarrow> 0 | Inr off \<Rightarrow> off)"

definition backoffMin :: nat where "backoffMin = 1"
definition backoffMax :: nat where "backoffMax = 30"

definition run_turn ::
  "Crypto \<Rightarrow> World \<Rightarrow> int \<times> nat \<Rightarrow> Spool \<times> history \<Rightarrow> (int \<times> nat \<times> bool) \<times> Spool \<times> history" where
  "run_turn cr w ob st =
     (case ob of (off, backoff) \<Rightarrow>
      case drainOnce cr w off st of ((newOff, ok), st') \<Rightarrow>
        if ok then ((newOff, backoffMin, False), st')
        else ((newOff, min (backoff * 2) backoffMax, True), st'))"

section \<open>Round trip of the spool\<close>

definition valid_entry :: "Entry \<Rightarrow> bool" where
  "valid_entry e \<longleftrightarrow> valid_event (en_Event e) \<and> valid_utf8 (en_SecondSig e) \<and>
     valid_utf8 (en_PublicKeyPEM e) \<and> valid_utf8 (en_PayloadSHA256 e)"

lemma event_json_no_num [simp]: "no_num (event_json e)" "json_depth (event_json e) = 1"
  unfolding event_json_def by (rule string_members_no_num string_members_depth)+

lemma entry_json_no_num [simp]: "no_num (entry_json e)" "json_depth (entry_json e) = 2"
  by (simp_all add: entry_json_def)

lemma event_json_valid: "valid_event e \<Longrightarrow> json_sanitize (event_json e) = event_json e"
  using sanitize_string_members [OF event_keys_valid, of e]
  unfolding event_json_def valid_event_def by (simp add: sanitized_valid)

lemma entry_keys_ascii: "utf8_sanitize ''event'' = ''event''" "utf8_sanitize ''second_sig'' = ''second_sig''"
  "utf8_sanitize ''public_key_pem'' = ''public_key_pem''" "utf8_sanitize ''payload_sha256'' = ''payload_sha256''"
  by (simp_all add: utf8_sanitize_ascii)

lemma entry_json_valid: "valid_entry e \<Longrightarrow> json_sanitize (entry_json e) = entry_json e"
  by (simp add: entry_json_def valid_entry_def event_json_valid entry_keys_ascii valid_utf8_def)

lemma field_values_exact:
  "fst ` set ms \<subseteq> set names \<Longrightarrow> field_values names f ms = map snd (filter (\<lambda>m. fst m = f) ms)"
  unfolding field_values_def
  by (rule arg_cong [where f = "map snd"], rule filter_cong) (auto simp: field_of_def)

lemma event_json_keys: "fst ` set (string_members (event_members e)) \<subseteq> set event_keys"
  by (metis event_members_keys list.set_map order_refl string_members_keys)

lemma into_event_json: "into_event e0 (string_members (event_members e)) = Some e"
  unfolding into_event_def field_values_exact [OF event_json_keys]
  by (simp add: event_members_def string_members_def)

lemma entry_of_entry_json: "entry_of_json (entry_json e) = Some e"
proof -
  have "fst ` set [(''event'', event_json (en_Event e)), (''second_sig'', JStr (en_SecondSig e)),
           (''public_key_pem'', JStr (en_PublicKeyPEM e)), (''payload_sha256'', JStr (en_PayloadSHA256 e))] \<subseteq> set entry_keys"
    by (simp add: entry_keys_def)
  note fields = field_values_exact [OF this]
  show ?thesis
    unfolding entry_json_def entry_of_json_def json.case fields
    by (simp add: event_json_def into_event_json)
qed

lemma read_entry_line: "valid_entry e \<Longrightarrow> read_entry (entry_line e) = Some e"
  using json_roundtrip_all [of "entry_json e" "[newline]"]
  by (simp add: read_entry_def entry_line_def entry_json_valid entry_of_entry_json is_ws_def maxNestingDepth_def)

lemma entry_line_one_line: "newline \<notin> set (json_encode (entry_json e))"
  by (rule json_encode_one_line) simp

text \<open>The spool of a list of entries, and the records it holds from an offset on.\<close>

definition spool_text :: "Entry list \<Rightarrow> string" where
  "spool_text es = concat (map entry_line es)"

fun records_from :: "int \<Rightarrow> Entry list \<Rightarrow> spool_record list" where
  "records_from off [] = []"
| "records_from off (e # es) =
     (e, off + int (length (entry_line e))) # records_from (off + int (length (entry_line e))) es"

lemma spool_text_simps [simp]:
  "spool_text [] = []" "spool_text (e # es) = entry_line e @ spool_text es"
  "spool_text (es @ fs) = spool_text es @ spool_text fs"
  by (simp_all add: spool_text_def)

lemma read_lines_tail: "newline \<notin> set s \<Longrightarrow> read_lines off s = ([], None)"
  by (simp add: read_lines.simps [of off s])

lemma read_lines_line:
  assumes "newline \<notin> set l"
  shows "read_lines off (l @ newline # s) =
     (case read_entry (l @ [newline]) of
        None \<Rightarrow> ([], Some off)
      | Some e \<Rightarrow>
        (case read_lines (off + int (length (l @ [newline]))) s of
           (recs, err) \<Rightarrow> ((e, off + int (length (l @ [newline]))) # recs, err)))"
proof -
  have "takeWhile (\<lambda>c. c \<noteq> newline) (l @ newline # s) = l"
    using assms by (induction l) auto
  then show ?thesis
    by (subst read_lines.simps) (simp add: Let_def split: option.split)
qed

lemma read_lines_spool:
  assumes "list_all valid_entry es"
  shows "read_lines off (spool_text es @ s) =
    (case read_lines (off + int (length (spool_text es))) s of (recs, err) \<Rightarrow> (records_from off es @ recs, err))"
  using assms
proof (induction es arbitrary: off)
  case (Cons e es)
  let ?l = "json_encode (entry_json e)"
  have "read_lines off (spool_text (e # es) @ s) = read_lines off (?l @ newline # (spool_text es @ s))"
    by (simp add: entry_line_def)
  also have "\<dots> = (case read_lines (off + int (length (entry_line e))) (spool_text es @ s) of
      (recs, err) \<Rightarrow> ((e, off + int (length (entry_line e))) # recs, err))"
    using read_entry_line [of e] Cons.prems
    by (subst read_lines_line [OF entry_line_one_line]) (simp add: entry_line_def)
  finally show ?case
    using Cons by (simp add: algebra_simps split: prod.splits)
qed simp

end
