(* ===== verification/Float64.thy ===== *)
theory Float64
  imports Prelude "HOL-Library.Log_Nat"
begin

text \<open>
  Go's \<^verbatim>\<open>float64\<close> as far as the rate limiter uses it: a value is a rational number, and the result of an
  operation is the exact result rounded to 53 significant bits, ties to even. Overflow and subnormal
  numbers are outside the range of the values that occur. The theory shows that rounding is monotone,
  exact on integers up to \<open>2 ^ 53\<close>, and off by at most one part in \<open>2 ^ 53\<close>.
\<close>

section \<open>Rounding\<close>

text \<open>The exponent of a positive number: \<open>2 powi ilog2 x \<le> x < 2 powi (ilog2 x + 1)\<close>.\<close>

definition ilog2 :: "rat \<Rightarrow> int" where
  "ilog2 x =
     (case quotient_of x of (p, q) \<Rightarrow>
        let k = int (floorlog 2 (nat p)) - int (floorlog 2 (nat q)) in if 2 powi k \<le> x then k else k - 1)"

definition round_even :: "rat \<Rightarrow> int" where
  "round_even x =
     (let f = \<lfloor>x\<rfloor>; d = x - of_int f in
      if d < 1 / 2 then f else if 1 / 2 < d then f + 1 else if even f then f else f + 1)"

definition float64 :: "rat \<Rightarrow> rat" where
  "float64 x =
     (if x = 0 then 0
      else let u = 2 powi (ilog2 \<bar>x\<bar> - 52) in sgn x * of_int (round_even (\<bar>x\<bar> / u)) * u)"

section \<open>Rounding to an integer\<close>

lemma round_even_cases: "round_even x = \<lfloor>x\<rfloor> \<and> x - of_int \<lfloor>x\<rfloor> \<le> 1 / 2 \<or> round_even x = \<lfloor>x\<rfloor> + 1 \<and> 1 / 2 \<le> x - of_int \<lfloor>x\<rfloor>"
  by (auto simp: round_even_def Let_def)

lemma round_even_bounds: "\<lfloor>x\<rfloor> \<le> round_even x" "round_even x \<le> \<lfloor>x\<rfloor> + 1"
  using round_even_cases [of x] by auto

lemma round_even_of_int [simp]: "round_even (of_int n) = n"
  by (simp add: round_even_def)

lemma round_even_mono: "x \<le> y \<Longrightarrow> round_even x \<le> round_even y"
proof (cases "\<lfloor>x\<rfloor> < \<lfloor>y\<rfloor>")
  case True
  then show ?thesis using round_even_bounds(2) [of x] round_even_bounds(1) [of y] by linarith
next
  case False
  assume "x \<le> y"
  with False have "\<lfloor>y\<rfloor> = \<lfloor>x\<rfloor>" by (simp add: floor_mono antisym)
  with \<open>x \<le> y\<close> show ?thesis by (simp add: round_even_def Let_def)
qed

lemma round_even_le: "of_int (round_even x) \<le> x + 1 / 2"
proof -
  have "of_int (round_even x) \<le> (of_int \<lfloor>x\<rfloor> :: rat) \<or> of_int (round_even x) = (of_int \<lfloor>x\<rfloor> + 1 :: rat) \<and> 1 / 2 \<le> x - of_int \<lfloor>x\<rfloor>"
    using round_even_cases [of x] by auto
  then show ?thesis using of_int_floor_le [of x] by linarith
qed

section \<open>The exponent\<close>

lemma nat_floorlog:
  assumes "0 < n"
  shows "2 powi (int (floorlog 2 n) - 1) \<le> (of_nat n :: rat) \<and> (of_nat n :: rat) < 2 powi int (floorlog 2 n)"
proof -
  have pos: "0 < floorlog 2 n" using assms by (simp add: floorlog_def)
  have "2 ^ (floorlog 2 n - 1) \<le> n" "n < 2 ^ floorlog 2 n"
    using assms floorlog_bounds [of n 2] by simp_all
  then have "(2 :: rat) ^ (floorlog 2 n - 1) \<le> of_nat n" "(of_nat n :: rat) < 2 ^ floorlog 2 n"
    by (metis of_nat_le_iff of_nat_numeral of_nat_power) (metis \<open>n < _\<close> of_nat_less_iff of_nat_numeral of_nat_power)
  moreover have "(2 :: rat) powi (int (floorlog 2 n) - 1) = 2 ^ (floorlog 2 n - 1)"
    using pos by (simp add: power_int_def nat_diff_distrib)
  ultimately show ?thesis by simp
qed

lemma ilog2_bounds:
  assumes "0 < x"
  shows "2 powi ilog2 x \<le> x" and "x < 2 powi (ilog2 x + 1)"
proof -
  obtain p q where pq: "quotient_of x = (p, q)" by fastforce
  have q: "0 < q" and x: "x = of_int p / of_int q"
    using quotient_of_denom_pos [OF pq] quotient_of_div [OF pq] by simp_all
  with assms have p: "0 < p" by (simp add: zero_less_divide_iff)
  let ?a = "int (floorlog 2 (nat p))" and ?b = "int (floorlog 2 (nat q))"
  have P: "2 powi (?a - 1) \<le> (of_int p :: rat)" "(of_int p :: rat) < 2 powi ?a"
    and Q: "2 powi (?b - 1) \<le> (of_int q :: rat)" "(of_int q :: rat) < 2 powi ?b"
    using nat_floorlog [of "nat p"] nat_floorlog [of "nat q"] p q by simp_all
  have "(2 :: rat) powi (?a - ?b - 1) = 2 powi (?a - 1) / 2 powi ?b"
    using power_int_diff [of "2 :: rat" "?a - 1" ?b] by (simp add: algebra_simps)
  also have "\<dots> \<le> x"
    unfolding x using P Q p q by (intro frac_le) simp_all
  finally have low: "2 powi (?a - ?b - 1) \<le> x" .
  have "x < 2 powi ?a / 2 powi (?b - 1)"
    unfolding x using P Q p q by (intro frac_less) simp_all
  also have "\<dots> = 2 powi (?a - ?b + 1)"
    using power_int_diff [of "2 :: rat" ?a "?b - 1"] by (simp add: algebra_simps)
  finally have high: "x < 2 powi (?a - ?b + 1)" .
  show "2 powi ilog2 x \<le> x" "x < 2 powi (ilog2 x + 1)"
    using low high by (auto simp: ilog2_def pq Let_def)
qed

lemma ilog2_mono: "0 < x \<Longrightarrow> x \<le> y \<Longrightarrow> ilog2 x \<le> ilog2 y"
proof (rule ccontr)
  assume xy: "0 < x" "x \<le> y" and "\<not> ilog2 x \<le> ilog2 y"
  then have "(2 :: rat) powi (ilog2 y + 1) \<le> 2 powi ilog2 x"
    by (intro power_int_increasing) simp_all
  with ilog2_bounds [of x] ilog2_bounds [of y] xy show False by simp
qed

lemma powi_52: "(2 :: rat) powi (k - 52) * 2 ^ 52 = 2 powi k"
proof -
  have "(2 :: rat) powi k = 2 powi (k - 52) * 2 powi 52"
    using power_int_add [of "2 :: rat" "k - 52" 52] by simp
  then show ?thesis by (simp del: power_int_add_numeral)
qed

section \<open>Rounding to 53 bits\<close>

lemma float64_pos: "0 < x \<Longrightarrow> float64 x = of_int (round_even (x / 2 powi (ilog2 x - 52))) * 2 powi (ilog2 x - 52)"
  by (simp add: float64_def Let_def)

lemma float64_0 [simp]: "float64 0 = 0"
  by (simp add: float64_def)

lemma scaled_bounds:
  assumes "0 < x"
  shows "2 ^ 52 \<le> x / 2 powi (ilog2 x - 52)" and "x / 2 powi (ilog2 x - 52) \<le> 2 ^ 53"
proof -
  have "2 ^ 52 * 2 powi (ilog2 x - 52) \<le> x"
    using ilog2_bounds(1) [OF assms] powi_52 [of "ilog2 x"] by (simp add: mult.commute)
  then show "2 ^ 52 \<le> x / 2 powi (ilog2 x - 52)" by (simp add: pos_le_divide_eq)
  have "(2 :: rat) powi (ilog2 x + 1) = 2 * 2 powi ilog2 x" by (simp add: power_int_add)
  then have "x \<le> 2 ^ 53 * 2 powi (ilog2 x - 52)"
    using ilog2_bounds(2) [OF assms] powi_52 [of "ilog2 x"] by simp
  then show "x / 2 powi (ilog2 x - 52) \<le> 2 ^ 53" by (simp add: pos_divide_le_eq)
qed

lemma float64_binade:
  assumes "0 < x"
  shows "2 powi ilog2 x \<le> float64 x" and "float64 x \<le> 2 powi (ilog2 x + 1)"
proof -
  let ?u = "(2 :: rat) powi (ilog2 x - 52)"
  have "round_even (of_int (2 ^ 52)) \<le> round_even (x / ?u)" "round_even (x / ?u) \<le> round_even (of_int (2 ^ 53))"
    using scaled_bounds [OF assms] by (intro round_even_mono; simp)+
  then have r: "(2 :: rat) ^ 52 \<le> of_int (round_even (x / ?u))" "of_int (round_even (x / ?u)) \<le> (2 :: rat) ^ 53"
    unfolding round_even_of_int
    by (metis of_int_le_iff of_int_numeral of_int_power)+
  have "2 ^ 52 * ?u \<le> float64 x" "float64 x \<le> 2 ^ 53 * ?u"
    unfolding float64_pos [OF assms] using r by (intro mult_right_mono; simp)+
  moreover have "(2 :: rat) powi (ilog2 x + 1) = 2 * 2 powi ilog2 x" by (simp add: power_int_add)
  ultimately show "2 powi ilog2 x \<le> float64 x" "float64 x \<le> 2 powi (ilog2 x + 1)"
    using powi_52 [of "ilog2 x"] by simp_all
qed

lemma float64_nonneg: "0 \<le> x \<Longrightarrow> 0 \<le> float64 x"
  using float64_binade(1) [of x] zero_le_power_int [of "2 :: rat" "ilog2 x"]
  by (cases "x = 0") (simp, linarith)

lemma float64_mono:
  assumes "0 \<le> x" and "x \<le> y"
  shows "float64 x \<le> float64 y"
proof (cases "x = 0")
  case False
  with assms have pos: "0 < x" "0 < y" by simp_all
  show ?thesis
  proof (cases "ilog2 x = ilog2 y")
    case True
    then show ?thesis
      unfolding float64_pos [OF pos(1)] float64_pos [OF pos(2)] True
      using assms(2) by (simp add: mult_right_mono round_even_mono divide_right_mono)
  next
    case False
    then have "(2 :: rat) powi (ilog2 x + 1) \<le> 2 powi ilog2 y"
      using ilog2_mono [OF pos(1) assms(2)] by (intro power_int_increasing) simp_all
    then show ?thesis
      using float64_binade(2) [OF pos(1)] float64_binade(1) [OF pos(2)] by simp
  qed
qed (use assms in \<open>simp add: float64_nonneg\<close>)

lemma float64_le:
  assumes "0 \<le> x"
  shows "float64 x \<le> x + x / 2 ^ 53"
proof (cases "x = 0")
  case False
  with assms have pos: "0 < x" by simp
  let ?u = "(2 :: rat) powi (ilog2 x - 52)"
  have "float64 x \<le> (x / ?u + 1 / 2) * ?u"
    unfolding float64_pos [OF pos] by (intro mult_right_mono round_even_le) simp
  also have "\<dots> = x + ?u / 2" by (simp add: distrib_right)
  also have "?u / 2 \<le> x / 2 ^ 53"
    using ilog2_bounds(1) [OF pos] powi_52 [of "ilog2 x"] by simp
  finally show ?thesis by simp
qed simp

lemma float64_of_nat:
  assumes "n \<le> 2 ^ 53"
  shows "float64 (of_nat n) = of_nat n"
proof (cases "n = 0")
  case False
  then have pos: "0 < (of_nat n :: rat)" by simp
  let ?e = "ilog2 (of_nat n)"
  have "?e \<le> 53"
  proof (rule ccontr)
    assume "\<not> ?e \<le> 53"
    then have "(2 :: rat) powi 54 \<le> 2 powi ?e" by (intro power_int_increasing) simp_all
    moreover have "(of_nat n :: rat) \<le> 2 ^ 53"
      using assms by (metis of_nat_le_iff of_nat_numeral of_nat_power)
    ultimately show False using ilog2_bounds(1) [OF pos] by simp
  qed
  then consider "?e \<le> 52" | "?e = 53" by linarith
  then show ?thesis
  proof cases
    case 1
    let ?k = "nat (52 - ?e)"
    have "(2 :: rat) powi (?e - 52) = 1 / 2 ^ ?k"
      using 1 by (cases "?e = 52") (simp_all add: power_int_def inverse_eq_divide power_one_over)
    then have "of_nat n / 2 powi (?e - 52) = (of_int (int n * 2 ^ ?k) :: rat)" by simp
    then show ?thesis
      unfolding float64_pos [OF pos] by (metis (no_types, lifting) nonzero_eq_divide_eq power_int_not_zero round_even_of_int zero_neq_numeral)
  next
    case 2
    have "(2 :: rat) ^ 53 \<le> of_nat n" using ilog2_bounds(1) [OF pos] 2 by simp
    then have "2 ^ 53 \<le> n" by (metis of_nat_le_iff of_nat_numeral of_nat_power)
    then have n: "n = 2 ^ 53" using assms by simp
    have "of_nat n / 2 powi (?e - 52) = (of_int (2 ^ 52) :: rat)"
      unfolding 2 using n by simp
    then show ?thesis
      unfolding float64_pos [OF pos] by (metis (no_types, lifting) nonzero_eq_divide_eq power_int_not_zero round_even_of_int zero_neq_numeral)
  qed
qed simp

lemma float64_of_int: "0 \<le> n \<Longrightarrow> n \<le> 2 ^ 53 \<Longrightarrow> float64 (of_int n) = of_int n"
  using float64_of_nat [of "nat n"] by (simp add: nat_le_iff)

lemma ilog2_eq: "2 powi k \<le> x \<Longrightarrow> x < 2 powi (k + 1) \<Longrightarrow> ilog2 x = k"
proof -
  assume k: "2 powi k \<le> x" "x < 2 powi (k + 1)"
  have x: "0 < x" using k(1) zero_less_power_int [of "2 :: rat" k] by linarith
  have "(2 :: rat) powi k < 2 powi (ilog2 x + 1)" "(2 :: rat) powi ilog2 x < 2 powi (k + 1)"
    using ilog2_bounds [OF x] k by linarith+
  then have "k < ilog2 x + 1" "ilog2 x < k + 1"
    by (meson linorder_not_le one_le_numeral power_int_increasing)+
  then show ?thesis by simp
qed

text \<open>The fraction one fifth is rounded up.\<close>

lemma float64_fifth: "1 / 5 \<le> float64 (1 / 5)"
proof -
  have "ilog2 (1 / 5) = - 3" by (rule ilog2_eq) (simp_all add: power_int_def power_divide)
  then have "float64 (1 / 5) = of_int (round_even (36028797018963968 / 5)) / 36028797018963968"
    by (simp add: float64_pos power_int_def power_divide)
  moreover have "round_even (36028797018963968 / 5) = 7205759403792794"
  proof -
    have "\<lfloor>36028797018963968 / 5 :: rat\<rfloor> = 7205759403792793" by (simp add: floor_eq_iff)
    then show ?thesis by (simp add: round_even_def Let_def)
  qed
  ultimately show ?thesis by simp
qed

end
