(* ===== verification/Api.thy ===== *)
theory Api
  imports Sandbox Packet Outbox Float64
begin

text \<open>
  Package \<^verbatim>\<open>api\<close> (\<^verbatim>\<open>enforcer/internal/api/api.go\<close>): the shared state and the five HTTP handlers. Each handler holds
  the one lock from its first access of the state to its end, so it is a function of the state. The backend
  of the sandbox controller is an argument, as in theory \<open>Sandbox\<close>. The wording of two errors of the
  standard library that reach a response body is an argument too (\<open>Texts\<close>). A nil map reads as an empty
  one; the maps that the handlers write are made by \<^verbatim>\<open>main\<close>. The drop consumer of the same package is in
  theory \<open>Drops\<close>.
\<close>

section \<open>Credentials\<close>

record Credential =
  cd_SessionID :: string
  cd_AgentID :: string
  cd_Targets :: "string list"
  cd_Tools :: "string list"
  cd_Resources :: "string list"
  cd_Intent :: string
  cd_TTLSecs :: u64

record credentialWire =
  cw_SessionID :: "string option"
  cw_AgentID :: "string option"
  cw_Targets :: "string list option"
  cw_Tools :: "string list option"
  cw_Resources :: "string list option"
  cw_Intent :: "string option"
  cw_TTLSecs :: "u64 option"

text \<open>Decoding into a pointer: null makes it nil, a value of the type makes it point to the value, anything else is an
  error. The values are those that the input has for the field, in order.\<close>

fun into_string_ptr :: "string option \<Rightarrow> json list \<Rightarrow> string option option" where
  "into_string_ptr p [] = Some p"
| "into_string_ptr p (JNull # vs) = into_string_ptr None vs"
| "into_string_ptr p (JStr t # vs) = into_string_ptr (Some t) vs"
| "into_string_ptr p (v # vs) = None"

fun into_uint64_ptr :: "u64 option \<Rightarrow> json list \<Rightarrow> u64 option option" where
  "into_uint64_ptr p [] = Some p"
| "into_uint64_ptr p (JNull # vs) = into_uint64_ptr None vs"
| "into_uint64_ptr p (JNum l # vs) =
     (case strconv_ParseUint l 64 of Inl _ \<Rightarrow> None | Inr n \<Rightarrow> into_uint64_ptr (Some (of_nat n)) vs)"
| "into_uint64_ptr p (v # vs) = None"

text \<open>An array decoded into a slice over a backing array: a null element keeps what is there.\<close>

fun into_elems :: "string list \<Rightarrow> json list \<Rightarrow> string list option" where
  "into_elems old [] = Some []"
| "into_elems old (JNull # vs) = map_option ((#) (if old = [] then [] else hd old)) (into_elems (tl old) vs)"
| "into_elems old (JStr t # vs) = map_option ((#) t) (into_elems (tl old) vs)"
| "into_elems old (v # vs) = None"

text \<open>The pointer to a slice: its elements, and what its backing array holds after them.\<close>

fun into_strings_ptr :: "(string list \<times> string list) option \<Rightarrow> json list \<Rightarrow> string list option option" where
  "into_strings_ptr p [] = Some (map_option fst p)"
| "into_strings_ptr p (JNull # vs) = into_strings_ptr None vs"
| "into_strings_ptr p (JArr ws # vs) =
     (if ws = [] then into_strings_ptr (Some ([], [])) vs
      else
        let old = (case p of None \<Rightarrow> [] | Some (elems, stale) \<Rightarrow> elems @ stale) in
        case into_elems old ws of
          None \<Rightarrow> None
        | Some elems \<Rightarrow> into_strings_ptr (Some (elems, drop (length elems) old)) vs)"
| "into_strings_ptr p (v # vs) = None"

definition credential_keys :: "string list" where
  "credential_keys =
     [''session_id'', ''agent_id'', ''targets'', ''tools'', ''resources'', ''intent'', ''ttl_secs'']"

definition wire_of_json :: "json \<Rightarrow> credentialWire option" where
  "wire_of_json v =
     (case v of
        JNull \<Rightarrow>
          Some \<lparr>cw_SessionID = None, cw_AgentID = None, cw_Targets = None, cw_Tools = None, cw_Resources = None,
                cw_Intent = None, cw_TTLSecs = None\<rparr>
      | JObj ms \<Rightarrow>
        let values = (\<lambda>f. field_values credential_keys f ms) in
        Option.bind (into_string_ptr None (values ''session_id'')) (\<lambda>s.
        Option.bind (into_string_ptr None (values ''agent_id'')) (\<lambda>a.
        Option.bind (into_strings_ptr None (values ''targets'')) (\<lambda>t.
        Option.bind (into_strings_ptr None (values ''tools'')) (\<lambda>l.
        Option.bind (into_strings_ptr None (values ''resources'')) (\<lambda>r.
        Option.bind (into_string_ptr None (values ''intent'')) (\<lambda>i.
        Option.bind (into_uint64_ptr None (values ''ttl_secs'')) (\<lambda>n.
          Some \<lparr>cw_SessionID = s, cw_AgentID = a, cw_Targets = t, cw_Tools = l, cw_Resources = r, cw_Intent = i,
                cw_TTLSecs = n\<rparr>)))))))
      | _ \<Rightarrow> None)"

text \<open>\<^verbatim>\<open>json.NewDecoder(r.Body).Decode(&wire)\<close> reads the first value of the body; what follows is ignored.\<close>

definition decode_wire :: "string \<Rightarrow> credentialWire option" where
  "decode_wire body = Option.bind (json_parse body) (\<lambda>(v, _). wire_of_json v)"

definition credential :: "credentialWire \<Rightarrow> Credential option" where
  "credential w =
     (if cw_SessionID w = None \<or> cw_AgentID w = None \<or> cw_Targets w = None \<or> cw_Tools w = None \<or>
         cw_Resources w = None \<or> cw_Intent w = None \<or> cw_TTLSecs w = None then None
      else
        Some \<lparr>cd_SessionID = the (cw_SessionID w), cd_AgentID = the (cw_AgentID w), cd_Targets = the (cw_Targets w),
              cd_Tools = the (cw_Tools w), cd_Resources = the (cw_Resources w), cd_Intent = the (cw_Intent w),
              cd_TTLSecs = the (cw_TTLSecs w)\<rparr>)"

section \<open>State and responses\<close>

record tokenBucket =
  tb_tokens :: rat
  tb_last :: int

text \<open>\<open>st_OutboxKick\<close>: \<open>None\<close> is no channel, else whether its one slot is taken.\<close>

record 'b AppState =
  st_ActiveKey :: Record
  st_ArchivedKeys :: "Record list"
  st_Sessions :: "string \<rightharpoonup> Credential"
  st_Events :: "string \<rightharpoonup> Event list"
  st_EventLosses :: "string \<rightharpoonup> u64"
  st_Sandbox :: "'b Controller"
  st_Outbox :: "Spool option"
  st_OutboxKick :: "bool option"
  st_buckets :: "string \<rightharpoonup> tokenBucket"

record HttpResponse =
  hr_Status :: nat
  hr_Header :: "(string \<times> string) list"
  hr_Body :: string

definition WriteHeader :: "nat \<Rightarrow> HttpResponse" where
  "WriteHeader status = \<lparr>hr_Status = status, hr_Header = [], hr_Body = []\<rparr>"

definition writeJSON :: "nat \<Rightarrow> json \<Rightarrow> HttpResponse" where
  "writeJSON status body =
     \<lparr>hr_Status = status, hr_Header = [(''Content-Type'', ''application/json'')],
      hr_Body = json_encode body @ [newline]\<rparr>"

definition writeError :: "nat \<Rightarrow> string \<Rightarrow> HttpResponse" where
  "writeError status msg = writeJSON status (json_map [(''error'', JStr msg)])"

definition loss_count :: "(string \<rightharpoonup> u64) \<Rightarrow> string \<Rightarrow> u64" where
  "loss_count m sid = (case m sid of None \<Rightarrow> 0 | Some n \<Rightarrow> n)"

record Texts =
  tx_decode :: "string \<Rightarrow> string"
  tx_cidr :: "cidr_error \<Rightarrow> string"

section \<open>Handlers\<close>

definition createSession ::
  "Texts \<Rightarrow> 'b Backend \<Rightarrow> string \<Rightarrow> 'b AppState \<Rightarrow> HttpResponse \<times> 'b AppState" where
  "createSession tx ops body st =
     (case decode_wire body of
        None \<Rightarrow> (writeError 422 (''invalid credential: '' @ tx_decode tx body), st)
      | Some wire \<Rightarrow>
        (case credential wire of
           None \<Rightarrow> (writeError 422 ''credential is missing a required field'', st)
         | Some cred \<Rightarrow>
           if st_Sessions st (cd_SessionID cred) \<noteq> None then (WriteHeader 409, st)
           else
             case rmap Parse (cd_Targets cred) of
               Inl err \<Rightarrow> (writeError 422 (tx_cidr tx err), st)
             | Inr cidrs \<Rightarrow>
               (case CreateSandbox ops (st_Sandbox st) (cd_SessionID cred) cidrs of
                  (Some (AlreadyExistsError _), c') \<Rightarrow> (WriteHeader 409, st\<lparr>st_Sandbox := c'\<rparr>)
                | (Some err, c') \<Rightarrow> (writeError 500 (sandbox_Error err), st\<lparr>st_Sandbox := c'\<rparr>)
                | (None, c') \<Rightarrow>
                  (writeJSON 201 (json_map [(''session_id'', JStr (cd_SessionID cred))]),
                   st\<lparr>st_Sandbox := c', st_Sessions := (st_Sessions st)(cd_SessionID cred \<mapsto> cred),
                      st_Events := (st_Events st)(cd_SessionID cred \<mapsto> [])\<rparr>))))"

definition drop_session :: "string \<Rightarrow> 'b AppState \<Rightarrow> 'b AppState" where
  "drop_session sid st =
     st\<lparr>st_Sessions := (st_Sessions st)(sid := None), st_Events := (st_Events st)(sid := None),
        st_EventLosses := (st_EventLosses st)(sid := None), st_buckets := (st_buckets st)(sid := None)\<rparr>"

definition deleteSession :: "'b Backend \<Rightarrow> string \<Rightarrow> 'b AppState \<Rightarrow> HttpResponse \<times> 'b AppState" where
  "deleteSession ops sid st =
     (if st_Sessions st sid = None then (WriteHeader 404, st)
      else
        case DestroySandbox ops (st_Sandbox st) sid of
          (None, c') \<Rightarrow> (WriteHeader 204, drop_session sid (st\<lparr>st_Sandbox := c'\<rparr>))
        | (Some (NotFoundError _), c') \<Rightarrow> (WriteHeader 204, drop_session sid (st\<lparr>st_Sandbox := c'\<rparr>))
        | (Some err, c') \<Rightarrow> (writeError 500 (sandbox_Error err), st\<lparr>st_Sandbox := c'\<rparr>))"

definition getSessionEvents :: "'b Backend \<Rightarrow> string \<Rightarrow> 'b AppState \<Rightarrow> HttpResponse" where
  "getSessionEvents ops sid st =
     (if st_Sessions st sid = None then WriteHeader 404
      else
        let events = (case st_Events st sid of None \<Rightarrow> [] | Some evs \<Rightarrow> evs);
            lost = loss_count (st_EventLosses st) sid + LostDrops ops (st_Sandbox st) sid;
            r = writeJSON 200 (JArr (map event_json events))
        in r\<lparr>hr_Header := (''X-Warden-Lost-Events'', format_dec (unat lost)) # hr_Header r\<rparr>)"

definition key_jwk :: "Record \<Rightarrow> (string \<times> json) list" where
  "key_jwk key = PublicKeyJWK key @ [(''key_id'', JStr (sk_keyID key))]"

definition getActiveKey :: "'b AppState \<Rightarrow> HttpResponse" where
  "getActiveKey st = writeJSON 200 (json_map (key_jwk (st_ActiveKey st)))"

definition getKeyByID :: "string \<Rightarrow> 'b AppState \<Rightarrow> HttpResponse" where
  "getKeyByID keyID st =
     (if sk_keyID (st_ActiveKey st) = keyID then writeJSON 200 (json_map (key_jwk (st_ActiveKey st)))
      else
        case find (\<lambda>key. sk_keyID key = keyID) (st_ArchivedKeys st) of
          None \<Rightarrow> WriteHeader 404
        | Some key \<Rightarrow>
          writeJSON 200 (json_map
            (if sk_retiredAt key \<noteq> [] then key_jwk key @ [(''retired_at'', JStr (sk_retiredAt key))]
             else key_jwk key)))"

section \<open>Routing\<close>

text \<open>Go's \<^verbatim>\<open>ServeMux\<close> on a clean path, given as its unescaped segments, the last one empty for a trailing slash. A
  wildcard matches one segment that is not empty. Patterns for \<^verbatim>\<open>GET\<close> also match \<^verbatim>\<open>HEAD\<close>. Of the patterns of
  the table only the last two overlap; the first of them is the more specific one.\<close>

datatype segment = Lit string | Wild

datatype endpoint = CreateSession | DeleteSession | GetSessionEvents | GetActiveKey | GetKeyByID

definition routes :: "(string \<times> segment list \<times> endpoint) list" where
  "routes =
     [(''POST'', [Lit ''sessions''], CreateSession),
      (''DELETE'', [Lit ''sessions'', Wild], DeleteSession),
      (''GET'', [Lit ''sessions'', Wild, Lit ''events''], GetSessionEvents),
      (''GET'', [Lit ''enforcer'', Lit ''keys'', Lit ''active''], GetActiveKey),
      (''GET'', [Lit ''enforcer'', Lit ''keys'', Wild], GetKeyByID)]"

fun match_path :: "segment list \<Rightarrow> string list \<Rightarrow> string list option" where
  "match_path [] [] = Some []"
| "match_path (Lit a # ps) (s # ss) = (if a = s then match_path ps ss else None)"
| "match_path (Wild # ps) (s # ss) = (if s = [] then None else map_option ((#) s) (match_path ps ss))"
| "match_path _ _ = None"

fun find_route ::
  "(string \<times> segment list \<times> endpoint) list \<Rightarrow> string \<Rightarrow> string list \<Rightarrow> (endpoint \<times> string list) option" where
  "find_route [] meth path = None"
| "find_route ((mt, pat, ep) # rs) meth path =
     (case (if mt = meth then match_path pat path else None) of
        None \<Rightarrow> find_route rs meth path
      | Some args \<Rightarrow> Some (ep, args))"

definition mux :: "string \<Rightarrow> string list \<Rightarrow> (endpoint \<times> string list) option" where
  "mux meth path =
     (case find_route routes meth path of
        Some r \<Rightarrow> Some r
      | None \<Rightarrow> if meth = ''HEAD'' then find_route routes ''GET'' path else None)"

definition allowed_methods :: "string list \<Rightarrow> string list" where
  "allowed_methods path =
     filter (\<lambda>mt. mux mt path \<noteq> None) [''DELETE'', ''GET'', ''HEAD'', ''POST'']"

text \<open>\<^verbatim>\<open>http.Error\<close>.\<close>

definition http_Error :: "nat \<Rightarrow> string \<Rightarrow> HttpResponse" where
  "http_Error status msg =
     \<lparr>hr_Status = status,
      hr_Header = [(''Content-Type'', ''text/plain; charset=utf-8''), (''X-Content-Type-Options'', ''nosniff'')],
      hr_Body = msg @ [newline]\<rparr>"

record Request =
  rq_Method :: string
  rq_Path :: "string list"
  rq_Body :: string

definition Router :: "Texts \<Rightarrow> 'b Backend \<Rightarrow> Request \<Rightarrow> 'b AppState \<Rightarrow> HttpResponse \<times> 'b AppState" where
  "Router tx ops rq st =
     (case mux (rq_Method rq) (rq_Path rq) of
        Some (CreateSession, _) \<Rightarrow> createSession tx ops (rq_Body rq) st
      | Some (DeleteSession, args) \<Rightarrow> deleteSession ops (hd args) st
      | Some (GetSessionEvents, args) \<Rightarrow> (getSessionEvents ops (hd args) st, st)
      | Some (GetActiveKey, _) \<Rightarrow> (getActiveKey st, st)
      | Some (GetKeyByID, args) \<Rightarrow> (getKeyByID (hd args) st, st)
      | None \<Rightarrow>
        (case allowed_methods (rq_Path rq) of
           [] \<Rightarrow> (http_Error 404 ''404 page not found'', st)
         | allowed \<Rightarrow>
           let r = http_Error 405 ''Method Not Allowed''
           in (r\<lparr>hr_Header := (''Allow'', strings_Join allowed '', '') # hr_Header r\<rparr>, st)))"

section \<open>What a handler does to the state\<close>

text \<open>How a handler changes the state: not at all, by a controller operation alone, or by one that succeeded
  together with the maps.\<close>

lemma status_simps:
  "hr_Status (WriteHeader n) = n" "hr_Status (writeJSON n v) = n" "hr_Status (writeError n m) = n"
  by (simp_all add: WriteHeader_def writeJSON_def writeError_def)

lemma createSession_cases:
  assumes "createSession tx ops body st = (r, st')"
  obtains (same) "st' = st" "hr_Status r \<noteq> 201"
  | (failed) s cs e where "CreateSandbox ops (st_Sandbox st) s cs = (Some e, st_Sandbox st')"
      "st' = st\<lparr>st_Sandbox := st_Sandbox st'\<rparr>" "hr_Status r \<noteq> 201"
  | (created) cred cs c' where "CreateSandbox ops (st_Sandbox st) (cd_SessionID cred) cs = (None, c')"
      "st_Sessions st (cd_SessionID cred) = None" "rmap Parse (cd_Targets cred) = Inr cs" "hr_Status r = 201"
      "st' = st\<lparr>st_Sandbox := c', st_Sessions := (st_Sessions st)(cd_SessionID cred \<mapsto> cred),
         st_Events := (st_Events st)(cd_SessionID cred \<mapsto> [])\<rparr>"
proof -
  consider "st' = st" "hr_Status r \<noteq> 201" | cred cs where "st_Sessions st (cd_SessionID cred) = None" "rmap Parse (cd_Targets cred) = Inr cs"
      "(case CreateSandbox ops (st_Sandbox st) (cd_SessionID cred) cs of
                  (Some (AlreadyExistsError _), c') \<Rightarrow> (WriteHeader 409, st\<lparr>st_Sandbox := c'\<rparr>)
                | (Some err, c') \<Rightarrow> (writeError 500 (sandbox_Error err), st\<lparr>st_Sandbox := c'\<rparr>)
                | (None, c') \<Rightarrow>
                  (writeJSON 201 (json_map [(''session_id'', JStr (cd_SessionID cred))]),
                   st\<lparr>st_Sandbox := c', st_Sessions := (st_Sessions st)(cd_SessionID cred \<mapsto> cred),
                      st_Events := (st_Events st)(cd_SessionID cred \<mapsto> [])\<rparr>)) = (r, st')"
    using assms unfolding createSession_def
    by (auto simp: status_simps simp del: not_None_eq split: option.split_asm if_split_asm sum.split_asm)
  then show ?thesis
  proof cases
    case (2 cred cs)
    obtain e c' where c': "CreateSandbox ops (st_Sandbox st) (cd_SessionID cred) cs = (e, c')" by fastforce
    show ?thesis
    proof (cases e)
      case None
      then show ?thesis using 2 c' by (intro created [of cred cs c']) (auto simp: writeJSON_def)
    next
      case (Some err)
      then have "st' = st\<lparr>st_Sandbox := c'\<rparr>" "hr_Status r \<noteq> 201"
        using 2(3) c' by (cases err; auto simp: status_simps)+
      with Some c' show ?thesis by (intro failed [of "cd_SessionID cred" cs err]) simp_all
    qed
  qed (rule same)
qed

lemma deleteSession_cases:
  assumes "deleteSession ops s st = (r, st')"
  obtains (unknown) "st_Sessions st s = None" "r = WriteHeader 404" "st' = st"
  | (failed) e where "DestroySandbox ops (st_Sandbox st) s = (Some e, st_Sandbox st')"
      "\<forall>x. e \<noteq> NotFoundError x" "st_Sessions st s \<noteq> None" "hr_Status r = 500"
      "st' = st\<lparr>st_Sandbox := st_Sandbox st'\<rparr>"
  | (deleted) e c' where "DestroySandbox ops (st_Sandbox st) s = (e, c')"
      "e = None \<or> (\<exists>x. e = Some (NotFoundError x))" "st_Sessions st s \<noteq> None" "r = WriteHeader 204"
      "st' = drop_session s (st\<lparr>st_Sandbox := c'\<rparr>)"
proof (cases "st_Sessions st s = None")
  case False
  then obtain cred where "st_Sessions st s = Some cred" by auto
  obtain e c' where c': "DestroySandbox ops (st_Sandbox st) s = (e, c')" by fastforce
  consider "e = None \<or> (\<exists>x. e = Some (NotFoundError x))" | err where "e = Some err" "\<forall>x. err \<noteq> NotFoundError x"
    by (cases e) auto
  then show ?thesis
  proof cases
    case 1
    then show ?thesis using assms c' False by (intro deleted [of e c']) (auto simp: deleteSession_def)
  next
    case (2 err)
    then have "deleteSession ops s st = (writeError 500 (sandbox_Error err), st\<lparr>st_Sandbox := c'\<rparr>)"
      using c' \<open>st_Sessions st s = Some cred\<close> by (cases err) (simp_all add: deleteSession_def)
    then have "r = writeError 500 (sandbox_Error err)" "st' = st\<lparr>st_Sandbox := c'\<rparr>" using assms by simp_all
    then show ?thesis using 2 c' False by (intro failed [of err]) (simp_all add: writeError_def writeJSON_def)
  qed
qed (use assms in \<open>auto simp: deleteSession_def intro: unknown\<close>)

section \<open>Credentials on the wire\<close>

text \<open>\<^verbatim>\<open>json.Marshal\<close> of a \<^verbatim>\<open>Credential\<close>, by the tags of its fields.\<close>

definition credential_json :: "Credential \<Rightarrow> json" where
  "credential_json c =
     JObj [(''session_id'', JStr (cd_SessionID c)), (''agent_id'', JStr (cd_AgentID c)),
           (''targets'', JArr (map JStr (cd_Targets c))), (''tools'', JArr (map JStr (cd_Tools c))),
           (''resources'', JArr (map JStr (cd_Resources c))), (''intent'', JStr (cd_Intent c)),
           (''ttl_secs'', JNum (format_dec (unat (cd_TTLSecs c))))]"

definition valid_credential :: "Credential \<Rightarrow> bool" where
  "valid_credential c \<longleftrightarrow>
     list_all valid_utf8 ([cd_SessionID c, cd_AgentID c, cd_Intent c] @ cd_Targets c @ cd_Tools c @ cd_Resources c)"

lemma credential_keys_ascii: "k \<in> set credential_keys \<Longrightarrow> utf8_sanitize k = k"
  by (auto simp: credential_keys_def utf8_sanitize_ascii)

lemma strings_depth: "foldr max (map json_depth (map JStr ss)) 0 = 0"
  by (induction ss) auto

lemma strings_dec_num: "list_all dec_num (map JStr ss)"
  by (simp add: list_all_iff)

lemma strings_valid: "list_all valid_utf8 ss \<Longrightarrow> map json_sanitize (map JStr ss) = map JStr ss"
  by (induction ss) (auto simp: valid_utf8_def)

lemma credential_json_sanitize: "valid_credential c \<Longrightarrow> json_sanitize (credential_json c) = credential_json c"
  using credential_keys_ascii strings_valid [of "cd_Targets c"] strings_valid [of "cd_Tools c"] strings_valid [of "cd_Resources c"]
  by (simp add: credential_json_def valid_credential_def valid_utf8_def credential_keys_def)

lemma credential_json_num: "dec_num (credential_json c)" "\<not> is_num (credential_json c)"
  by (auto simp: credential_json_def strings_dec_num list_all_iff)

lemma credential_json_depth: "json_depth (credential_json c) \<le> maxNestingDepth"
  using strings_depth [of "cd_Targets c"] strings_depth [of "cd_Tools c"] strings_depth [of "cd_Resources c"]
  by (simp add: credential_json_def maxNestingDepth_def)

lemma into_elems_strings: "into_elems old (map JStr ss) = Some ss"
  by (induction ss arbitrary: old) auto

lemma into_strings_ptr_strings: "into_strings_ptr None [JArr (map JStr ss)] = Some (Some ss)"
  by (simp add: into_elems_strings)

lemma parse_ttl: "strconv_ParseUint (format_dec (unat (n :: u64))) 64 = Inr (unat n)"
proof -
  have "unat n < 2 ^ 64" using unsigned_less [of n] by simp
  then show ?thesis by (intro strconv_ParseUint_format_dec) simp
qed

lemma wire_of_credential_json:
  "wire_of_json (credential_json c) =
     Some \<lparr>cw_SessionID = Some (cd_SessionID c), cw_AgentID = Some (cd_AgentID c), cw_Targets = Some (cd_Targets c),
           cw_Tools = Some (cd_Tools c), cw_Resources = Some (cd_Resources c), cw_Intent = Some (cd_Intent c),
           cw_TTLSecs = Some (cd_TTLSecs c)\<rparr>"
proof -
  let ?ms = "[(''session_id'', JStr (cd_SessionID c)), (''agent_id'', JStr (cd_AgentID c)),
           (''targets'', JArr (map JStr (cd_Targets c))), (''tools'', JArr (map JStr (cd_Tools c))),
           (''resources'', JArr (map JStr (cd_Resources c))), (''intent'', JStr (cd_Intent c)),
           (''ttl_secs'', JNum (format_dec (unat (cd_TTLSecs c))))]"
  have "fst ` set ?ms \<subseteq> set credential_keys" by (simp add: credential_keys_def)
  note fields = field_values_exact [OF this]
  show ?thesis
    unfolding credential_json_def wire_of_json_def json.case Let_def fields
    by (simp add: into_elems_strings parse_ttl)
qed

lemma decode_credential:
  assumes "valid_credential c"
  obtains w where "decode_wire (json_encode (credential_json c) @ r) = Some w" "credential w = Some c"
  using json_roundtrip_num [OF credential_json_num credential_json_depth, of c r]
  by (simp add: decode_wire_def credential_json_sanitize [OF assms] wire_of_credential_json credential_def)

definition example_cred :: Credential where
  "example_cred =
     \<lparr>cd_SessionID = ''s-1'', cd_AgentID = ''a-1'', cd_Targets = [''10.0.0.0/24''], cd_Tools = [], cd_Resources = [],
      cd_Intent = [], cd_TTLSecs = 60\<rparr>"

lemma example_cred_valid: "valid_credential example_cred"
  by (simp add: valid_credential_def example_cred_def valid_utf8_def utf8_sanitize_ascii)

definition example_key :: Record where
  "example_key =
     \<lparr>sk_keyID = ''k-1'', sk_priv = NewKeyFromSeed example_crypto (replicate 32 7), sk_createdAt = [], sk_retiredAt = []\<rparr>"

definition example_texts :: Texts where
  "example_texts = \<lparr>tx_decode = (\<lambda>_. ''EOF''), tx_cidr = (\<lambda>_. ''invalid CIDR'')\<rparr>"

text \<open>The state that \<^verbatim>\<open>main\<close> builds: empty maps, a new controller, the configured key and the spool.\<close>

definition empty_state :: "'b Controller \<Rightarrow> Record \<Rightarrow> Spool option \<Rightarrow> bool option \<Rightarrow> 'b AppState" where
  "empty_state c key sp kick =
     \<lparr>st_ActiveKey = key, st_ArchivedKeys = [], st_Sessions = Map.empty, st_Events = Map.empty,
      st_EventLosses = Map.empty, st_Sandbox = c, st_Outbox = sp, st_OutboxKick = kick, st_buckets = Map.empty\<rparr>"

section \<open>Properties\<close>

text \<open>C29: A credential reaches the enforcer as it was sent: the JSON text of a credential whose strings are valid UTF-8 is
  decoded to the same credential, whatever follows it in the body.\<close>

theorem credential_roundtrip:
  assumes "valid_credential c"
  shows "\<exists>w. decode_wire (json_encode (credential_json c) @ r) = Some w \<and> credential w = Some c"
  using decode_credential [OF assms] by metis

theorem credential_roundtrip_witness:
  "\<exists>w. decode_wire (json_encode (credential_json example_cred) @ ''x'') = Some w \<and> credential w = Some example_cred"
  by (rule credential_roundtrip [OF example_cred_valid])

text \<open>C16: The order of the checks of \<^verbatim>\<open>POST /sessions\<close>. For a credential with all fields, a session that exists is answered 409 even
  if a target is invalid; an invalid target is answered 422 without calling the backend; only then the backend decides
  between 201, 409 and 500. Whatever is not a 201 leaves sessions, events, losses and buckets alone; a 201 adds exactly
  this session, without events.\<close>

theorem create_session_order:
  assumes "decode_wire body = Some w" and "credential w = Some cred" and "createSession tx ops body st = (r, st')"
  shows "hr_Status r =
      (if st_Sessions st (cd_SessionID cred) \<noteq> None then 409
       else if \<exists>t\<in>set (cd_Targets cred). \<exists>e. Parse t = Inl e then 422
       else case fst (CreateSandbox ops (st_Sandbox st) (cd_SessionID cred) (map (projr \<circ> Parse) (cd_Targets cred))) of
         None \<Rightarrow> 201 | Some (AlreadyExistsError _) \<Rightarrow> 409 | Some _ \<Rightarrow> 500) \<and>
    (hr_Status r \<noteq> 201 \<longrightarrow> st' = st\<lparr>st_Sandbox := st_Sandbox st'\<rparr>) \<and>
    (hr_Status r = 422 \<longrightarrow> st' = st) \<and>
    (hr_Status r = 201 \<longrightarrow>
       st_Sessions st' = (st_Sessions st)(cd_SessionID cred \<mapsto> cred) \<and>
       st_Events st' = (st_Events st)(cd_SessionID cred \<mapsto> []) \<and>
       st_EventLosses st' = st_EventLosses st \<and> st_buckets st' = st_buckets st)"
proof (cases "st_Sessions st (cd_SessionID cred)")
  case (Some old)
  then show ?thesis using assms by (auto simp: createSession_def WriteHeader_def)
next
  case new: None
  show ?thesis
  proof (cases "rmap Parse (cd_Targets cred)")
    case (Inl err)
    then have "\<exists>t\<in>set (cd_Targets cred). \<exists>e. Parse t = Inl e" by (auto simp: rmap_Inl_iff)
    with Inl new assms show ?thesis by (auto simp: createSession_def writeError_def writeJSON_def)
  next
    case (Inr cs)
    then have l2: "list_all2 (\<lambda>t c. Parse t = Inr c) (cd_Targets cred) cs" by (simp add: rmap_Inr_iff)
    then have ok: "\<not> (\<exists>t\<in>set (cd_Targets cred). \<exists>e. Parse t = Inl e)"
      by (auto simp: list_all2_conv_all_nth in_set_conv_nth)
    have cs: "map (projr \<circ> Parse) (cd_Targets cred) = cs"
      using l2 by (induction rule: list_all2_induct) auto
    obtain e c' where c': "CreateSandbox ops (st_Sandbox st) (cd_SessionID cred) cs = (e, c')" by fastforce
    show ?thesis
    proof (cases e)
      case None
      with Inr new assms c' ok cs show ?thesis by (auto simp: createSession_def writeJSON_def)
    next
      case (Some err)
      with Inr new assms c' ok cs show ?thesis
        by (cases err) (auto simp: createSession_def writeError_def writeJSON_def WriteHeader_def)
    qed
  qed
qed

theorem create_session_order_witness:
  "hr_Status (fst (createSession example_texts NoopBackend (json_encode (credential_json example_cred))
     (empty_state (NewController ()) example_key None None))) = 201"
proof -
  obtain w where "decode_wire (json_encode (credential_json example_cred) @ []) = Some w" "credential w = Some example_cred"
    using decode_credential [OF example_cred_valid] by metis
  moreover obtain r st' where r: "createSession example_texts NoopBackend (json_encode (credential_json example_cred))
      (empty_state (NewController ()) example_key None None) = (r, st')" by fastforce
  ultimately show ?thesis
    using create_session_order [of "json_encode (credential_json example_cred)" w example_cred example_texts NoopBackend _ r st']
    by (simp add: example_cred_def empty_state_def Parse_example CreateSandbox_def NewController_def NoopBackend_def)
qed

text \<open>\<^verbatim>\<open>DELETE /sessions/{id}\<close> answers 404 for an unknown session. With 204 nothing of the session is left, neither its events
  nor its losses nor its bucket, and reading its events gives 404; other sessions are untouched. With 500 the record
  of the session is kept as it was, so that the deletion can be tried again.\<close>

theorem delete_session_complete:
  assumes "deleteSession ops s st = (r, st')"
  shows "hr_Status r \<in> {204, 404, 500} \<and>
    (hr_Status r = 404 \<longleftrightarrow> st_Sessions st s = None) \<and>
    (hr_Status r = 404 \<longrightarrow> st' = st) \<and>
    (hr_Status r = 500 \<longrightarrow> st' = st\<lparr>st_Sandbox := st_Sandbox st'\<rparr>) \<and>
    (hr_Status r = 204 \<longrightarrow>
       getSessionEvents ops s st' = WriteHeader 404 \<and>
       st_Events st' s = None \<and> st_EventLosses st' s = None \<and> st_buckets st' s = None \<and>
       (\<forall>s'. s' \<noteq> s \<longrightarrow> st_Sessions st' s' = st_Sessions st s' \<and> st_Events st' s' = st_Events st s' \<and>
          st_EventLosses st' s' = st_EventLosses st s' \<and> st_buckets st' s' = st_buckets st s'))"
  using assms
proof (cases rule: deleteSession_cases)
  case unknown
  then show ?thesis by (simp add: WriteHeader_def)
next
  case (failed e)
  then show ?thesis by simp
next
  case (deleted e c')
  then show ?thesis by (auto simp: WriteHeader_def drop_session_def getSessionEvents_def)
qed

text \<open>One session, nothing recorded yet.\<close>

definition example_state :: "unit AppState" where
  "example_state =
     (empty_state \<lparr>ct_backend = (), ct_active = {''s-1''}\<rparr> example_key None None)
       \<lparr>st_Sessions := [''s-1'' \<mapsto> example_cred], st_Events := [''s-1'' \<mapsto> []]\<rparr>"

theorem delete_session_complete_witness:
  "getSessionEvents NoopBackend ''s-1'' (snd (deleteSession NoopBackend ''s-1'' example_state)) = WriteHeader 404"
proof -
  obtain r st' where r: "deleteSession NoopBackend ''s-1'' example_state = (r, st')" by fastforce
  moreover have "hr_Status r = 204"
    using r by (auto simp: deleteSession_def DestroySandbox_def NoopBackend_def example_state_def empty_state_def WriteHeader_def)
  ultimately show ?thesis using delete_session_complete [OF r] by simp
qed

text \<open>Every key that the enforcer holds can be looked up: the active key under its identifier and, where the identifiers are
  distinct, each archived key under its own, with the time of its retirement. An identifier that no key has gives 404.\<close>

theorem key_lookup:
  assumes "distinct (map sk_keyID (st_ActiveKey st # st_ArchivedKeys st))"
  shows "getKeyByID (sk_keyID (st_ActiveKey st)) st = getActiveKey st \<and>
    (\<forall>key\<in>set (st_ArchivedKeys st). getKeyByID (sk_keyID key) st =
       writeJSON 200 (json_map (key_jwk key @
         (if sk_IsActive key then [] else [(''retired_at'', JStr (sk_retiredAt key))])))) \<and>
    (\<forall>keyID. hr_Status (getKeyByID keyID st) = 404 \<longleftrightarrow>
       keyID \<notin> sk_keyID ` set (st_ActiveKey st # st_ArchivedKeys st))"
proof (intro conjI ballI allI)
  show "getKeyByID (sk_keyID (st_ActiveKey st)) st = getActiveKey st"
    by (simp add: getKeyByID_def getActiveKey_def)
next
  fix key
  assume key: "key \<in> set (st_ArchivedKeys st)"
  then obtain ks ks' where ks: "st_ArchivedKeys st = ks @ key # ks'" by (meson split_list)
  have "find (\<lambda>x. sk_keyID x = sk_keyID key) ks = None"
    using assms unfolding ks by (auto simp: find_None_iff) (metis imageI)
  then have "find (\<lambda>x. sk_keyID x = sk_keyID key) (st_ArchivedKeys st) = Some key"
    unfolding ks by (induction ks) (auto split: if_splits)
  moreover have "sk_keyID (st_ActiveKey st) \<noteq> sk_keyID key" using assms key by auto
  ultimately show "getKeyByID (sk_keyID key) st = writeJSON 200 (json_map (key_jwk key @
      (if sk_IsActive key then [] else [(''retired_at'', JStr (sk_retiredAt key))])))"
    by (simp add: getKeyByID_def sk_IsActive_def)
next
  fix keyID
  show "hr_Status (getKeyByID keyID st) = 404 \<longleftrightarrow> keyID \<notin> sk_keyID ` set (st_ActiveKey st # st_ArchivedKeys st)"
    by (auto simp: getKeyByID_def WriteHeader_def writeJSON_def find_None_iff find_Some_iff split: option.splits)
qed

theorem key_lookup_witness:
  "hr_Status (getKeyByID ''k-2'' (empty_state (NewController ()) example_key None None)) = 404"
  using key_lookup [of "empty_state (NewController ()) example_key None None"]
  by (simp add: empty_state_def example_key_def)

end
