(* ===== verification/Drops.thy ===== *)
theory Drops
  imports Api "HOL-Library.Signed_Division"
begin

text \<open>
  The drop consumer of package \<^verbatim>\<open>api\<close> (\<^verbatim>\<open>enforcer/internal/api/drops.go\<close>): admission by a token bucket per session,
  signing, the ring of events and the loss counters. Tokens are \<^verbatim>\<open>float64\<close> values (theory \<open>Float64\<close>; the product is
  rounded before it is added, no fused operation). Clocks and the fresh identifier are arguments: \<open>nv_mono\<close> is
  the monotonic clock in nanoseconds, \<open>nv_wall\<close> the Unix time in seconds. The theory shows
  that each drop of a session is recorded or counted, that a recorded entry carries all that its
  submission needs, and how many drops the bucket admits.
\<close>

section \<open>Admission\<close>

definition eventsCap :: nat where "eventsCap = 256"
definition bucketBurst :: rat where "bucketBurst = 20"
definition bucketPerSecond :: rat where "bucketPerSecond = 5"

text \<open>\<^verbatim>\<open>time.Time.Sub\<close> saturates; \<^verbatim>\<open>Duration.Seconds\<close> adds whole seconds and the fraction.\<close>

definition time_Sub :: "int \<Rightarrow> int \<Rightarrow> int" where
  "time_Sub t u = max (- (2 ^ 63)) (min (2 ^ 63 - 1) (t - u))"

definition Seconds :: "int \<Rightarrow> rat" where
  "Seconds d =
     float64 (float64 (of_int (d sdiv 1000000000)) + float64 (float64 (of_int (d smod 1000000000)) / 1000000000))"

definition refill :: "int \<Rightarrow> tokenBucket \<Rightarrow> tokenBucket" where
  "refill now b =
     b\<lparr>tb_tokens := min bucketBurst
         (float64 (tb_tokens b + float64 (Seconds (time_Sub now (tb_last b)) * bucketPerSecond))),
       tb_last := now\<rparr>"

definition bucket_admit :: "int \<Rightarrow> tokenBucket \<Rightarrow> bool \<times> tokenBucket" where
  "bucket_admit now b =
     (let b' = refill now b in
      if tb_tokens b' < 1 then (False, b') else (True, b'\<lparr>tb_tokens := float64 (tb_tokens b' - 1)\<rparr>))"

definition admitLocked :: "int \<Rightarrow> string \<Rightarrow> 'b AppState \<Rightarrow> bool \<times> 'b AppState" where
  "admitLocked now sid st =
     (let b = (case st_buckets st sid of None \<Rightarrow> \<lparr>tb_tokens = bucketBurst, tb_last = now\<rparr> | Some b \<Rightarrow> b) in
      case bucket_admit now b of (ok, b') \<Rightarrow> (ok, st\<lparr>st_buckets := (st_buckets st)(sid \<mapsto> b')\<rparr>))"

definition addLossLocked :: "string \<Rightarrow> u64 \<Rightarrow> 'b AppState \<Rightarrow> 'b AppState" where
  "addLossLocked sid n st =
     st\<lparr>st_EventLosses := (st_EventLosses st)(sid \<mapsto> loss_count (st_EventLosses st) sid + n)\<rparr>"

section \<open>Recording a drop\<close>

record Env =
  nv_uuid :: string
  nv_wall :: int
  nv_mono :: int

definition violation_text :: "Drop \<Rightarrow> string" where
  "violation_text d =
     (if d_DstPort d = 0 then ''attempted connection to '' @ addr_String (d_DstIP d) @ '' ('' @ d_Proto d @ '')''
      else ''attempted connection to '' @ addr_String (d_DstIP d) @ '':'' @ format_dec (unat (d_DstPort d)))"

text \<open>\<^verbatim>\<open>x509.MarshalPKIXPublicKey\<close> of an Ed25519 key, which cannot fail, and \<^verbatim>\<open>pem.EncodeToMemory\<close>.\<close>

definition MarshalPKIXPublicKey :: "byte list \<Rightarrow> byte list" where
  "MarshalPKIXPublicKey pub = [0x30, 0x2a, 0x30, 0x05, 0x06, 0x03, 0x2b, 0x65, 0x70, 0x03, 0x21, 0x00] @ pub"

function pem_lines :: "string \<Rightarrow> string" where
  "pem_lines s = (if s = [] then [] else take 64 s @ [newline] @ pem_lines (drop 64 s))"
  by pat_completeness auto
termination
  by (relation "measure length") auto

declare pem_lines.simps [simp del]

definition pem_EncodeToMemory :: "string \<Rightarrow> byte list \<Rightarrow> string" where
  "pem_EncodeToMemory typ bs =
     ''-----BEGIN '' @ typ @ ''-----'' @ [newline] @ pem_lines (Std_EncodeToString bs) @
     ''-----END '' @ typ @ ''-----'' @ [newline]"

definition public_key_pem :: "Record \<Rightarrow> string" where
  "public_key_pem key = pem_EncodeToMemory ''PUBLIC KEY'' (MarshalPKIXPublicKey (VerifyingKey key))"

text \<open>The ring: at its capacity the oldest event is evicted and counted.\<close>

definition push_event :: "string \<Rightarrow> Event \<Rightarrow> 'b AppState \<Rightarrow> 'b AppState" where
  "push_event sid ev st =
     (let evs = (case st_Events st sid of None \<Rightarrow> [] | Some l \<Rightarrow> l);
          full = (eventsCap \<le> length evs);
          st' = (if full then addLossLocked sid 1 st else st)
      in st'\<lparr>st_Events := (st_Events st')(sid \<mapsto> (if full then tl evs else evs) @ [ev])\<rparr>)"

definition recordDrop :: "Crypto \<Rightarrow> Env \<Rightarrow> Drop \<Rightarrow> 'b AppState \<Rightarrow> Entry option \<times> 'b AppState" where
  "recordDrop cr nv d st =
     (case st_Sessions st (d_SessionID d) of
        None \<Rightarrow> (None, st)
      | Some cred \<Rightarrow>
        (case admitLocked (nv_mono nv) (d_SessionID d) st of
           (False, st1) \<Rightarrow> (None, addLossLocked (d_SessionID d) 1 st1)
         | (True, st1) \<Rightarrow>
           let key = st_ActiveKey st1;
               ev = New (nv_uuid nv) (nv_wall nv) (d_SessionID d) (cd_AgentID cred) (violation_text d) (sk_keyID key)
           in
           (case Sign cr ev (SigningKey key) of
              Inl _ \<Rightarrow> (None, st1)
            | Inr ev' \<Rightarrow>
              (case ToCanonicalBytes cr (RekorPayload ev') of
                 Inl _ \<Rightarrow> (None, st1)
               | Inr reduced \<Rightarrow>
                 let secondSig = ed_Sign cr (SigningKey key) reduced in
                 (Some \<lparr>en_Event = ev', en_SecondSig = RawURL_EncodeToString secondSig,
                        en_PublicKeyPEM = public_key_pem key,
                        en_PayloadSHA256 = hex_EncodeToString (sha256_Sum cr reduced)\<rparr>,
                  push_event (d_SessionID d) ev' st1)))))"

section \<open>The consumer\<close>

text \<open>What \<^verbatim>\<open>ConsumeDrops\<close> is doing between two of its critical sections: waiting for a drop, appending the entry of
  a recorded drop, about to count a failed append, or about to wake the submitter after a successful one.\<close>

datatype consumer = Waiting | Appending Drop Entry | CountLoss Drop | Kicking

text \<open>One step, given the drop received and the answers of the file system; handlers may run between steps.\<close>

fun consume_step ::
  "Crypto \<Rightarrow> Env \<Rightarrow> Drop \<Rightarrow> nat option \<Rightarrow> bool \<Rightarrow> consumer \<times> 'b AppState \<Rightarrow> consumer \<times> 'b AppState" where
  "consume_step cr nv d written sync_ok (Waiting, st) =
     (case recordDrop cr nv d st of
        (None, st') \<Rightarrow> (Waiting, st')
      | (Some e, st') \<Rightarrow> if st_Outbox st' = None then (Waiting, st') else (Appending d e, st'))"
| "consume_step cr nv _ written sync_ok (Appending d e, st) =
     (case st_Outbox st of
        None \<Rightarrow> (Waiting, st)
      | Some sp \<Rightarrow>
        (case Append written sync_ok sp e of
           (False, sp') \<Rightarrow> (CountLoss d, st\<lparr>st_Outbox := Some sp'\<rparr>)
         | (True, sp') \<Rightarrow> (Kicking, st\<lparr>st_Outbox := Some sp'\<rparr>)))"
| "consume_step cr nv _ written sync_ok (Kicking, st) =
     (Waiting, st\<lparr>st_OutboxKick := map_option (\<lambda>_. True) (st_OutboxKick st)\<rparr>)"
| "consume_step cr nv _ written sync_ok (CountLoss d, st) = (Waiting, addLossLocked (d_SessionID d) 1 st)"

section \<open>The token bucket\<close>

text \<open>Rounding adds at most this factor.\<close>

definition slack :: rat where
  "slack = 1 + 1 / 2 ^ 53"

lemma slack_ge [simp]: "1 \<le> slack" "0 \<le> slack"
  by (simp_all add: slack_def)

lemma float64_slack: "0 \<le> x \<Longrightarrow> float64 x \<le> slack * x"
  using float64_le [of x] by (simp add: slack_def algebra_simps)

lemma float64_bound: "0 \<le> x \<Longrightarrow> x \<le> slack ^ n * y \<Longrightarrow> float64 x \<le> slack ^ Suc n * y"
  using float64_slack [of x] mult_left_mono [of x "slack ^ n * y" slack] by (simp add: mult.assoc)

lemma Seconds_nonneg:
  assumes "0 \<le> d"
  shows "0 \<le> Seconds d" and "Seconds d \<le> slack ^ 3 * (of_int d / 1000000000)"
proof -
  let ?s = "d div 1000000000" and ?n = "d mod 1000000000"
  have sd: "d sdiv 1000000000 = ?s" "d smod 1000000000 = ?n"
    using assms by (cases "d = 0"; simp add: signed_divide_int_def signed_modulo_int_def minus_div_mult_eq_mod)+
  have nn: "0 \<le> ?s" "0 \<le> ?n" using assms by (simp_all add: pos_imp_zdiv_nonneg_iff)
  let ?a = "float64 (of_int ?s)" and ?b = "float64 (float64 (of_int ?n) / 1000000000)"
  have ab: "0 \<le> ?a" "0 \<le> ?b" using nn by (simp_all add: float64_nonneg)
  show "0 \<le> Seconds d" unfolding Seconds_def sd using ab by (intro float64_nonneg) simp
  have "?a \<le> slack ^ 1 * of_int ?s"
    using float64_slack [of "of_int ?s"] nn by simp
  also have "\<dots> \<le> slack ^ 2 * of_int ?s"
    using nn by (intro mult_right_mono power_increasing) simp_all
  finally have a: "?a \<le> slack ^ 2 * of_int ?s" .
  have "float64 (of_int ?n) \<le> slack ^ 1 * of_int ?n"
    using float64_slack [of "of_int ?n"] nn by simp
  then have b: "?b \<le> slack ^ 2 * (of_int ?n / 1000000000)"
    using nn by (simp only: numeral_2_eq_2, intro float64_bound) (simp_all add: float64_nonneg divide_right_mono)
  have "d = ?s * 1000000000 + ?n" by simp
  then have "(of_int d :: rat) = of_int ?s * 1000000000 + of_int ?n"
    by (metis of_int_add of_int_mult of_int_numeral)
  then have d: "(of_int d :: rat) / 1000000000 = of_int ?s + of_int ?n / 1000000000" by simp
  have "?a + ?b \<le> slack ^ 2 * (of_int d / 1000000000)"
    unfolding d distrib_left using a b by linarith
  then show "Seconds d \<le> slack ^ 3 * (of_int d / 1000000000)"
    unfolding Seconds_def sd using ab by (simp only: numeral_3_eq_3 numeral_2_eq_2, intro float64_bound) simp_all
qed

text \<open>Tokens and the time since the last drop, in seconds.\<close>

definition elapsed :: "int \<Rightarrow> int \<Rightarrow> rat" where
  "elapsed t u = of_int (t - u) / 1000000000"

definition bucket_ok :: "tokenBucket \<Rightarrow> bool" where
  "bucket_ok b \<longleftrightarrow> 0 \<le> tb_tokens b \<and> tb_tokens b \<le> bucketBurst"

lemma refill_tokens:
  assumes "bucket_ok b" and "tb_last b \<le> now"
  shows "0 \<le> tb_tokens (refill now b)" and "tb_tokens (refill now b) \<le> bucketBurst"
    and "tb_tokens (refill now b) \<le> slack ^ 5 * (5 * elapsed now (tb_last b)) + tb_tokens b + 20 / 2 ^ 53"
proof -
  let ?d = "time_Sub now (tb_last b)" and ?p = "float64 (Seconds (time_Sub now (tb_last b)) * 5)"
  have d: "0 \<le> ?d" "?d \<le> now - tb_last b" using assms(2) by (auto simp: time_Sub_def)
  have t: "0 \<le> tb_tokens b" "tb_tokens b \<le> 20" using assms(1) by (simp_all add: bucket_ok_def bucketBurst_def)
  have p: "0 \<le> ?p" using Seconds_nonneg(1) [OF d(1)] by (intro float64_nonneg) simp
  show "0 \<le> tb_tokens (refill now b)"
    using p t by (simp add: refill_def bucketBurst_def bucketPerSecond_def float64_nonneg)
  show "tb_tokens (refill now b) \<le> bucketBurst" by (simp add: refill_def)
  have "Seconds ?d * 5 \<le> slack ^ 3 * (5 * elapsed now (tb_last b))"
  proof -
    have "Seconds ?d \<le> slack ^ 3 * (of_int ?d / 1000000000)" by (rule Seconds_nonneg(2) [OF d(1)])
    also have "\<dots> \<le> slack ^ 3 * elapsed now (tb_last b)"
      unfolding elapsed_def by (intro mult_left_mono divide_right_mono) (use d(2) in simp_all)
    finally show ?thesis by simp
  qed
  then have "?p \<le> slack ^ Suc 3 * (5 * elapsed now (tb_last b))"
    using Seconds_nonneg(1) [OF d(1)] by (intro float64_bound) simp_all
  then have "slack * ?p \<le> slack ^ 5 * (5 * elapsed now (tb_last b))"
    using mult_left_mono [of ?p _ slack] by (simp add: mult.assoc eval_nat_numeral)
  moreover have "float64 (tb_tokens b + ?p) \<le> slack * tb_tokens b + slack * ?p"
    using float64_slack [of "tb_tokens b + ?p"] t p by (simp add: distrib_left)
  moreover have "slack * tb_tokens b \<le> tb_tokens b + 20 / 2 ^ 53"
    using t by (simp add: slack_def algebra_simps)
  ultimately show "tb_tokens (refill now b) \<le> slack ^ 5 * (5 * elapsed now (tb_last b)) + tb_tokens b + 20 / 2 ^ 53"
    by (simp add: refill_def bucketPerSecond_def)
qed


lemma bucket_admit_step:
  assumes "bucket_ok b" and "tb_last b \<le> now" and "bucket_admit now b = (ok, b')"
  shows "bucket_ok b'" and "tb_last b' = now"
    and "(if ok then 1 else 0) + tb_tokens b' \<le> slack ^ 5 * (5 * elapsed now (tb_last b)) + tb_tokens b + 39 / 2 ^ 53"
proof -
  let ?t = "tb_tokens (refill now b)"
  note r = refill_tokens [OF assms(1,2)]
  have b': "if ?t < 1 then \<not> ok \<and> b' = refill now b else ok \<and> b' = (refill now b)\<lparr>tb_tokens := float64 (?t - 1)\<rparr>"
    using assms(3) by (auto simp: bucket_admit_def Let_def)
  then show "tb_last b' = now" by (auto simp: refill_def split: if_splits)
  show "bucket_ok b'"
  proof (cases "?t < 1")
    case False
    have "float64 (?t - 1) \<le> float64 20"
      using False r(2) by (intro float64_mono) (simp_all add: bucketBurst_def)
    then show ?thesis
      using b' False float64_nonneg [of "?t - 1"] float64_of_nat [of 20] by (simp add: bucket_ok_def bucketBurst_def)
  qed (use b' r in \<open>simp add: bucket_ok_def\<close>)
  have "(if ok then 1 else 0) + tb_tokens b' \<le> ?t + 19 / 2 ^ 53"
  proof (cases "?t < 1")
    case False
    then have "float64 (?t - 1) \<le> ?t - 1 + (?t - 1) / 2 ^ 53" by (intro float64_le) simp
    moreover have "(?t - 1) / 2 ^ 53 \<le> 19 / 2 ^ 53" using r(2) by (intro divide_right_mono) (simp_all add: bucketBurst_def)
    ultimately have "1 + float64 (?t - 1) \<le> ?t + 19 / 2 ^ 53" by linarith
    then show ?thesis using b' False by simp
  qed (use b' in simp)
  then show "(if ok then 1 else 0) + tb_tokens b' \<le> slack ^ 5 * (5 * elapsed now (tb_last b)) + tb_tokens b + 39 / 2 ^ 53"
    using r(3) by simp
qed

text \<open>The answers of the bucket to drops at the given times.\<close>

fun admissions :: "int list \<Rightarrow> tokenBucket \<Rightarrow> bool list" where
  "admissions [] b = []"
| "admissions (now # ts) b = (case bucket_admit now b of (ok, b') \<Rightarrow> ok # admissions ts b')"

lemma admissions_bound:
  assumes "bucket_ok b" and "sorted (tb_last b # ts)"
  shows "of_nat (count_list (admissions ts b) True) \<le>
    tb_tokens b + slack ^ 5 * (5 * elapsed (last (tb_last b # ts)) (tb_last b)) + of_nat (length ts) * (39 / 2 ^ 53)"
  using assms
proof (induction ts arbitrary: b)
  case Nil
  then show ?case by (simp add: bucket_ok_def elapsed_def)
next
  case (Cons now ts)
  obtain ok b' where step: "bucket_admit now b = (ok, b')" by fastforce
  have "tb_last b \<le> now" using Cons.prems(2) by simp
  note s = bucket_admit_step [OF Cons.prems(1) this step]
  have "of_nat (count_list (admissions ts b') True) \<le>
      tb_tokens b' + slack ^ 5 * (5 * elapsed (last (now # ts)) now) + of_nat (length ts) * (39 / 2 ^ 53)"
    using Cons.IH [OF s(1)] Cons.prems(2) unfolding s(2) by (simp del: last.simps)
  moreover have "slack ^ 5 * (5 * elapsed (last (tb_last b # now # ts)) (tb_last b)) =
      slack ^ 5 * (5 * elapsed (last (now # ts)) now) + slack ^ 5 * (5 * elapsed now (tb_last b))"
    by (simp add: elapsed_def field_simps)
  moreover have "of_nat (length (now # ts)) * (39 / 2 ^ 53) = (of_nat (length ts) * (39 / 2 ^ 53) + 39 / 2 ^ 53 :: rat)"
    by (simp add: algebra_simps)
  moreover have "of_nat (count_list (admissions (now # ts) b) True) =
      (if ok then 1 else 0) + (of_nat (count_list (admissions ts b') True) :: rat)"
    by (simp add: step)
  ultimately show ?case
    using s(3) by linarith
qed

lemma slack_5: "slack ^ 5 * 5 \<le> 5 + 1 / 2 ^ 48"
  by (simp add: slack_def power_divide eval_nat_numeral)

text \<open>C23: The rate limiter bounds what a session can have signed: of any sequence of drops, however many, a fresh
  bucket admits at most 20 plus 5 for each second that passes, up to the rounding error of the
  \<^verbatim>\<open>float64\<close> arithmetic.\<close>

theorem admission_rate_bounded:
  assumes "sorted (t0 # ts)"
  shows "of_nat (count_list (admissions ts \<lparr>tb_tokens = bucketBurst, tb_last = t0\<rparr>) True) \<le>
    20 + (5 + 1 / 2 ^ 48) * elapsed (last (t0 # ts)) t0 + of_nat (length ts) / 2 ^ 47"
proof -
  let ?b = "\<lparr>tb_tokens = bucketBurst, tb_last = t0\<rparr>"
  have "0 \<le> elapsed (last (t0 # ts)) t0"
    using assms by (cases ts) (auto simp: elapsed_def)
  then have "slack ^ 5 * 5 * elapsed (last (t0 # ts)) t0 \<le> (5 + 1 / 2 ^ 48) * elapsed (last (t0 # ts)) t0"
    by (intro mult_right_mono slack_5)
  moreover have "of_nat (length ts) * (39 / 2 ^ 53) \<le> (of_nat (length ts) / 2 ^ 47 :: rat)"
    by simp
  moreover have "of_nat (count_list (admissions ts ?b) True) \<le>
      20 + slack ^ 5 * 5 * elapsed (last (t0 # ts)) t0 + of_nat (length ts) * (39 / 2 ^ 53)"
    using admissions_bound [of ?b ts] assms by (simp add: bucket_ok_def bucketBurst_def mult.assoc)
  ultimately show ?thesis by linarith
qed

theorem admission_rate_bounded_witness:
  "count_list (admissions (replicate 40 0) \<lparr>tb_tokens = bucketBurst, tb_last = 0\<rparr>) True \<le> 20"
proof -
  let ?n = "count_list (admissions (replicate 40 0) \<lparr>tb_tokens = bucketBurst, tb_last = 0\<rparr>) True"
  have "sorted ((0 :: int) # replicate 40 0)" by simp
  note admission_rate_bounded [OF this]
  then have "(of_nat ?n :: rat) \<le> 20 + 40 / 2 ^ 47" by (simp add: elapsed_def last_replicate)
  then have "(of_nat ?n :: rat) < of_nat 21" by simp
  then show ?thesis by (simp only: of_nat_less_iff)
qed

text \<open>The rate limiter starves no one: a drop that comes at least 200 milliseconds after the last drop of the
  session was considered is admitted, whatever happened before.\<close>

theorem admitted_after_pause:
  assumes "bucket_ok b" and "tb_last b + 200000000 \<le> now"
  shows "fst (bucket_admit now b)"
proof -
  let ?d = "time_Sub now (tb_last b)"
  have d: "200000000 \<le> ?d" using assms(2) by (auto simp: time_Sub_def)
  have sd: "?d sdiv 1000000000 = ?d div 1000000000" "?d smod 1000000000 = ?d mod 1000000000"
    using d by (simp_all add: signed_divide_int_def signed_modulo_int_def minus_div_mult_eq_mod)
  have one: "1 \<le> float64 x" if "1 \<le> x" for x
    using float64_mono [of 1 x] float64_of_nat [of 1] that by simp
  have "1 / 5 \<le> Seconds ?d"
  proof (cases "?d < 1000000000")
    case True
    then have n: "?d div 1000000000 = 0" "?d mod 1000000000 = ?d" using d by simp_all
    have "200000000 \<le> float64 (of_int ?d)"
      using float64_mono [of 200000000 "of_int ?d"] float64_of_nat [of 200000000] d by simp
    then have "1 / 5 \<le> float64 (of_int ?d) / 1000000000" by simp
    then have "1 / 5 \<le> float64 (float64 (of_int ?d) / 1000000000)"
      using float64_mono [of "1 / 5" "float64 (of_int ?d) / 1000000000"] float64_fifth by linarith
    then show ?thesis
      using float64_mono [of "1 / 5" "float64 (float64 (of_int ?d) / 1000000000)"] float64_fifth
      unfolding Seconds_def sd n by simp
  next
    case False
    then have "1 \<le> ?d div 1000000000" by simp
    then have "1 \<le> float64 (of_int (?d div 1000000000))" by (intro one) simp
    moreover have "0 \<le> float64 (float64 (of_int (?d mod 1000000000)) / 1000000000)"
      by (simp add: float64_nonneg)
    ultimately have "1 \<le> Seconds ?d" unfolding Seconds_def sd by (intro one) linarith
    then show ?thesis by simp
  qed
  then have "1 \<le> float64 (Seconds ?d * 5)" by (intro one) simp
  then have "1 \<le> float64 (tb_tokens b + float64 (Seconds ?d * 5))"
    using assms(1) by (intro one) (simp add: bucket_ok_def)
  then show ?thesis
    by (simp add: bucket_admit_def refill_def bucketPerSecond_def bucketBurst_def Let_def)
qed

theorem admitted_after_pause_witness:
  "fst (bucket_admit 200000000 \<lparr>tb_tokens = 0, tb_last = 0\<rparr>)"
  by (rule admitted_after_pause) (simp_all add: bucket_ok_def bucketBurst_def)

section \<open>Recorded drops\<close>

lemma RekorPayload_canonical:
  assumes "jcs_faithful cr"
  shows "\<exists>bs. ToCanonicalBytes cr (RekorPayload e) = Inr bs"
proof -
  let ?ks = "[''agent_id'', ''attester'', ''attester_key_id'', ''breach_id'', ''layer'', ''session_id'', ''signature'', ''timestamp'']"
  let ?ms = "zip ?ks [ev_AgentID e, ev_Attester e, ev_AttesterKeyID e, ev_BreachID e, ev_Layer e, ev_SessionID e,
    ev_Signature e, ev_Timestamp e]"
  have keys: "map fst ?ms = ?ks" by simp
  have "sorted ?ks" "distinct ?ks" "list_all (list_all (\<lambda>c. (of_char c :: nat) < 0x80)) ?ks" by code_simp+
  note ks = this
  have "ordered_keys ?ms"
    unfolding ordered_keys_def list.set_map [symmetric] keys
    using ks by (auto simp: valid_utf8_def list_all_iff utf8_sanitize_ascii simp del: zip_Cons_Cons)
  moreover have "RekorPayload e = JObj (string_members ?ms)"
    unfolding RekorPayload_def json_map_def
    by (subst sort_key_id_if_sorted) (use ks(1) in \<open>simp_all add: string_members_def\<close>)
  ultimately show ?thesis
    using assms unfolding jcs_faithful_def ToCanonicalBytes_def by fastforce
qed

lemma Sign_total: "jcs_faithful cr \<Longrightarrow> \<exists>sig. Sign cr e key = Inr (e\<lparr>ev_Signature := sig\<rparr>)"
  using signableBytes_total [of cr e] by (auto simp: Sign_def)

lemma admitLocked_frame:
  "\<exists>b. snd (admitLocked now sid st) = st\<lparr>st_buckets := (st_buckets st)(sid \<mapsto> b)\<rparr>"
  by (auto simp: admitLocked_def Let_def split: prod.split)

abbreviation events_of :: "'b AppState \<Rightarrow> string \<Rightarrow> Event list" where
  "events_of st sid \<equiv> (case st_Events st sid of None \<Rightarrow> [] | Some l \<Rightarrow> l)"

text \<open>What recording a drop of a session does, when signing works: it is refused and counted, or it is signed and
  pushed.\<close>

lemma recordDrop_cases:
  assumes "jcs_faithful cr" and "st_Sessions st (d_SessionID d) = Some cred" and "recordDrop cr nv d st = (r, st')"
  obtains (refused) b where "\<not> fst (admitLocked (nv_mono nv) (d_SessionID d) st)" "r = None"
      "st' = addLossLocked (d_SessionID d) 1 (st\<lparr>st_buckets := (st_buckets st)(d_SessionID d \<mapsto> b)\<rparr>)"
  | (recorded) b sig reduced ev where "fst (admitLocked (nv_mono nv) (d_SessionID d) st)"
      "ev = (New (nv_uuid nv) (nv_wall nv) (d_SessionID d) (cd_AgentID cred) (violation_text d)
        (sk_keyID (st_ActiveKey st)))\<lparr>ev_Signature := sig\<rparr>"
      "Sign cr (New (nv_uuid nv) (nv_wall nv) (d_SessionID d) (cd_AgentID cred) (violation_text d)
        (sk_keyID (st_ActiveKey st))) (SigningKey (st_ActiveKey st)) = Inr ev"
      "ToCanonicalBytes cr (RekorPayload ev) = Inr reduced"
      "r = Some \<lparr>en_Event = ev,
          en_SecondSig = RawURL_EncodeToString (ed_Sign cr (SigningKey (st_ActiveKey st)) reduced),
          en_PublicKeyPEM = public_key_pem (st_ActiveKey st),
          en_PayloadSHA256 = hex_EncodeToString (sha256_Sum cr reduced)\<rparr>"
      "st' = push_event (d_SessionID d) ev (st\<lparr>st_buckets := (st_buckets st)(d_SessionID d \<mapsto> b)\<rparr>)"
proof -
  let ?sid = "d_SessionID d"
  obtain b where b: "snd (admitLocked (nv_mono nv) ?sid st) = st\<lparr>st_buckets := (st_buckets st)(?sid \<mapsto> b)\<rparr>"
    using admitLocked_frame by blast
  obtain ok where ok: "admitLocked (nv_mono nv) ?sid st = (ok, st\<lparr>st_buckets := (st_buckets st)(?sid \<mapsto> b)\<rparr>)"
    using b by (metis prod.collapse)
  show ?thesis
  proof (cases ok)
    case False
    then show ?thesis
      using assms(2,3) ok by (intro refused [of b]) (simp_all add: recordDrop_def)
  next
    case True
    let ?new = "New (nv_uuid nv) (nv_wall nv) ?sid (cd_AgentID cred) (violation_text d) (sk_keyID (st_ActiveKey st))"
    obtain sig where sig: "Sign cr ?new (SigningKey (st_ActiveKey st)) = Inr (?new\<lparr>ev_Signature := sig\<rparr>)"
      using Sign_total [OF assms(1)] by blast
    obtain reduced where red: "ToCanonicalBytes cr (RekorPayload (?new\<lparr>ev_Signature := sig\<rparr>)) = Inr reduced"
      using RekorPayload_canonical [OF assms(1)] by blast
    show ?thesis
      using assms(2,3) ok True sig red
      by (intro recorded [of "?new\<lparr>ev_Signature := sig\<rparr>" sig reduced b]) (simp_all add: recordDrop_def Let_def)
  qed
qed

text \<open>The parts of the state that recording a drop leaves alone.\<close>

definition same_elsewhere :: "string \<Rightarrow> 'b AppState \<Rightarrow> 'b AppState \<Rightarrow> bool" where
  "same_elsewhere sid st st' \<longleftrightarrow>
     st_ActiveKey st' = st_ActiveKey st \<and> st_ArchivedKeys st' = st_ArchivedKeys st \<and>
     st_Sessions st' = st_Sessions st \<and> st_Sandbox st' = st_Sandbox st \<and> st_Outbox st' = st_Outbox st \<and>
     st_OutboxKick st' = st_OutboxKick st \<and>
     (\<forall>s. s \<noteq> sid \<longrightarrow> st_Events st' s = st_Events st s \<and> st_EventLosses st' s = st_EventLosses st s \<and>
        st_buckets st' s = st_buckets st s)"

lemma push_event_fields [simp]:
  "st_ActiveKey (push_event sid ev st) = st_ActiveKey st"
  "st_ArchivedKeys (push_event sid ev st) = st_ArchivedKeys st"
  "st_Sessions (push_event sid ev st) = st_Sessions st"
  "st_Sandbox (push_event sid ev st) = st_Sandbox st"
  "st_Outbox (push_event sid ev st) = st_Outbox st"
  "st_OutboxKick (push_event sid ev st) = st_OutboxKick st"
  "st_buckets (push_event sid ev st) = st_buckets st"
  by (simp_all add: push_event_def Let_def addLossLocked_def)

lemma push_event_events:
  "st_Events (push_event sid ev st) =
     (st_Events st)(sid \<mapsto> (if eventsCap \<le> length (events_of st sid) then tl (events_of st sid) else events_of st sid) @ [ev])"
  by (simp add: push_event_def Let_def addLossLocked_def)

lemma push_event_losses:
  "loss_count (st_EventLosses (push_event sid ev st)) sid =
     loss_count (st_EventLosses st) sid + (if eventsCap \<le> length (events_of st sid) then 1 else 0)"
  "s \<noteq> sid \<Longrightarrow> st_EventLosses (push_event sid ev st) s = st_EventLosses st s"
  by (simp_all add: push_event_def Let_def addLossLocked_def loss_count_def)

lemma recordDrop_dead: "st_Sessions st (d_SessionID d) = None \<Longrightarrow> recordDrop cr nv d st = (None, st)"
  by (simp add: recordDrop_def)

text \<open>C10: No drop of a live session disappears silently. Recording it adds exactly one, modulo \<open>2 ^ 64\<close>, to the sum of the
  events kept and the losses counted for the session; it yields a spool entry exactly if the rate limiter
  admitted it, and its event is then the newest one of the ring, which holds at most 256. Nothing of other sessions
  changes.\<close>

theorem drop_recorded_or_counted:
  assumes "jcs_faithful cr" and "st_Sessions st (d_SessionID d) = Some cred" and "recordDrop cr nv d st = (r, st')"
    and "length (events_of st (d_SessionID d)) \<le> eventsCap"
  shows "of_nat (length (events_of st' (d_SessionID d))) + loss_count (st_EventLosses st') (d_SessionID d) =
      of_nat (length (events_of st (d_SessionID d))) + loss_count (st_EventLosses st) (d_SessionID d) + 1 \<and>
    (r \<noteq> None \<longleftrightarrow> fst (admitLocked (nv_mono nv) (d_SessionID d) st)) \<and>
    (\<forall>e. r = Some e \<longrightarrow> last (events_of st' (d_SessionID d)) = en_Event e) \<and>
    length (events_of st' (d_SessionID d)) \<le> eventsCap \<and> same_elsewhere (d_SessionID d) st st'"
proof (cases rule: recordDrop_cases [OF assms(1-3)])
  case (1 b)
  then show ?thesis
    using assms(4) by (simp add: addLossLocked_def loss_count_def same_elsewhere_def)
next
  case (2 b sig reduced ev)
  have full: "length (events_of st (d_SessionID d)) = eventsCap" if "eventsCap \<le> length (events_of st (d_SessionID d))"
    using that assms(4) by simp
  have cap: "of_nat eventsCap = (of_nat (eventsCap - 1) + 1 :: u64)" by (simp add: eventsCap_def)
  have "of_nat (length (events_of st' (d_SessionID d))) + loss_count (st_EventLosses st') (d_SessionID d) =
      of_nat (length (events_of st (d_SessionID d))) + loss_count (st_EventLosses st) (d_SessionID d) + 1"
    using full cap by (auto simp: 2(6) push_event_events push_event_losses(1))
  moreover have "length (events_of st' (d_SessionID d)) \<le> eventsCap"
    using assms(4) by (auto simp: 2(6) push_event_events eventsCap_def)
  moreover have "same_elsewhere (d_SessionID d) st st'"
    by (simp add: 2(6) push_event_events push_event_losses(2) same_elsewhere_def)
  ultimately show ?thesis
    using 2(1,5) by (simp add: 2(6) push_event_events)
qed

text \<open>An example.\<close>

definition example_drop :: Drop where
  "example_drop =
     \<lparr>d_SessionID = ''s-1'', d_SrcIP = V4 0x0AC80002, d_DstIP = V4 0x01010101, d_DstPort = 443, d_Proto = ''tcp'', d_At = 0\<rparr>"

definition example_env :: Env where
  "example_env = \<lparr>nv_uuid = ''b-1'', nv_wall = 0, nv_mono = 0\<rparr>"

text \<open>A fresh bucket is full.\<close>

lemma fresh_admitted: "st_buckets st sid = None \<Longrightarrow> fst (admitLocked now sid st)"
proof -
  have "float64 (20 + float64 (Seconds 0 * 5)) = 20"
    using float64_of_nat [of 20] by (simp add: Seconds_def)
  then show "st_buckets st sid = None \<Longrightarrow> ?thesis"
    by (simp add: admitLocked_def bucket_admit_def refill_def time_Sub_def bucketBurst_def bucketPerSecond_def Let_def
        split: prod.split)
qed

lemma example_admitted: "fst (admitLocked now ''s-1'' example_state)"
  by (rule fresh_admitted) (simp add: example_state_def empty_state_def)

theorem drop_recorded_or_counted_witness:
  "\<exists>e st'. recordDrop example_crypto example_env example_drop example_state = (Some e, st') \<and>
     last (events_of st' ''s-1'') = en_Event e"
proof -
  obtain r st' where r: "recordDrop example_crypto example_env example_drop example_state = (r, st')" by fastforce
  have "st_Sessions example_state (d_SessionID example_drop) = Some example_cred"
    "length (events_of example_state (d_SessionID example_drop)) \<le> eventsCap"
    by (simp_all add: example_state_def empty_state_def example_drop_def)
  note drop_recorded_or_counted [OF example_jcs this(1) r this(2)]
  then show ?thesis
    using r example_admitted by (auto simp: example_drop_def example_env_def)
qed

section \<open>The spool entry\<close>

text \<open>The PEM text determines the key.\<close>

lemma pem_lines_filter: "newline \<notin> set s \<Longrightarrow> filter (\<lambda>c. c \<noteq> newline) (pem_lines s) = s"
proof (induction s rule: pem_lines.induct)
  case (1 s)
  have keep: "filter (\<lambda>c. c \<noteq> newline) (take 64 s) = take 64 s"
    using 1(2) by (auto simp: filter_id_conv dest: in_set_takeD)
  show ?case
  proof (cases "s = []")
    case False
    moreover have "newline \<notin> set (drop 64 s)" using 1(2) by (meson in_set_dropD)
    ultimately show ?thesis using 1(1) keep by (subst pem_lines.simps) simp
  qed (simp add: pem_lines.simps)
qed

lemma public_key_pem_inj:
  assumes "public_key_pem key = public_key_pem key'"
  shows "VerifyingKey key = VerifyingKey key'"
proof -
  let ?t = "\<lambda>k. Std_EncodeToString (MarshalPKIXPublicKey (VerifyingKey k))"
  have "pem_lines (?t key) = pem_lines (?t key')"
    using assms by (simp add: public_key_pem_def pem_EncodeToMemory_def)
  then have "?t key = ?t key'"
    by (metis pem_lines_filter Std_no_newline)
  then show ?thesis by (simp add: Std_encode_inj MarshalPKIXPublicKey_def)
qed

text \<open>The key was made from a seed.\<close>

definition key_ok :: "Crypto \<Rightarrow> Record \<Rightarrow> bool" where
  "key_ok cr key \<longleftrightarrow> (\<exists>seed. length seed = 32 \<and> sk_priv key = NewKeyFromSeed cr seed)"

lemma key_ok_sign:
  assumes "ed25519_correct cr" and "key_ok cr key"
  shows "length (ed_Sign cr (SigningKey key) msg) = 64 \<and> ed_Verify cr (VerifyingKey key) msg (ed_Sign cr (SigningKey key) msg)"
  using assms by (auto simp: key_ok_def ed25519_correct_def SigningKey_def VerifyingKey_def NewKeyFromSeed_def)

lemma Sign_Verify:
  assumes "ed25519_correct cr" and "key_ok cr key" and "Sign cr e (SigningKey key) = Inr e'"
  shows "Verify cr e' (VerifyingKey key)"
  using assms(3) key_ok_sign [OF assms(1,2)]
  by (auto simp: Sign_def rbind_Inr_iff Verify_def RawURL_roundtrip ed_SignatureSize_def)

lemma recordDrop_entry:
  assumes "ed25519_correct cr" and "jcs_faithful cr" and "key_ok cr (st_ActiveKey st)"
    and "recordDrop cr nv d st = (Some e, st')"
  shows "\<exists>cred reduced sig. st_Sessions st (d_SessionID d) = Some cred \<and>
    en_Event e = (New (nv_uuid nv) (nv_wall nv) (d_SessionID d) (cd_AgentID cred) (violation_text d)
      (sk_keyID (st_ActiveKey st)))\<lparr>ev_Signature := ev_Signature (en_Event e)\<rparr> \<and>
    Verify cr (en_Event e) (VerifyingKey (st_ActiveKey st)) \<and>
    ReducedPayload cr e = Inr reduced \<and> RawURL_DecodeString (en_SecondSig e) = Inr sig \<and>
    ed_Verify cr (VerifyingKey (st_ActiveKey st)) reduced sig \<and>
    en_PayloadSHA256 e = hex_EncodeToString (sha256_Sum cr reduced) \<and>
    (\<forall>key. public_key_pem key = en_PublicKeyPEM e \<longleftrightarrow> VerifyingKey key = VerifyingKey (st_ActiveKey st))"
proof -
  obtain cred where cred: "st_Sessions st (d_SessionID d) = Some cred"
    using assms(4) recordDrop_dead [of st d cr nv] by (cases "st_Sessions st (d_SessionID d)") auto
  show ?thesis
  proof (cases rule: recordDrop_cases [OF assms(2) cred assms(4)])
    case (2 b sig reduced ev)
    have pem: "public_key_pem key = public_key_pem (st_ActiveKey st) \<longleftrightarrow> VerifyingKey key = VerifyingKey (st_ActiveKey st)" for key
      using public_key_pem_inj by (auto simp: public_key_pem_def)
    have "Verify cr ev (VerifyingKey (st_ActiveKey st))"
      by (rule Sign_Verify [OF assms(1,3) 2(3)])
    with cred 2(2,4,5) pem key_ok_sign [OF assms(1,3)] show ?thesis
      by (simp add: ReducedPayload_def RawURL_roundtrip)
  qed simp
qed

text \<open>C11: A recorded drop can be submitted without the private key: the event names the session, the agent of its
  credential and the active key, and verifies under that key; the second signature of the entry verifies over the
  reduced payload under the same key; the public key in the entry is that key and no other; and the hash is
  that of the reduced payload.\<close>

theorem entry_self_contained:
  assumes "ed25519_correct cr" and "jcs_faithful cr" and "key_ok cr (st_ActiveKey st)"
    and "recordDrop cr nv d st = (Some e, st')"
  shows "\<exists>cred reduced sig. st_Sessions st (d_SessionID d) = Some cred \<and>
    en_Event e = (New (nv_uuid nv) (nv_wall nv) (d_SessionID d) (cd_AgentID cred) (violation_text d)
      (sk_keyID (st_ActiveKey st)))\<lparr>ev_Signature := ev_Signature (en_Event e)\<rparr> \<and>
    Verify cr (en_Event e) (VerifyingKey (st_ActiveKey st)) \<and>
    ReducedPayload cr e = Inr reduced \<and> RawURL_DecodeString (en_SecondSig e) = Inr sig \<and>
    ed_Verify cr (VerifyingKey (st_ActiveKey st)) reduced sig \<and>
    en_PayloadSHA256 e = hex_EncodeToString (sha256_Sum cr reduced) \<and>
    (\<forall>key. public_key_pem key = en_PublicKeyPEM e \<longleftrightarrow> VerifyingKey key = VerifyingKey (st_ActiveKey st))"
  using assms by (rule recordDrop_entry)

theorem entry_self_contained_witness:
  "\<exists>e st'. recordDrop example_crypto example_env example_drop example_state = (Some e, st') \<and>
     Verify example_crypto (en_Event e) (VerifyingKey example_key)"
proof -
  obtain r st' where "recordDrop example_crypto example_env example_drop example_state = (r, st')" by fastforce
  moreover have "st_Sessions example_state (d_SessionID example_drop) = Some example_cred"
    by (simp add: example_state_def empty_state_def example_drop_def)
  ultimately obtain e where r: "recordDrop example_crypto example_env example_drop example_state = (Some e, st')"
    using example_admitted
    by (cases rule: recordDrop_cases [OF example_jcs, rotated 2]) (simp_all add: example_drop_def example_env_def)
  have key: "st_ActiveKey example_state = example_key" by (simp add: example_state_def empty_state_def)
  then have "key_ok example_crypto (st_ActiveKey example_state)"
    by (auto simp: example_key_def key_ok_def intro: exI [of _ "replicate 32 7"])
  from entry_self_contained [OF example_ed25519 example_jcs this r] r key show ?thesis by auto
qed

section \<open>Recorded entries can be read back\<close>

abbreviation ascii :: "string \<Rightarrow> bool" where
  "ascii \<equiv> list_all (\<lambda>c. (of_char c :: nat) < 0x80)"

lemma ascii_valid: "ascii s \<Longrightarrow> valid_utf8 s"
  by (simp add: valid_utf8_def utf8_sanitize_ascii)

lemma format_dec_ascii [simp]: "ascii (format_dec n)"
  using format_dec_digits by (fastforce simp: list_all_iff of_char_digit_char)

lemma pad_ascii [simp]: "ascii (pad w n)"
  by (simp add: pad_def Let_def list_all_iff) (use format_dec_ascii in \<open>auto simp: list_all_iff\<close>)

lemma format_time_ascii: "ascii zone \<Longrightarrow> ascii (format_time zone t)"
  by (simp add: format_time_def Let_def split: prod.split)

lemma addr_String_ascii [simp]: "ascii (addr_String a)"
proof -
  have "(of_char c :: nat) < 0x80" if "hex_val c \<noteq> None \<or> c = CHR '':'' \<or> c = CHR ''.''" for c
    using that by (auto simp: hex_val_def Let_def split: if_splits)
  then show ?thesis using addr_String_chars by (auto simp: list_all_iff)
qed

lemma violation_ascii: "ascii (d_Proto d) \<Longrightarrow> ascii (violation_text d)"
  by (simp add: violation_text_def)

lemma RawURL_ascii: "ascii (RawURL_EncodeToString bs)"
proof -
  have "(of_char (url_char n) :: nat) < 0x80" if "n < 64" for n
    using that by (auto simp: url_char_def b64_common_def)
  with b64_encode_sextets [of url_char False bs] sextets_of_less show ?thesis
    by (fastforce simp: RawURL_EncodeToString_def list_all_iff)
qed

lemma hex_ascii: "ascii (hex_EncodeToString bs)"
proof -
  have "(of_char (digit_char d) :: nat) < 0x80" if "d < 16" for d
    using that by (simp add: of_char_digit_char)
  then have "ascii [digit_char (unat b div 16), digit_char (unat b mod 16)]" for b :: byte by simp
  then show ?thesis by (induction bs) (simp_all add: hex_EncodeToString_def)
qed

lemma pem_lines_ascii: "ascii s \<Longrightarrow> ascii (pem_lines s)"
proof (induction s rule: pem_lines.induct)
  case (1 s)
  have "ascii (take 64 s)" "ascii (drop 64 s)"
    using 1(2) by (auto simp: list_all_iff dest: in_set_takeD in_set_dropD)
  then show ?case
    using 1(1) by (cases "s = []") (simp_all add: pem_lines.simps [of s] pem_lines.simps [of "[]"])
qed

lemma public_key_pem_ascii: "ascii (public_key_pem key)"
  using pem_lines_ascii [of "Std_EncodeToString (MarshalPKIXPublicKey (VerifyingKey key))"] b64_text_ascii
  by (simp add: public_key_pem_def pem_EncodeToMemory_def list_all_iff)

lemma recorded_entry_valid:
  assumes "jcs_faithful cr" and "st_Sessions st (d_SessionID d) = Some cred" and "recordDrop cr nv d st = (Some e, st')"
    and "list_all valid_utf8 [d_SessionID d, cd_AgentID cred, nv_uuid nv, sk_keyID (st_ActiveKey st)]"
    and "ascii (d_Proto d)"
  shows "valid_entry e"
proof (cases rule: recordDrop_cases [OF assms(1-3)])
  case (2 b sig reduced ev)
  let ?new = "New (nv_uuid nv) (nv_wall nv) (d_SessionID d) (cd_AgentID cred) (violation_text d) (sk_keyID (st_ActiveKey st))"
  obtain bs where "ev_Signature ev = RawURL_EncodeToString bs"
    using 2(3) by (auto simp: Sign_def rbind_Inr_iff)
  then have sig: "valid_utf8 sig" using 2(2) RawURL_ascii by (simp add: ascii_valid)
  have fixed: "valid_utf8 ''warden-enforcer''" "valid_utf8 ''network''" "valid_utf8 ''targets''"
    by (simp_all add: ascii_valid)
  have "valid_event ev"
    using assms(4) sig fixed ascii_valid [OF format_time_ascii, of "''+00:00''" "nv_wall nv"]
      ascii_valid [OF violation_ascii [OF assms(5)]]
    by (simp add: valid_event_def event_members_def 2(2) New_def)
  then show ?thesis
    using 2(5) ascii_valid [OF RawURL_ascii] ascii_valid [OF hex_ascii] ascii_valid [OF public_key_pem_ascii]
    by (simp add: valid_entry_def)
qed simp

end
