(* ===== verification/ApiInv.thy ===== *)
theory ApiInv
  imports Drops
begin

text \<open>
  The invariant of the shared state of package \<^verbatim>\<open>api\<close>: sessions, events, buckets and the active sandboxes agree, and
  every event kept is a valid attestation of its session. The handlers keep it over any backend that keeps the
  contract \<open>session_backend\<close>; the drop consumer keeps it with a signing key made from a seed.
\<close>

section \<open>The invariant\<close>

text \<open>An event of a session names the session, its agent and the active key, and verifies under that key.\<close>

definition event_ok :: "Crypto \<Rightarrow> Record \<Rightarrow> string \<Rightarrow> string \<Rightarrow> Event \<Rightarrow> bool" where
  "event_ok cr key sid agent e \<longleftrightarrow>
     ev_SessionID e = sid \<and> ev_AgentID e = agent \<and> ev_AttesterKeyID e = sk_keyID key \<and> Verify cr e (VerifyingKey key)"

text \<open>What holds of one session: it has a credential of its own with valid targets, its events are within the
  capacity and its own, its bucket is not over-full. A session that is not there has neither events nor a bucket.\<close>

definition session_ok :: "Crypto \<Rightarrow> 'b AppState \<Rightarrow> string \<Rightarrow> bool" where
  "session_ok cr st sid \<longleftrightarrow>
     (case st_Sessions st sid of
        None \<Rightarrow> st_Events st sid = None \<and> st_buckets st sid = None
      | Some cred \<Rightarrow>
        cd_SessionID cred = sid \<and> (\<exists>cs. rmap Parse (cd_Targets cred) = Inr cs) \<and>
        (\<exists>evs. st_Events st sid = Some evs \<and> length evs \<le> eventsCap \<and>
           (\<forall>e\<in>set evs. event_ok cr (st_ActiveKey st) sid (cd_AgentID cred) e)) \<and>
        (\<forall>b. st_buckets st sid = Some b \<longrightarrow> tb_tokens b \<le> bucketBurst))"

definition app_inv :: "Crypto \<Rightarrow> 'b AppState \<Rightarrow> bool" where
  "app_inv cr st \<longleftrightarrow> dom (st_Sessions st) = ct_active (st_Sandbox st) \<and> (\<forall>sid. session_ok cr st sid)"

lemma session_ok_cong:
  assumes "st_ActiveKey st' = st_ActiveKey st" and "st_Sessions st' sid = st_Sessions st sid"
    and "st_Events st' sid = st_Events st sid" and "st_buckets st' sid = st_buckets st sid"
  shows "session_ok cr st' sid = session_ok cr st sid"
  unfolding session_ok_def assms by (rule refl)

lemma app_inv_sandbox:
  "app_inv cr st \<Longrightarrow> ct_active c = ct_active (st_Sandbox st) \<Longrightarrow> app_inv cr (st\<lparr>st_Sandbox := c\<rparr>)"
  unfolding app_inv_def using session_ok_cong [of "st\<lparr>st_Sandbox := c\<rparr>" st] by auto

lemma app_inv_create:
  assumes "app_inv cr st" and "st_Sessions st (cd_SessionID cred) = None" and "rmap Parse (cd_Targets cred) = Inr cs"
    and "ct_active c = insert (cd_SessionID cred) (ct_active (st_Sandbox st))"
  shows "app_inv cr (st\<lparr>st_Sandbox := c, st_Sessions := (st_Sessions st)(cd_SessionID cred \<mapsto> cred),
     st_Events := (st_Events st)(cd_SessionID cred \<mapsto> [])\<rparr>)" (is "app_inv cr ?st")
  unfolding app_inv_def
proof (intro conjI allI)
  show "dom (st_Sessions ?st) = ct_active (st_Sandbox ?st)"
    using assms(1,4) by (simp add: app_inv_def)
  fix sid
  have ok: "session_ok cr st sid" using assms(1) by (simp add: app_inv_def)
  show "session_ok cr ?st sid"
  proof (cases "sid = cd_SessionID cred")
    case True
    then show ?thesis using ok assms(2,3) by (simp add: session_ok_def)
  next
    case False
    then have "session_ok cr ?st sid = session_ok cr st sid" by (intro session_ok_cong) simp_all
    with ok show ?thesis by simp
  qed
qed

lemma app_inv_drop:
  assumes "app_inv cr st" and "ct_active c = ct_active (st_Sandbox st) - {sid}"
  shows "app_inv cr (drop_session sid (st\<lparr>st_Sandbox := c\<rparr>))" (is "app_inv cr ?st")
  unfolding app_inv_def
proof (intro conjI allI)
  show "dom (st_Sessions ?st) = ct_active (st_Sandbox ?st)"
    using assms by (auto simp: app_inv_def drop_session_def)
  fix s
  have ok: "session_ok cr st s" using assms(1) by (simp add: app_inv_def)
  show "session_ok cr ?st s"
  proof (cases "s = sid")
    case False
    then have "session_ok cr ?st s = session_ok cr st s" by (intro session_ok_cong) (simp_all add: drop_session_def)
    with ok show ?thesis by simp
  qed (simp add: session_ok_def drop_session_def)
qed

text \<open>What the handlers rely on of a backend is its contract.\<close>

context session_backend
begin

lemma createSession_inv:
  assumes "app_inv cr st" and "createSession tx ops body st = (r, st')"
  shows "app_inv cr st'"
  using assms(2)
proof (cases rule: createSession_cases)
  case (failed s cs e)
  have "ct_active (st_Sandbox st') = ct_active (st_Sandbox st)"
    using CreateSandbox_active [of ops "st_Sandbox st" s cs] failed(1) by simp
  from app_inv_sandbox [OF assms(1) this] failed(2) show ?thesis by simp
next
  case (created cred cs c')
  have "ct_active c' = insert (cd_SessionID cred) (ct_active (st_Sandbox st))"
    using CreateSandbox_active [of ops "st_Sandbox st" "cd_SessionID cred" cs] created(1) by simp
  from app_inv_create [OF assms(1) created(2,3) this] created(5) show ?thesis by simp
qed (use assms(1) in simp)

lemma deleteSession_inv:
  assumes "app_inv cr st" and "deleteSession ops s st = (r, st')"
  shows "app_inv cr st'"
  using assms(2)
proof (cases rule: deleteSession_cases)
  case (failed e)
  have "ct_active (st_Sandbox st') = ct_active (st_Sandbox st)"
    using DestroySandbox_active [of ops "st_Sandbox st" s] failed(1) by simp
  from app_inv_sandbox [OF assms(1) this] failed(5) show ?thesis by simp
next
  case (deleted e c')
  have "s \<in> ct_active (st_Sandbox st)" using assms(1) deleted(3) by (auto simp: app_inv_def)
  then have "e = None"
    using deleted(1,2) destroy_error_cases [of "st_Sandbox st" s] by (cases e) auto
  then have "ct_active c' = ct_active (st_Sandbox st) - {s}"
    using DestroySandbox_active [of ops "st_Sandbox st" s] deleted(1) by simp
  from app_inv_drop [OF assms(1) this] deleted(5) show ?thesis by simp
qed (use assms(1) in simp)

lemma Router_inv:
  assumes "app_inv cr st"
  shows "app_inv cr (snd (Router tx ops rq st))"
proof -
  have c: "app_inv cr (snd (createSession tx ops (rq_Body rq) st))"
    using createSession_inv [OF assms] by (metis prod.collapse)
  have d: "app_inv cr (snd (deleteSession ops s st))" for s
    using deleteSession_inv [OF assms] by (metis prod.collapse)
  show ?thesis
  proof (cases "mux (rq_Method rq) (rq_Path rq)")
    case None
    then show ?thesis using assms by (simp add: Router_def Let_def split: list.split)
  next
    case (Some ea)
    then obtain ep args where "mux (rq_Method rq) (rq_Path rq) = Some (ep, args)" by (cases ea) simp
    then show ?thesis using assms c d by (cases ep) (simp_all add: Router_def)
  qed
qed

end

section \<open>The consumer keeps the invariant\<close>

lemma admitLocked_tokens:
  "\<exists>b. snd (admitLocked now sid st) = st\<lparr>st_buckets := (st_buckets st)(sid \<mapsto> b)\<rparr> \<and> tb_tokens b \<le> bucketBurst"
proof -
  define b where "b = (case st_buckets st sid of None \<Rightarrow> \<lparr>tb_tokens = bucketBurst, tb_last = now\<rparr> | Some b \<Rightarrow> b)"
  have b: "snd (admitLocked now sid st) = st\<lparr>st_buckets := (st_buckets st)(sid \<mapsto> snd (bucket_admit now b))\<rparr>"
    by (simp add: admitLocked_def b_def Let_def split: prod.split)
  have "tb_tokens (refill now b) \<le> bucketBurst" by (simp add: refill_def)
  moreover have "float64 (tb_tokens (refill now b) - 1) \<le> bucketBurst" if "1 \<le> tb_tokens (refill now b)"
    using that calculation float64_mono [of "tb_tokens (refill now b) - 1" 20] float64_of_nat [of 20]
    by (simp add: bucketBurst_def)
  ultimately have "tb_tokens (snd (bucket_admit now b)) \<le> bucketBurst"
    by (simp add: bucket_admit_def Let_def)
  with b show ?thesis by blast
qed

lemma addLossLocked_inv: "app_inv cr (addLossLocked sid n st) = app_inv cr st"
  unfolding app_inv_def using session_ok_cong [of "addLossLocked sid n st" st] by (auto simp: addLossLocked_def)

lemma bucket_inv:
  assumes "app_inv cr st" and "st_Sessions st sid \<noteq> None" and "tb_tokens b \<le> bucketBurst"
  shows "app_inv cr (st\<lparr>st_buckets := (st_buckets st)(sid \<mapsto> b)\<rparr>)" (is "app_inv cr ?st")
proof -
  have ok: "session_ok cr st s" for s using assms(1) by (simp add: app_inv_def)
  have "session_ok cr ?st s" for s
  proof (cases "s = sid")
    case True
    then show ?thesis using ok [of sid] assms(2,3) by (auto simp: session_ok_def)
  next
    case False
    then show ?thesis using ok [of s] session_ok_cong [of ?st st s] by simp
  qed
  then show ?thesis using assms(1) by (simp add: app_inv_def)
qed

lemma push_event_inv:
  assumes "app_inv cr st" and "st_Sessions st sid = Some cred"
    and "event_ok cr (st_ActiveKey st) sid (cd_AgentID cred) ev"
  shows "app_inv cr (push_event sid ev st)"
proof -
  have ok: "session_ok cr st s" for s using assms(1) by (simp add: app_inv_def)
  have "session_ok cr (push_event sid ev st) s" for s
  proof (cases "s = sid")
    case True
    obtain evs where evs: "st_Events st sid = Some evs" "length evs \<le> eventsCap"
      "\<forall>e\<in>set evs. event_ok cr (st_ActiveKey st) sid (cd_AgentID cred) e"
      using ok [of sid] assms(2) by (auto simp: session_ok_def)
    let ?evs = "(if eventsCap \<le> length evs then tl evs else evs) @ [ev]"
    have "set (tl evs) \<subseteq> set evs" by (cases evs) auto
    then have "length ?evs \<le> eventsCap" "\<forall>e\<in>set ?evs. event_ok cr (st_ActiveKey st) sid (cd_AgentID cred) e"
      using evs assms(3) by (auto simp: eventsCap_def)
    moreover have "st_Events (push_event sid ev st) sid = Some ?evs"
      using evs(1) by (simp add: push_event_events)
    ultimately show ?thesis
      using True ok [of sid] assms(2) unfolding session_ok_def by simp
  next
    case False
    then show ?thesis
      using ok [of s] session_ok_cong [of "push_event sid ev st" st s] by (simp add: push_event_events)
  qed
  then show ?thesis using assms(1) by (simp add: app_inv_def)
qed

lemma recordDrop_inv:
  assumes "ed25519_correct cr" and "key_ok cr (st_ActiveKey st)" and "app_inv cr st"
  shows "app_inv cr (snd (recordDrop cr nv d st))"
proof (cases "st_Sessions st (d_SessionID d)")
  case (Some cred)
  let ?sid = "d_SessionID d"
  obtain b where b: "snd (admitLocked (nv_mono nv) ?sid st) = st\<lparr>st_buckets := (st_buckets st)(?sid \<mapsto> b)\<rparr>" "tb_tokens b \<le> bucketBurst"
    using admitLocked_tokens by blast
  let ?st = "st\<lparr>st_buckets := (st_buckets st)(?sid \<mapsto> b)\<rparr>"
  have inv: "app_inv cr ?st" using bucket_inv [OF assms(3) _ b(2)] Some by simp
  obtain ok where ok: "admitLocked (nv_mono nv) ?sid st = (ok, ?st)" using b(1) by (metis prod.collapse)
  let ?new = "New (nv_uuid nv) (nv_wall nv) ?sid (cd_AgentID cred) (violation_text d) (sk_keyID (st_ActiveKey st))"
  have "app_inv cr (push_event ?sid ev ?st)" if "Sign cr ?new (SigningKey (st_ActiveKey st)) = Inr ev" for ev
  proof (rule push_event_inv [OF inv])
    show "st_Sessions ?st ?sid = Some cred" using Some by simp
    have "Verify cr ev (VerifyingKey (st_ActiveKey st))" by (rule Sign_Verify [OF assms(1,2) that])
    then show "event_ok cr (st_ActiveKey ?st) ?sid (cd_AgentID cred) ev"
      using that by (auto simp: event_ok_def Sign_def rbind_Inr_iff New_def)
  qed
  then show ?thesis
    using inv Some ok by (cases ok) (simp_all add: recordDrop_def Let_def addLossLocked_inv split: sum.split)
qed (simp add: recordDrop_dead assms(3))

end
