(* ===== verification/Ruleset.thy ===== *)
theory Ruleset
  imports Cidr
begin

text \<open>
  Package \<^verbatim>\<open>ruleset\<close> (\<^verbatim>\<open>enforcer/internal/ruleset/ruleset.go\<close>): the nft script of one session.
  \<open>Render\<close> is the script text, built line by line as the code builds it. The script is also given as
  a structure: \<open>forward_chain\<close> is the list of filter rules of one family, and \<open>print_script\<close> prints
  the structure. The theory shows that the text is the print of the structure, and, for the
  documented evaluation of an nft base chain (rules in order, first terminal verdict, chain policy
  at the end), which packets of a session pass the chain and which are logged. When the text means the structure to
  \<^verbatim>\<open>nft\<close> is the subject of theory \<open>NftText\<close>.
\<close>

section \<open>The renderer\<close>

abbreviation nl :: string where
  "nl \<equiv> [CHR 0x0A]"

definition unconditionalDenyIPv4 :: "string list" where
  "unconditionalDenyIPv4 = [''169.254.169.254/32'', ''127.0.0.0/8'', ''10.200.0.0/16'']"

definition unconditionalDenyIPv6 :: "string list" where
  "unconditionalDenyIPv6 = [''fd00:ec2::254/128'', ''::1/128'', ''fe80::/10'']"

record Ruleset =
  rs_sessionID :: session_id
  rs_targets :: "Cidr list"

definition tableName :: "Ruleset \<Rightarrow> string" where
  "tableName r = ''warden_'' @ strings_ReplaceAll (rs_sessionID r) CHR ''-'' CHR ''_''"

definition logStmt :: "session_id \<Rightarrow> string" where
  "logStmt sessionID = ''log prefix \"warden:'' @ sessionID @ '':\" group 1''"

definition Render :: "Ruleset \<Rightarrow> string" where
  "Render r =
     (let table = tableName r; log = logStmt (rs_sessionID r) in
      ''table ip '' @ table @ '' { }'' @ nl @
      ''delete table ip '' @ table @ nl @
      ''table ip '' @ table @ '' {'' @ nl @
      ''    chain forward {'' @ nl @
      ''        type filter hook forward priority 0; policy drop;'' @ nl @
      concat (map (\<lambda>deny. ''        ip daddr '' @ deny @ '' '' @ log @ '' drop'' @ nl)
        unconditionalDenyIPv4) @
      ''        ct state established,related accept'' @ nl @
      concat (map (\<lambda>target.
          if Is4 (c_addr target) then ''        ip daddr '' @ cidr_String target @ '' accept'' @ nl else [])
        (rs_targets r)) @
      ''        '' @ log @ '' counter'' @ nl @
      ''    }'' @ nl @
      ''    chain postrouting {'' @ nl @
      ''        type nat hook postrouting priority srcnat; policy accept;'' @ nl @
      ''        masquerade'' @ nl @
      ''    }'' @ nl @
      ''}'' @ nl @
      ''table ip6 '' @ table @ '' { }'' @ nl @
      ''delete table ip6 '' @ table @ nl @
      ''table ip6 '' @ table @ '' {'' @ nl @
      ''    chain forward {'' @ nl @
      ''        type filter hook forward priority 0; policy drop;'' @ nl @
      concat (map (\<lambda>deny. ''        ip6 daddr '' @ deny @ '' '' @ log @ '' drop'' @ nl)
        unconditionalDenyIPv6) @
      ''        ct state established,related accept'' @ nl @
      concat (map (\<lambda>target.
          if \<not> Is4 (c_addr target) then ''        ip6 daddr '' @ cidr_String target @ '' accept'' @ nl else [])
        (rs_targets r)) @
      ''        '' @ log @ '' counter'' @ nl @
      ''    }'' @ nl @ ''}'' @ nl)"

section \<open>The script as a structure\<close>

datatype family = Ip | Ip6

datatype match = Daddr Cidr | CtEstablishedRelated | Always

datatype action = LogDrop session_id | Accept | LogCounter session_id

type_synonym rule = "match \<times> action"

text \<open>The deny lists as blocks.\<close>

definition deny_blocks :: "family \<Rightarrow> Cidr list" where
  "deny_blocks f =
     (case f of
        Ip \<Rightarrow>
          [\<lparr>c_addr = V4 0xA9FEA9FE, c_prefixLen = 32\<rparr>,
           \<lparr>c_addr = V4 0x7F000000, c_prefixLen = 8\<rparr>,
           \<lparr>c_addr = V4 0x0AC80000, c_prefixLen = 16\<rparr>]
      | Ip6 \<Rightarrow>
          [\<lparr>c_addr = V6 0xFD000EC2000000000000000000000254, c_prefixLen = 128\<rparr>,
           \<lparr>c_addr = V6 1, c_prefixLen = 128\<rparr>,
           \<lparr>c_addr = V6 0xFE800000000000000000000000000000, c_prefixLen = 10\<rparr>])"

definition of_family :: "family \<Rightarrow> addr \<Rightarrow> bool" where
  "of_family f a \<longleftrightarrow> (f = Ip) = Is4 a"

definition forward_chain :: "Ruleset \<Rightarrow> family \<Rightarrow> rule list" where
  "forward_chain r f =
     map (\<lambda>d. (Daddr d, LogDrop (rs_sessionID r))) (deny_blocks f) @
     [(CtEstablishedRelated, Accept)] @
     map (\<lambda>t. (Daddr t, Accept)) (filter (\<lambda>t. of_family f (c_addr t)) (rs_targets r)) @
     [(Always, LogCounter (rs_sessionID r))]"

definition family_name :: "family \<Rightarrow> string" where
  "family_name f = (case f of Ip \<Rightarrow> ''ip'' | Ip6 \<Rightarrow> ''ip6'')"

fun print_match :: "family \<Rightarrow> match \<Rightarrow> string" where
  "print_match f (Daddr c) = family_name f @ '' daddr '' @ cidr_String c @ '' ''"
| "print_match f CtEstablishedRelated = ''ct state established,related ''"
| "print_match f Always = []"

fun print_action :: "action \<Rightarrow> string" where
  "print_action (LogDrop s) = logStmt s @ '' drop''"
| "print_action Accept = ''accept''"
| "print_action (LogCounter s) = logStmt s @ '' counter''"

definition print_rule :: "family \<Rightarrow> rule \<Rightarrow> string" where
  "print_rule f r = ''        '' @ print_match f (fst r) @ print_action (snd r) @ nl"

definition print_nat_chain :: string where
  "print_nat_chain =
     ''    chain postrouting {'' @ nl @
     ''        type nat hook postrouting priority srcnat; policy accept;'' @ nl @
     ''        masquerade'' @ nl @
     ''    }'' @ nl"

text \<open>
  The commands of the script: for each family, create the table if it is missing, delete it, and
  define it again with the session's chains.
\<close>

record table =
  t_forward :: "rule list"
  t_masquerade :: bool

datatype nft_cmd =
    EnsureTable family string
  | DeleteTable family string
  | DefineTable family string table

definition session_table :: "Ruleset \<Rightarrow> family \<Rightarrow> table" where
  "session_table r f = \<lparr>t_forward = forward_chain r f, t_masquerade = (f = Ip)\<rparr>"

definition table_cmds :: "Ruleset \<Rightarrow> family \<Rightarrow> nft_cmd list" where
  "table_cmds r f =
     [EnsureTable f (tableName r), DeleteTable f (tableName r),
      DefineTable f (tableName r) (session_table r f)]"

definition script_cmds :: "Ruleset \<Rightarrow> nft_cmd list" where
  "script_cmds r = table_cmds r Ip @ table_cmds r Ip6"

fun print_cmd :: "nft_cmd \<Rightarrow> string" where
  "print_cmd (EnsureTable f n) = ''table '' @ family_name f @ '' '' @ n @ '' { }'' @ nl"
| "print_cmd (DeleteTable f n) = ''delete table '' @ family_name f @ '' '' @ n @ nl"
| "print_cmd (DefineTable f n t) =
     ''table '' @ family_name f @ '' '' @ n @ '' {'' @ nl @
     ''    chain forward {'' @ nl @
     ''        type filter hook forward priority 0; policy drop;'' @ nl @
     concat (map (print_rule f) (t_forward t)) @
     ''    }'' @ nl @
     (if t_masquerade t then print_nat_chain else []) @
     ''}'' @ nl"

definition print_script :: "Ruleset \<Rightarrow> string" where
  "print_script r = concat (map print_cmd (script_cmds r))"

section \<open>Execution of a script\<close>

text \<open>
  The tables of one namespace, and what nft documents of the three commands: a table block adds its
  rules to the table, which is created if it does not exist, and deleting a table that does not
  exist is an error. A script is one transaction: an error anywhere leaves the tables as they were.
\<close>

type_synonym tables = "family \<times> string \<rightharpoonup> table"

definition merge_table :: "table option \<Rightarrow> table \<Rightarrow> table" where
  "merge_table old t =
     (case old of
        None \<Rightarrow> t
      | Some o' \<Rightarrow> \<lparr>t_forward = t_forward o' @ t_forward t, t_masquerade = t_masquerade o' \<or> t_masquerade t\<rparr>)"

fun exec_cmd :: "nft_cmd \<Rightarrow> tables \<Rightarrow> tables option" where
  "exec_cmd (EnsureTable f n) ts =
     Some (case ts (f, n) of None \<Rightarrow> ts((f, n) \<mapsto> \<lparr>t_forward = [], t_masquerade = False\<rparr>) | Some _ \<Rightarrow> ts)"
| "exec_cmd (DeleteTable f n) ts =
     (case ts (f, n) of None \<Rightarrow> None | Some _ \<Rightarrow> Some (ts((f, n) := None)))"
| "exec_cmd (DefineTable f n t) ts = Some (ts((f, n) \<mapsto> merge_table (ts (f, n)) t))"

fun exec_cmds :: "nft_cmd list \<Rightarrow> tables \<Rightarrow> tables option" where
  "exec_cmds [] ts = Some ts"
| "exec_cmds (c # cs) ts = (case exec_cmd c ts of None \<Rightarrow> None | Some ts' \<Rightarrow> exec_cmds cs ts')"

definition transaction :: "nft_cmd list \<Rightarrow> tables \<Rightarrow> bool \<times> tables" where
  "transaction cs ts = (case exec_cmds cs ts of None \<Rightarrow> (False, ts) | Some ts' \<Rightarrow> (True, ts'))"

section \<open>Evaluation of a base chain\<close>

record packet =
  p_dst :: addr
  p_established :: bool

datatype verdict = Accepted | Dropped

fun pkt_matches :: "match \<Rightarrow> packet \<Rightarrow> bool" where
  "pkt_matches (Daddr c) p = in_block c (p_dst p)"
| "pkt_matches CtEstablishedRelated p = p_established p"
| "pkt_matches Always p = True"

text \<open>The verdict and the session identifiers logged on the way; the policy of the chain is drop.\<close>

fun eval_chain :: "rule list \<Rightarrow> packet \<Rightarrow> verdict \<times> session_id list" where
  "eval_chain [] p = (Dropped, [])"
| "eval_chain ((m, a) # rs) p =
     (if pkt_matches m p then
        (case a of
           LogDrop s \<Rightarrow> (Dropped, [s])
         | Accept \<Rightarrow> (Accepted, [])
         | LogCounter s \<Rightarrow> (case eval_chain rs p of (v, l) \<Rightarrow> (v, s # l)))
      else eval_chain rs p)"

section \<open>First-match chains\<close>

text \<open>
  What nft documents of a base chain with policy drop, for any matcher and any evaluator: the
  client facts below use these five laws only.
\<close>

locale first_match_chain =
  fixes matches :: "'m \<Rightarrow> 'p \<Rightarrow> bool"
    and run :: "('m \<times> action) list \<Rightarrow> 'p \<Rightarrow> verdict \<times> session_id list"
  assumes run_policy: "run [] p = (Dropped, [])"
    and run_skip: "\<not> matches m p \<Longrightarrow> run ((m, a) # rs) p = run rs p"
    and run_drop: "matches m p \<Longrightarrow> run ((m, LogDrop s) # rs) p = (Dropped, [s])"
    and run_accept: "matches m p \<Longrightarrow> run ((m, Accept) # rs) p = (Accepted, [])"
    and run_log: "matches m p \<Longrightarrow> run ((m, LogCounter s) # rs) p = (fst (run rs p), s # snd (run rs p))"
begin

lemma run_denies:
  "run (map (\<lambda>m. (m, LogDrop s)) ms @ rs) p =
     (if \<exists>m\<in>set ms. matches m p then (Dropped, [s]) else run rs p)"
proof (induction ms)
  case (Cons m ms)
  then show ?case by (cases "matches m p") (simp_all add: run_drop run_skip)
qed simp

lemma run_accepts:
  "run (map (\<lambda>m. (m, Accept)) ms @ rs) p =
     (if \<exists>m\<in>set ms. matches m p then (Accepted, []) else run rs p)"
proof (induction ms)
  case (Cons m ms)
  then show ?case by (cases "matches m p") (simp_all add: run_accept run_skip)
qed simp

text \<open>Denies, then accepts, then a rule that logs every packet that is left.\<close>

lemma run_deny_accept_log:
  assumes "matches m p"
  shows "run (map (\<lambda>m. (m, LogDrop s)) ds @ map (\<lambda>m. (m, Accept)) as @ [(m, LogCounter s)]) p =
    (if \<exists>m\<in>set ds. matches m p then (Dropped, [s])
     else if \<exists>m\<in>set as. matches m p then (Accepted, [])
     else (Dropped, [s]))"
  using assms by (simp add: run_denies run_accepts run_log run_policy)

end

interpretation nft: first_match_chain pkt_matches eval_chain
  by unfold_locales (auto split: prod.splits)

section \<open>The session's forward chain\<close>

lemma forward_chain_eval:
  "eval_chain (forward_chain r f) p =
     (if \<exists>d\<in>set (deny_blocks f). in_block d (p_dst p) then (Dropped, [rs_sessionID r])
      else if p_established p \<or>
        (\<exists>t\<in>set (rs_targets r). of_family f (c_addr t) \<and> in_block t (p_dst p)) then (Accepted, [])
      else (Dropped, [rs_sessionID r]))"
proof -
  let ?s = "rs_sessionID r"
  have chain: "forward_chain r f =
      map (\<lambda>m. (m, LogDrop ?s)) (map Daddr (deny_blocks f)) @
      map (\<lambda>m. (m, Accept))
        (CtEstablishedRelated # map Daddr (filter (\<lambda>t. of_family f (c_addr t)) (rs_targets r))) @
      [(Always, LogCounter ?s)]"
    by (simp add: forward_chain_def)
  show ?thesis
    unfolding chain by (subst nft.run_deny_accept_log) auto
qed

section \<open>The text is the print of the structure\<close>

lemma deny_groups:
  "be_units 8 (0xFD000EC2000000000000000000000254 :: u128) = ([0xfd00, 0xec2, 0, 0, 0, 0, 0, 0x254] :: u16 list)"
  "be_units 8 (1 :: u128) = ([0, 0, 0, 0, 0, 0, 0, 1] :: u16 list)"
  "be_units 8 (0xFE800000000000000000000000000000 :: u128) = ([0xfe80, 0, 0, 0, 0, 0, 0, 0] :: u16 list)"
  by (simp_all add: be_units_8)

lemma deny_strings:
  "string4 0xA9FEA9FE = ''169.254.169.254''"
  "string4 0x7F000000 = ''127.0.0.0''"
  "string4 0x0AC80000 = ''10.200.0.0''"
  "string6 0xFD000EC2000000000000000000000254 = ''fd00:ec2::254''"
  "string6 1 = ''::1''"
  "string6 0xFE800000000000000000000000000000 = ''fe80::''"
  by (simp_all add: eval_string4 eval_string6 deny_groups)

lemma deny_blocks_print:
  "map cidr_String (deny_blocks Ip) = unconditionalDenyIPv4"
  "map cidr_String (deny_blocks Ip6) = unconditionalDenyIPv6"
  by (simp_all add: deny_blocks_def unconditionalDenyIPv4_def unconditionalDenyIPv6_def cidr_String_def
      Is4In6_def deny_strings format_dec_def to_digits.simps digit_char_table)

lemma concat_map_filter:
  "concat (map (\<lambda>x. if P x then f x else []) xs) = concat (map f (filter P xs))"
  by (induction xs) auto

lemma print_forward_chain:
  "concat (map (print_rule f) (forward_chain r f)) =
     concat (map (\<lambda>deny. ''        '' @ family_name f @ '' daddr '' @ deny @ '' '' @
       logStmt (rs_sessionID r) @ '' drop'' @ nl) (map cidr_String (deny_blocks f))) @
     ''        ct state established,related accept'' @ nl @
     concat (map (\<lambda>target. ''        '' @ family_name f @ '' daddr '' @ cidr_String target @ '' accept'' @ nl)
       (filter (\<lambda>t. of_family f (c_addr t)) (rs_targets r))) @
     ''        '' @ logStmt (rs_sessionID r) @ '' counter'' @ nl"
  by (simp add: forward_chain_def print_rule_def comp_def)

lemma Render_print_script: "Render r = print_script r"
  by (simp add: Render_def print_script_def script_cmds_def table_cmds_def session_table_def
      print_forward_chain deny_blocks_print concat_map_filter of_family_def family_name_def
      print_nat_chain_def Let_def)

section \<open>The script replaces the session's tables\<close>

lemma exec_cmds_append:
  "exec_cmds (xs @ ys) ts = (case exec_cmds xs ts of None \<Rightarrow> None | Some ts' \<Rightarrow> exec_cmds ys ts')"
  by (induction xs arbitrary: ts) (auto split: option.splits)

lemma exec_table_cmds:
  "exec_cmds (table_cmds r f) ts = Some (ts((f, tableName r) \<mapsto> session_table r f))"
  by (auto simp: table_cmds_def merge_table_def split: option.splits)

lemma exec_script_cmds:
  "exec_cmds (script_cmds r) ts =
     Some (ts((Ip, tableName r) \<mapsto> session_table r Ip, (Ip6, tableName r) \<mapsto> session_table r Ip6))"
  by (simp add: script_cmds_def exec_cmds_append exec_table_cmds)

lemma tableName_eq_iff:
  "tableName r = tableName r' \<longleftrightarrow>
     list_all2 (\<lambda>x y. x = y \<or> x \<in> {CHR ''-'', CHR ''_''} \<and> y \<in> {CHR ''-'', CHR ''_''})
       (rs_sessionID r) (rs_sessionID r')"
  unfolding tableName_def same_append_eq by (rule strings_ReplaceAll_eq_iff)

lemma forward_chain_new_connection:
  assumes "rmap Parse texts = Inr (rs_targets r)" and "of_family f (p_dst p)" and "\<not> p_established p"
  shows "fst (eval_chain (forward_chain r f) p) = Accepted \<longleftrightarrow>
    (\<exists>t\<in>set (rs_targets r). Contains t (p_dst p) = Some True) \<and>
    (\<forall>d\<in>set (deny_blocks f). Contains d (p_dst p) = Some False)"
proof -
  have wf: "wf_cidr t" if "t \<in> set (rs_targets r)" for t
    using assms(1) that by (auto simp: rmap_Inr_iff list_all2_conv_all_nth in_set_conv_nth dest: Parse_wf)
  have deny: "wf_cidr d" if "d \<in> set (deny_blocks f)" for d
    using that by (auto simp: deny_blocks_def wf_cidr_def max_prefix_def split: family.splits)
  have fam: "of_family f (c_addr t)" if "in_block t (p_dst p)" for t
    using assms(2) in_block_family [OF that] by (simp add: of_family_def)
  show ?thesis
    using assms(3) wf deny fam by (auto simp: forward_chain_eval Contains_in_block)
qed

lemma targets_contain:
  assumes "rmap Parse texts = Inr cs"
  shows "(\<exists>c\<in>set cs. Contains c ip = Some True) \<longleftrightarrow>
    (\<exists>text\<in>set texts. \<exists>c. Parse text = Inr c \<and> Contains c ip = Some True)"
proof -
  have "list_all2 (\<lambda>t c. Parse t = Inr c) texts cs" using assms by (simp add: rmap_Inr_iff)
  then show ?thesis by (induction rule: list_all2_induct) auto
qed

section \<open>Properties\<close>

text \<open>C19: The script text that \<open>Render\<close> builds is exactly the print of the structured script, for every
  session identifier and every list of targets.\<close>

theorem render_is_structured_script: "Render r = print_script r"
  by (rule Render_print_script)

text \<open>C5: A packet to an unconditionally denied block is dropped and logged with the session's
  identifier, whatever the targets are and whatever its connection state: no credential claim
  overrides the deny list.\<close>

theorem denied_block_never_reachable:
  assumes "d \<in> set (deny_blocks f)" and "in_block d (p_dst p)"
  shows "eval_chain (forward_chain r f) p = (Dropped, [rs_sessionID r])"
  using assms by (auto simp: forward_chain_eval)

text \<open>The metadata address, with a target that allows every IPv4 address.\<close>

theorem denied_block_never_reachable_witness:
  "eval_chain
     (forward_chain \<lparr>rs_sessionID = ''s-1'', rs_targets = [\<lparr>c_addr = V4 0, c_prefixLen = 0\<rparr>]\<rparr> Ip)
     \<lparr>p_dst = V4 0xA9FEA9FE, p_established = True\<rparr> = (Dropped, [''s-1''])"
  using denied_block_never_reachable [of "\<lparr>c_addr = V4 0xA9FEA9FE, c_prefixLen = 32\<rparr>" Ip
      "\<lparr>p_dst = V4 0xA9FEA9FE, p_established = True\<rparr>"
      "\<lparr>rs_sessionID = ''s-1'', rs_targets = [\<lparr>c_addr = V4 0, c_prefixLen = 0\<rparr>]\<rparr>"]
  by (simp add: deny_blocks_def in_block.simps)

text \<open>A packet that opens a connection passes the chain of its family exactly if its destination is
  in a target of that family, as \<open>Contains\<close> decides it, and in no denied block; everything else is
  dropped.\<close>

theorem new_connection_scope:
  assumes "rmap Parse texts = Inr (rs_targets r)" and "of_family f (p_dst p)" and "\<not> p_established p"
  shows "fst (eval_chain (forward_chain r f) p) = Accepted \<longleftrightarrow>
    (\<exists>t\<in>set (rs_targets r). Contains t (p_dst p) = Some True) \<and>
    (\<forall>d\<in>set (deny_blocks f). Contains d (p_dst p) = Some False)"
  using assms by (rule forward_chain_new_connection)

text \<open>A session with one target: the target itself passes.\<close>

lemma parse_target_example:
  "Parse ''203.0.113.7/32'' = Inr \<lparr>c_addr = V4 0xCB007107, c_prefixLen = 32\<rparr>"
proof -
  have "cidr_String \<lparr>c_addr = V4 0xCB007107, c_prefixLen = 32\<rparr> = ''203.0.113.7/32''"
    by (simp add: cidr_String_def eval_string4)
  then show ?thesis
    using Parse_String [of "\<lparr>c_addr = V4 0xCB007107, c_prefixLen = 32\<rparr>"]
    by (simp add: wf_cidr_def max_prefix_def)
qed

theorem new_connection_scope_witness:
  "fst (eval_chain
     (forward_chain \<lparr>rs_sessionID = ''s-1'', rs_targets = [\<lparr>c_addr = V4 0xCB007107, c_prefixLen = 32\<rparr>]\<rparr> Ip)
     \<lparr>p_dst = V4 0xCB007107, p_established = False\<rparr>) = Accepted"
proof -
  let ?t = "\<lparr>c_addr = V4 0xCB007107, c_prefixLen = 32\<rparr>"
  have wf: "wf_cidr ?t" and deny: "\<forall>d\<in>set (deny_blocks Ip). wf_cidr d"
    by (simp_all add: wf_cidr_def max_prefix_def deny_blocks_def)
  show ?thesis
    using new_connection_scope [of "[''203.0.113.7/32'']" "\<lparr>rs_sessionID = ''s-1'', rs_targets = [?t]\<rparr>" Ip
        "\<lparr>p_dst = V4 0xCB007107, p_established = False\<rparr>"] wf deny
    by (simp add: parse_target_example of_family_def Contains_in_block)
      (simp add: in_block.simps deny_blocks_def Let_def)
qed

text \<open>The session's tables log each packet they drop exactly once, under the session's own
  identifier, and log no packet they accept.\<close>

theorem dropped_iff_logged:
  "snd (eval_chain (forward_chain r f) p) =
     (if fst (eval_chain (forward_chain r f) p) = Dropped then [rs_sessionID r] else [])"
  by (simp add: forward_chain_eval)

text \<open>Applying the script succeeds on any tables of the namespace, leaves for the session's name
  exactly the session's own chains (also when older rules were there), and changes no other
  table; applying it again changes nothing.\<close>

theorem script_replaces_tables:
  "transaction (script_cmds r) ts =
     (True, ts((Ip, tableName r) \<mapsto> session_table r Ip, (Ip6, tableName r) \<mapsto> session_table r Ip6)) \<and>
   transaction (script_cmds r) (snd (transaction (script_cmds r) ts)) = transaction (script_cmds r) ts"
  by (auto simp: transaction_def exec_script_cmds fun_upd_def)

text \<open>Two sessions use the same table name exactly if their identifiers agree up to exchanging hyphens
  and underscores, so the name does not separate all sessions.\<close>

theorem tableName_collisions:
  "tableName \<lparr>rs_sessionID = s, rs_targets = ts\<rparr> = tableName \<lparr>rs_sessionID = s', rs_targets = ts'\<rparr> \<longleftrightarrow>
     list_all2 (\<lambda>x y. x = y \<or> x \<in> {CHR ''-'', CHR ''_''} \<and> y \<in> {CHR ''-'', CHR ''_''}) s s'"
  by (simp add: tableName_eq_iff)

end
