(* ===== verification/Uplink.thy ===== *)
theory Uplink
  imports Ruleset
begin

text \<open>
  The uplink pool of the sandbox package (\<^verbatim>\<open>enforcer/internal/sandbox/uplink.go\<close>): every session
  gets the lowest free index below 16384, and with it a subnet of four addresses of
  \<^verbatim>\<open>10.200.0.0/16\<close>. The allocator's two maps are a record; the Go map \<open>used\<close> is read only with the
  zero value as default, so it is a boolean function. The theory shows that the two maps stay inverse to
  each other, that the pool is exhausted only when 16384 sessions hold an index, that subnets of
  different indices are disjoint, and that the rule set keeps every session away from all of them.
\<close>

section \<open>Subnets and the allocator\<close>

definition maxUplinks :: nat where
  "maxUplinks = 16384"

definition uplinkSubnet :: "nat \<Rightarrow> string \<times> string \<times> string" where
  "uplinkSubnet idx =
     (let base = idx * 4;
          oct3 = drop_bit 8 base;
          oct4 = and base 0xff;
          gateway = ''10.200.'' @ format_dec oct3 @ ''.'' @ format_dec (oct4 + 1)
      in (gateway @ ''/30'',
          ''10.200.'' @ format_dec oct3 @ ''.'' @ format_dec (oct4 + 2) @ ''/30'',
          gateway))"

record uplinkAllocator =
  ua_bySession :: "session_id \<rightharpoonup> nat"
  ua_used :: "nat \<Rightarrow> bool"

definition newUplinkAllocator :: uplinkAllocator where
  "newUplinkAllocator = \<lparr>ua_bySession = Map.empty, ua_used = (\<lambda>_. False)\<rparr>"

text \<open>The scan for the lowest free index, from \<open>i\<close>.\<close>

function findFree :: "(nat \<Rightarrow> bool) \<Rightarrow> nat \<Rightarrow> nat option" where
  "findFree used i =
     (if i < maxUplinks then if \<not> used i then Some i else findFree used (Suc i) else None)"
  by pat_completeness auto
termination
  by (relation "measure (\<lambda>(used, i). maxUplinks - i)") auto

declare findFree.simps [simp del]

datatype alloc_error = PoolExhausted

definition alloc :: "uplinkAllocator \<Rightarrow> session_id \<Rightarrow> (alloc_error + nat) \<times> uplinkAllocator" where
  "alloc a sessionID =
     (case findFree (ua_used a) 0 of
        Some i \<Rightarrow>
          (Inr i, a\<lparr>ua_used := (ua_used a)(i := True), ua_bySession := (ua_bySession a)(sessionID \<mapsto> i)\<rparr>)
      | None \<Rightarrow> (Inl PoolExhausted, a))"

definition free :: "uplinkAllocator \<Rightarrow> session_id \<Rightarrow> uplinkAllocator" where
  "free a sessionID =
     (case ua_bySession a sessionID of
        Some idx \<Rightarrow>
          a\<lparr>ua_used := (ua_used a)(idx := False), ua_bySession := (ua_bySession a)(sessionID := None)\<rparr>
      | None \<Rightarrow> a)"

section \<open>The invariant of the allocator\<close>

definition uplink_inv :: "uplinkAllocator \<Rightarrow> bool" where
  "uplink_inv a \<longleftrightarrow>
     inj_on (ua_bySession a) (dom (ua_bySession a)) \<and>
     (\<forall>i. ua_used a i \<longleftrightarrow> i \<in> ran (ua_bySession a)) \<and>
     ran (ua_bySession a) \<subseteq> {..<maxUplinks} \<and> finite (dom (ua_bySession a))"

lemma findFree_Some:
  "findFree used i = Some j \<longleftrightarrow> i \<le> j \<and> j < maxUplinks \<and> \<not> used j \<and> (\<forall>k. i \<le> k \<longrightarrow> k < j \<longrightarrow> used k)"
proof (induction used i rule: findFree.induct)
  case (1 used i)
  show ?case
  proof (cases "i < maxUplinks \<and> used i")
    case True
    then have "findFree used i = findFree used (Suc i)" by (simp add: findFree.simps [of used i])
    moreover have "(Suc i \<le> j \<and> (\<forall>k. Suc i \<le> k \<longrightarrow> k < j \<longrightarrow> used k) \<and> \<not> used j) \<longleftrightarrow>
        (i \<le> j \<and> (\<forall>k. i \<le> k \<longrightarrow> k < j \<longrightarrow> used k) \<and> \<not> used j)"
      using True by (metis Suc_leD Suc_leI le_neq_implies_less)
    ultimately show ?thesis using True "1.IH" by auto
  next
    case False
    then show ?thesis
      by (auto simp: findFree.simps [of used i] not_less)
  qed
qed

lemma findFree_None: "findFree used i = None \<longleftrightarrow> (\<forall>k. i \<le> k \<longrightarrow> k < maxUplinks \<longrightarrow> used k)"
proof (induction used i rule: findFree.induct)
  case (1 used i)
  then show ?case
    by (auto simp: findFree.simps [of used i]) (metis Suc_leI le_neq_implies_less)
qed

lemma new_inv [inv_rules]: "uplink_inv newUplinkAllocator"
  by (simp add: uplink_inv_def newUplinkAllocator_def)

lemma alloc_inv [inv_rules]:
  assumes "uplink_inv a" and "ua_bySession a s = None"
  shows "uplink_inv (snd (alloc a s))"
proof (cases "findFree (ua_used a) 0")
  case None
  with assms show ?thesis by (simp add: alloc_def)
next
  case (Some i)
  then have i: "i < maxUplinks" "i \<notin> ran (ua_bySession a)"
    using assms(1) by (auto simp: findFree_Some uplink_inv_def)
  then have "inj_on ((ua_bySession a)(s \<mapsto> i)) (dom ((ua_bySession a)(s \<mapsto> i)))"
    using assms(1) by (intro map_add_upd_ran) (auto simp: uplink_inv_def)
  with Some i assms show ?thesis
    by (auto simp: alloc_def uplink_inv_def)
qed

lemma free_inv [inv_rules]: "uplink_inv a \<Longrightarrow> uplink_inv (free a s)"
  using inj_on_upd_None [of "ua_bySession a" s]
  by (auto simp: free_def uplink_inv_def ran_upd_None_inj split: option.splits)

lemma free_alloc:
  assumes "uplink_inv a" and "ua_bySession a s = None" and "alloc a s = (Inr i, a')"
  shows "free a' s = a"
proof -
  from assms have "i \<notin> ran (ua_bySession a)" "findFree (ua_used a) 0 = Some i"
    by (auto simp: alloc_def findFree_Some uplink_inv_def split: option.splits)
  moreover from this assms have "\<not> ua_used a i" by (simp add: uplink_inv_def)
  ultimately show ?thesis
    using assms by (auto simp: alloc_def free_def fun_upd_idem_iff intro!: uplinkAllocator.equality)
qed

lemma used_count:
  assumes "uplink_inv a"
  shows "(\<forall>k<maxUplinks. ua_used a k) \<longleftrightarrow> card (dom (ua_bySession a)) = maxUplinks"
proof -
  have card: "card (ran (ua_bySession a)) = card (dom (ua_bySession a))"
    using assms by (intro card_ran_inj) (simp add: uplink_inv_def)
  have "(\<forall>k<maxUplinks. ua_used a k) \<longleftrightarrow> ran (ua_bySession a) = {..<maxUplinks}"
    using assms by (auto simp: uplink_inv_def)
  also have "\<dots> \<longleftrightarrow> card (ran (ua_bySession a)) = maxUplinks"
    using assms by (metis card_lessThan card_subset_eq finite_lessThan uplink_inv_def)
  finally show ?thesis unfolding card .
qed

section \<open>The addresses of a subnet\<close>

text \<open>The address at offset \<open>k\<close> of the subnet of index \<open>idx\<close>.\<close>

definition uplink_addr :: "nat \<Rightarrow> nat \<Rightarrow> u32" where
  "uplink_addr idx k = be_join [10, 200, of_nat (idx * 4 div 256) :: byte, of_nat (idx * 4 mod 256 + k)]"

lemma uplink_octets:
  assumes "idx < maxUplinks" and "k < 4"
  shows "unat (of_nat (idx * 4 div 256) :: byte) = idx * 4 div 256"
    and "unat (of_nat (idx * 4 mod 256 + k) :: byte) = idx * 4 mod 256 + k"
proof -
  show "unat (of_nat (idx * 4 div 256) :: byte) = idx * 4 div 256"
    using assms(1) by (intro unat_of_nat_byte) (simp add: maxUplinks_def less_mult_imp_div_less)
  have "(idx * 4) mod (64 * 4) = idx mod 64 * 4" by (rule mult_mod_left [symmetric])
  moreover have "idx mod 64 < 64" by simp
  ultimately have "idx * 4 mod 256 \<le> 252" by simp
  then show "unat (of_nat (idx * 4 mod 256 + k) :: byte) = idx * 4 mod 256 + k"
    using assms(2) by (intro unat_of_nat_byte) linarith
qed

lemma unat_uplink_addr:
  assumes "idx < maxUplinks" and "k < 4"
  shows "unat (uplink_addr idx k) = 0x0AC80000 + idx * 4 + k"
proof -
  let ?b = "idx * 4 div 256" and ?c = "idx * 4 mod 256 + k"
  note octets = uplink_octets [OF assms]
  have "unat (uplink_addr idx k) = ((10 * 256 + 200) * 256 + ?b) * 256 + ?c"
    using unat_be_join [where us = "[10, 200, of_nat ?b, of_nat ?c :: byte]" and 'a = 32] octets
    by (simp add: uplink_addr_def of_digits_def del: unsigned_of_nat)
  also have "\<dots> = 0x0AC80000 + (?b * 256 + idx * 4 mod 256) + k" by simp
  also have "?b * 256 + idx * 4 mod 256 = idx * 4" by (rule div_mult_mod_eq)
  finally show ?thesis .
qed

lemma string4_uplink_addr:
  assumes "idx < maxUplinks" and "k < 4"
  shows "string4 (uplink_addr idx k) =
    ''10.200.'' @ format_dec (idx * 4 div 256) @ ''.'' @ format_dec (idx * 4 mod 256 + k)"
proof -
  let ?b = "idx * 4 div 256" and ?c = "idx * 4 mod 256 + k"
  let ?bs = "[10, 200, of_nat ?b :: byte, of_nat ?c]"
  note octets = uplink_octets [OF assms]
  have "As4 (uplink_addr idx k) = ?bs"
    unfolding As4_def uplink_addr_def by (rule be_units_join) simp_all
  then show ?thesis
    using octets by (simp add: string4_def format_dec_def [of 10] format_dec_def [of 200] to_digits.simps
        digit_char_table del: unsigned_of_nat)
qed

text \<open>The texts of \<open>uplinkSubnet\<close> are the printed addresses.\<close>

lemma uplinkSubnet_addrs:
  assumes "idx < maxUplinks"
  shows "uplinkSubnet idx =
    (cidr_String \<lparr>c_addr = V4 (uplink_addr idx 1), c_prefixLen = 30\<rparr>,
     cidr_String \<lparr>c_addr = V4 (uplink_addr idx 2), c_prefixLen = 30\<rparr>,
     addr_String (V4 (uplink_addr idx 1)))"
proof -
  have "format_dec 30 = ''30''"
    by (simp add: format_dec_def to_digits.simps digit_char_table)
  moreover have "drop_bit 8 (idx * 4) = idx * 4 div 256" "and (idx * 4) 0xff = idx * 4 mod 256"
    using take_bit_eq_mask [of 8 "idx * 4"] by (simp_all add: drop_bit_eq_div take_bit_eq_mod mask_eq_exp_minus_1)
  ultimately show ?thesis
    using string4_uplink_addr [OF assms, of 1] string4_uplink_addr [OF assms, of 2]
    by (simp add: uplinkSubnet_def cidr_String_def Let_def)
qed

text \<open>Every address of the pool is in the third denied block.\<close>

lemma uplink_addr_denied:
  assumes "idx < maxUplinks" and "k < 4"
  shows "in_block \<lparr>c_addr = V4 0x0AC80000, c_prefixLen = 16\<rparr> (V4 (uplink_addr idx k))"
proof -
  have "drop_bit 16 (uplink_addr idx k) = 0xAC8"
  proof -
    have "idx * 4 + k < 65536" using assms by (simp add: maxUplinks_def)
    then have "unat (uplink_addr idx k) div 65536 = 0xAC8"
      by (simp add: unat_uplink_addr [OF assms] add.assoc)
    then have "unat (drop_bit 16 (uplink_addr idx k)) = 0xAC8"
      by (subst unat_drop_bit_eq) (simp add: drop_bit_eq_div)
    then show ?thesis by (simp only: word_unat_eq_iff) simp
  qed
  then show ?thesis by (simp add: in_block.simps)
qed

lemma uplink_block_number:
  assumes "idx < maxUplinks" and "k < 4"
  shows "unat (drop_bit 2 (uplink_addr idx k)) = 0x02B20000 + idx"
proof -
  have "unat (drop_bit 2 (uplink_addr idx k)) = (0x0AC80000 + idx * 4 + k) div 4"
    by (subst unat_drop_bit_eq) (simp add: drop_bit_eq_div unat_uplink_addr [OF assms])
  also have "\<dots> = (k + (0x02B20000 + idx) * 4) div 4" by (simp add: algebra_simps)
  also have "\<dots> = 0x02B20000 + idx" using assms(2) by simp
  finally show ?thesis .
qed

lemma subnet_parses:
  assumes "idx < maxUplinks" and "uplinkSubnet idx = (hostCIDR, nsCIDR, gateway)"
  shows "Parse hostCIDR = Inr \<lparr>c_addr = V4 (uplink_addr idx 1), c_prefixLen = 30\<rparr>"
    and "Parse nsCIDR = Inr \<lparr>c_addr = V4 (uplink_addr idx 2), c_prefixLen = 30\<rparr>"
    and "netip_ParseAddr gateway = Inr (V4 (uplink_addr idx 1))"
  using assms Parse_String [of "\<lparr>c_addr = V4 (uplink_addr idx 1), c_prefixLen = 30\<rparr>"]
    Parse_String [of "\<lparr>c_addr = V4 (uplink_addr idx 2), c_prefixLen = 30\<rparr>"]
    netip_ParseAddr_String [of "V4 (uplink_addr idx 1)"]
  by (simp_all add: uplinkSubnet_addrs wf_cidr_def max_prefix_def)

lemma uplink_blocks_disjoint:
  assumes "i < maxUplinks" and "j < maxUplinks"
    and "in_block \<lparr>c_addr = V4 (uplink_addr i 1), c_prefixLen = 30\<rparr> ip"
    and "in_block \<lparr>c_addr = V4 (uplink_addr j 1), c_prefixLen = 30\<rparr> ip"
  shows "i = j"
proof -
  obtain w where "ip = V4 w" using assms(3) by (cases ip) (simp_all add: in_block.simps)
  then have "drop_bit 2 (uplink_addr i 1) = drop_bit 2 (uplink_addr j 1)"
    using assms(3,4) by (simp add: in_block.simps)
  then have "unat (drop_bit 2 (uplink_addr i 1)) = unat (drop_bit 2 (uplink_addr j 1))" by simp
  then show ?thesis using assms(1,2) by (simp add: uplink_block_number del: One_nat_def)
qed

section \<open>Properties\<close>

text \<open>C32: With the maps of the allocator inverse to each other, \<open>alloc\<close> for a session without an index
  returns the lowest index no session holds, records it for that session only, and keeps the maps inverse;
  it fails, changing nothing, exactly when 16384 sessions hold an index.\<close>

theorem alloc_correct:
  assumes "uplink_inv a" and "ua_bySession a s = None" and "alloc a s = (res, a')"
  shows "uplink_inv a' \<and>
    (case res of
       Inr i \<Rightarrow> i < maxUplinks \<and> i \<notin> ran (ua_bySession a) \<and> {..<i} \<subseteq> ran (ua_bySession a) \<and>
         ua_bySession a' = (ua_bySession a)(s \<mapsto> i)
     | Inl _ \<Rightarrow> a' = a \<and> card (dom (ua_bySession a)) = maxUplinks) \<and>
    (card (dom (ua_bySession a)) = maxUplinks \<longleftrightarrow> (\<exists>e. res = Inl e))"
proof -
  have inv: "uplink_inv a'" using alloc_inv [OF assms(1,2)] assms(3) by simp
  have used: "ua_used a i \<longleftrightarrow> i \<in> ran (ua_bySession a)" for i
    using assms(1) by (simp add: uplink_inv_def)
  show ?thesis
  proof (cases "findFree (ua_used a) 0")
    case None
    then have "card (dom (ua_bySession a)) = maxUplinks"
      using used_count [OF assms(1)] by (simp add: findFree_None)
    with None show ?thesis
      using assms(3) inv by (auto simp: alloc_def)
  next
    case (Some i)
    then have eqs: "res = Inr i" "ua_bySession a' = (ua_bySession a)(s \<mapsto> i)"
      using assms(3) by (auto simp: alloc_def)
    have low: "i < maxUplinks" "i \<notin> ran (ua_bySession a)" "\<forall>k<i. k \<in> ran (ua_bySession a)"
      using Some by (simp_all add: findFree_Some used)
    moreover have "card (dom (ua_bySession a)) \<noteq> maxUplinks"
      using used_count [OF assms(1)] low used by blast
    ultimately show ?thesis
      using eqs inv by auto
  qed
qed

theorem alloc_correct_witness:
  "fst (alloc newUplinkAllocator ''s-1'') = Inr 0 \<and>
   uplink_inv (snd (alloc newUplinkAllocator ''s-1''))"
proof -
  have free0: "findFree (\<lambda>_. False) 0 = Some 0" by (simp add: findFree_Some maxUplinks_def)
  have "alloc newUplinkAllocator ''s-1'' = (Inr 0, snd (alloc newUplinkAllocator ''s-1''))"
    by (simp add: alloc_def newUplinkAllocator_def free0)
  moreover from this have "fst (alloc newUplinkAllocator ''s-1'') = Inr 0" by (metis fst_conv)
  moreover have "ua_bySession newUplinkAllocator ''s-1'' = None" by (simp add: newUplinkAllocator_def)
  ultimately show ?thesis
    using alloc_correct [OF new_inv, of "''s-1''" "Inr 0" "snd (alloc newUplinkAllocator ''s-1'')"]
    by blast
qed

text \<open>Releasing an index undoes its allocation: the allocator is exactly as before, so a failed or
  finished session leaks no index.\<close>

theorem free_undoes_alloc:
  assumes "uplink_inv a" and "ua_bySession a s = None" and "alloc a s = (Inr i, a')"
  shows "free a' s = a"
  using assms by (rule free_alloc)

theorem free_undoes_alloc_witness:
  "free (snd (alloc newUplinkAllocator ''s-1'')) ''s-1'' = newUplinkAllocator"
proof -
  have free0: "findFree (\<lambda>_. False) 0 = Some 0" by (simp add: findFree_Some maxUplinks_def)
  have "alloc newUplinkAllocator ''s-1'' = (Inr 0, snd (alloc newUplinkAllocator ''s-1''))"
    by (simp add: alloc_def newUplinkAllocator_def free0)
  then show ?thesis
    using free_undoes_alloc [OF new_inv, of "''s-1''" 0] by (simp add: newUplinkAllocator_def)
qed

text \<open>The texts of \<open>uplinkSubnet\<close> for an index of the pool are well-formed blocks and a
  well-formed gateway address; both ends of the pair are in the same subnet; subnets of different
  indices have no address in common.\<close>

theorem uplink_subnets_disjoint:
  assumes "i < maxUplinks" and "j < maxUplinks"
    and "uplinkSubnet i = (hostCIDR, nsCIDR, gateway)" and "uplinkSubnet j = (hostCIDR', nsCIDR', gateway')"
  shows "\<exists>c n c'. Parse hostCIDR = Inr c \<and> Parse nsCIDR = Inr n \<and> Parse hostCIDR' = Inr c' \<and>
    netip_ParseAddr gateway = Inr (c_addr c) \<and> Contains c (c_addr n) = Some True \<and>
    (\<forall>ip. Contains c ip = Some True \<longrightarrow> Contains c' ip = Some True \<longrightarrow> i = j)"
proof -
  let ?c = "\<lambda>i. \<lparr>c_addr = V4 (uplink_addr i 1), c_prefixLen = 30\<rparr>"
  let ?n = "\<lparr>c_addr = V4 (uplink_addr i 2), c_prefixLen = 30\<rparr>"
  have wf: "wf_cidr (?c i)" for i by (simp add: wf_cidr_def max_prefix_def)
  have "drop_bit 2 (uplink_addr i 1) = drop_bit 2 (uplink_addr i 2)"
    using uplink_block_number [OF assms(1)] by (simp add: word_unat_eq_iff)
  then have "Contains (?c i) (c_addr ?n) = Some True"
    using Contains_in_block [OF wf] by (simp add: in_block.simps)
  then show ?thesis
    using subnet_parses [OF assms(1,3)] subnet_parses [OF assms(2,4)]
      uplink_blocks_disjoint [OF assms(1,2)] Contains_in_block [OF wf]
    by (intro exI [of _ "?c i"] exI [of _ ?n] exI [of _ "?c j"]) auto
qed

theorem uplink_subnets_disjoint_witness:
  "\<exists>c c'. Parse (fst (uplinkSubnet 0)) = Inr c \<and> Parse (fst (uplinkSubnet 1)) = Inr c' \<and>
     \<not> (\<exists>ip. Contains c ip = Some True \<and> Contains c' ip = Some True)"
proof -
  have "(0::nat) < maxUplinks" "(1::nat) < maxUplinks" by (simp_all add: maxUplinks_def)
  then show ?thesis
    using uplink_subnets_disjoint [of 0 1 "fst (uplinkSubnet 0)" "fst (snd (uplinkSubnet 0))"
        "snd (snd (uplinkSubnet 0))" "fst (uplinkSubnet 1)" "fst (snd (uplinkSubnet 1))"
        "snd (snd (uplinkSubnet 1))"]
    by (metis prod.collapse zero_neq_one)
qed

text \<open>C36: No session reaches the uplink of any session: a packet to an address of the subnet of any
  index is dropped by every session's IPv4 chain and logged, whatever the targets are.\<close>

theorem uplinks_unreachable:
  assumes "idx < maxUplinks" and "uplinkSubnet idx = (hostCIDR, nsCIDR, gateway)"
    and "Parse hostCIDR = Inr c" and "Contains c (p_dst p) = Some True"
  shows "eval_chain (forward_chain r Ip) p = (Dropped, [rs_sessionID r])"
proof -
  let ?d = "\<lparr>c_addr = V4 0x0AC80000, c_prefixLen = 16\<rparr>"
  have c: "c = \<lparr>c_addr = V4 (uplink_addr idx 1), c_prefixLen = 30\<rparr>"
    using subnet_parses(1) [OF assms(1,2)] assms(3) by simp
  have "in_block ?d (c_addr c)"
    using uplink_addr_denied [OF assms(1), of 1] by (simp add: c)
  then have "in_block ?d (p_dst p)"
    using assms(3,4) in_block_mono [of ?d c "p_dst p"] by (simp add: c Contains_in_block Parse_wf)
  then show ?thesis
    by (auto simp: forward_chain_eval deny_blocks_def)
qed

theorem uplinks_unreachable_witness:
  "eval_chain (forward_chain \<lparr>rs_sessionID = ''s-1'', rs_targets = [\<lparr>c_addr = V4 0, c_prefixLen = 0\<rparr>]\<rparr> Ip)
     \<lparr>p_dst = V4 (uplink_addr 7 1), p_established = False\<rparr> = (Dropped, [''s-1''])"
proof -
  let ?c = "\<lparr>c_addr = V4 (uplink_addr 7 1), c_prefixLen = 30\<rparr>"
  have i: "7 < maxUplinks" by (simp add: maxUplinks_def)
  have "Contains ?c (c_addr ?c) = Some True"
    by (subst Contains_in_block) (simp_all add: wf_cidr_def max_prefix_def in_block.simps)
  then show ?thesis
    using uplinks_unreachable [OF i, of "fst (uplinkSubnet 7)" "fst (snd (uplinkSubnet 7))"
        "snd (snd (uplinkSubnet 7))" ?c "\<lparr>p_dst = V4 (uplink_addr 7 1), p_established = False\<rparr>"]
      subnet_parses(1) [OF i, of "fst (uplinkSubnet 7)" "fst (snd (uplinkSubnet 7))"
        "snd (snd (uplinkSubnet 7))"]
    by simp
qed

end
