(* ===== verification/LinuxBackend.thy ===== *)
theory LinuxBackend
  imports Uplink Packet Sandbox
begin

text \<open>
  The production backend (\<^verbatim>\<open>enforcer/internal/sandbox/backend_linux.go\<close> and \<^verbatim>\<open>nflog_linux.go\<close>): a
  network namespace per session with nft rules inside, an NFLOG listener for the dropped packets,
  and a veth uplink. Programs that are run and the libraries \<^verbatim>\<open>netns\<close> and \<^verbatim>\<open>go-nflog\<close> are outside
  of the source: their answers are a parameter \<open>kernel\<close>, a function of the calls made so far
  and of the call. Every call with its answer is appended to \<open>ls_trace\<close>, so that the order in
  which the backend acts is part of its state. The theory shows that a namespace gets its
  connectivity only after its rules and its listener are in place, that every failure path
  releases what was acquired before it, that the backend meets the contract of the controller, and
  that a dropped packet is either queued or counted.
\<close>

section \<open>Calls to the system\<close>

datatype kop =
    Exec "string list" string
  | NetnsGetFromName string
  | NetnsGet
  | NetnsSet string
  | NetnsSetHost
  | NetnsCloseHost
  | NetnsClose string
  | NflogOpen string nat
  | NflogRegister string
  | NflogClose string

text \<open>Success; a program that ended with a non-zero status and its standard error; any other error and
  its text.\<close>

datatype kres = KOk | KExit string | KErr string

type_synonym ktrace = "(kop \<times> kres) list"
type_synonym kernel = "ktrace \<Rightarrow> kop \<Rightarrow> kres"

fun kerr_text :: "kres \<Rightarrow> string" where
  "kerr_text KOk = []"
| "kerr_text (KExit stderr) = stderr"
| "kerr_text (KErr e) = e"

text \<open>The backend. A listener's stop function is its closure: the namespace whose references it
  releases. The loss counter is shared by the map and the listener goroutine only, so it is
  kept in the map. \<open>ls_drops\<close> is the buffer of the channel that all listeners send to.\<close>

record LinuxSandbox =
  ls_uplinks :: uplinkAllocator
  ls_drops :: "Drop list"
  ls_listeners :: "session_id \<rightharpoonup> string"
  ls_lost :: "session_id \<rightharpoonup> u64"
  ls_trace :: ktrace

definition NewLinuxSandbox :: LinuxSandbox where
  "NewLinuxSandbox =
     \<lparr>ls_uplinks = newUplinkAllocator, ls_drops = [], ls_listeners = Map.empty, ls_lost = Map.empty,
      ls_trace = []\<rparr>"

definition kcall :: "kernel \<Rightarrow> kop \<Rightarrow> LinuxSandbox \<Rightarrow> kres \<times> LinuxSandbox" where
  "kcall k call b =
     (let r = k (ls_trace b) call in (r, b\<lparr>ls_trace := ls_trace b @ [(call, r)]\<rparr>))"

text \<open>Calls whose result the code discards.\<close>

fun kcalls :: "kernel \<Rightarrow> kop list \<Rightarrow> LinuxSandbox \<Rightarrow> LinuxSandbox" where
  "kcalls k [] b = b"
| "kcalls k (call # calls) b = kcalls k calls (snd (kcall k call b))"

section \<open>Programs\<close>

definition netnsName :: "session_id \<Rightarrow> string" where
  "netnsName sessionID = ''warden_'' @ strings_ReplaceAll sessionID CHR ''-'' CHR ''_''"

text \<open>The reporting shape shared by all four shell-outs.\<close>

fun cmd_error :: "string \<Rightarrow> string \<Rightarrow> kres \<Rightarrow> sandbox_error option" where
  "cmd_error on_exit on_err KOk = None"
| "cmd_error on_exit on_err (KExit stderr) =
     Some (BackendError (on_exit @ '' failed: '' @ strings_TrimSpace stderr))"
| "cmd_error on_exit on_err (KErr e) = Some (BackendError (on_err @ '': '' @ e))"

definition run_cmd ::
  "kernel \<Rightarrow> string \<Rightarrow> string \<Rightarrow> string list \<Rightarrow> string \<Rightarrow> LinuxSandbox \<Rightarrow> sandbox_error option \<times> LinuxSandbox" where
  "run_cmd k on_exit on_err argv stdin b =
     (case kcall k (Exec argv stdin) b of (r, b') \<Rightarrow> (cmd_error on_exit on_err r, b'))"

definition run :: "kernel \<Rightarrow> string list \<Rightarrow> LinuxSandbox \<Rightarrow> sandbox_error option \<times> LinuxSandbox" where
  "run k args b = run_cmd k (strings_Join args '' '') (strings_Join args '' '') args [] b"

definition netns_add_argv :: "string \<Rightarrow> string list" where
  "netns_add_argv ns = [''ip'', ''netns'', ''add'', ns]"

definition netns_del_argv :: "string \<Rightarrow> string list" where
  "netns_del_argv ns = [''ip'', ''netns'', ''del'', ns]"

definition nft_argv :: "string \<Rightarrow> string list" where
  "nft_argv ns = [''ip'', ''netns'', ''exec'', ns, ''nft'', ''-f'', ''-'']"

definition applyRulesetInNS ::
  "kernel \<Rightarrow> string \<Rightarrow> string \<Rightarrow> LinuxSandbox \<Rightarrow> sandbox_error option \<times> LinuxSandbox" where
  "applyRulesetInNS k ns script b = run_cmd k ''nft -f'' ''ip netns exec nft'' (nft_argv ns) script b"

text \<open>\<^verbatim>\<open>_ = exec.Command("ip", "netns", "del", ns).Run()\<close>: the result is discarded.\<close>

definition cleanup_netns :: "kernel \<Rightarrow> string \<Rightarrow> LinuxSandbox \<Rightarrow> LinuxSandbox" where
  "cleanup_netns k ns b = kcalls k [Exec (netns_del_argv ns) []] b"

section \<open>The drop listener\<close>

definition nflogGroup :: nat where
  "nflogGroup = 1"

text \<open>The deferred calls of the listener goroutine, in the order in which they run: those that every exit
  after \<^verbatim>\<open>netns.Get\<close> makes, and those of a listener that has opened its socket.\<close>

definition leave_ns :: "string \<Rightarrow> kop list" where
  "leave_ns ns = [NetnsSetHost, NetnsCloseHost, NetnsClose ns]"

definition close_listener :: "string \<Rightarrow> kop list" where
  "close_listener ns = NflogClose ns # leave_ns ns"

text \<open>The stop function: cancel, and wait until the goroutine has released the namespace.\<close>

definition stop :: "kernel \<Rightarrow> string \<Rightarrow> LinuxSandbox \<Rightarrow> LinuxSandbox" where
  "stop k ns b = kcalls k (close_listener ns) b"

definition startDropListener ::
  "kernel \<Rightarrow> string \<Rightarrow> LinuxSandbox \<Rightarrow> sandbox_error option \<times> LinuxSandbox" where
  "startDropListener k ns b =
     (case kcall k (NetnsGetFromName ns) b of (r1, b1) \<Rightarrow>
      if r1 \<noteq> KOk then (Some (BackendError (''netns handle '' @ ns @ '': '' @ kerr_text r1)), b1)
      else case kcall k NetnsGet b1 of (r2, b2) \<Rightarrow>
      if r2 \<noteq> KOk
      then (Some (BackendError (''get host netns: '' @ kerr_text r2)), kcalls k [NetnsClose ns] b2)
      else case kcall k (NetnsSet ns) b2 of (r3, b3) \<Rightarrow>
      if r3 \<noteq> KOk
      then (Some (BackendError (''enter netns '' @ ns @ '': '' @ kerr_text r3)), kcalls k (leave_ns ns) b3)
      else case kcall k (NflogOpen ns nflogGroup) b3 of (r4, b4) \<Rightarrow>
      if r4 \<noteq> KOk
      then (Some (BackendError (''nflog open in '' @ ns @ '': '' @ kerr_text r4)), kcalls k (leave_ns ns) b4)
      else case kcall k (NflogRegister ns) b4 of (r5, b5) \<Rightarrow>
      if r5 \<noteq> KOk
      then (Some (BackendError (''nflog register in '' @ ns @ '': '' @ kerr_text r5)),
            kcalls k (close_listener ns) b5)
      else (None, b5))"

definition drops_cap :: nat where
  "drops_cap = 256"

text \<open>The hook of the listener of a session: a payload that is not understood is ignored, a full channel is
  counted. \<open>None\<close> is a panic of the parser.\<close>

definition nflog_hook :: "session_id \<Rightarrow> int \<Rightarrow> byte list option \<Rightarrow> LinuxSandbox \<Rightarrow> LinuxSandbox option" where
  "nflog_hook sessionID now payload b =
     (case payload of None \<Rightarrow> Some b
      | Some p \<Rightarrow>
        Option.bind (parseDropPayload p) (\<lambda>facts.
          case facts of None \<Rightarrow> Some b
          | Some f \<Rightarrow>
            let d = \<lparr>d_SessionID = sessionID, d_SrcIP = df_src f, d_DstIP = df_dst f,
                     d_DstPort = df_port f, d_Proto = df_proto f, d_At = now\<rparr> in
            Some (if length (ls_drops b) < drops_cap
                  then b\<lparr>ls_drops := ls_drops b @ [d]\<rparr>
                  else b\<lparr>ls_lost := (ls_lost b)(sessionID := map_option (\<lambda>c. c + 1) (ls_lost b sessionID))\<rparr>)))"

section \<open>The uplink\<close>

definition uplink_steps :: "nat \<Rightarrow> string \<Rightarrow> string list list" where
  "uplink_steps idx ns =
     (let (hostCIDR, nsCIDR, gateway) = uplinkSubnet idx;
          hostIf = ''wdn'' @ format_dec idx
      in [[''ip'', ''link'', ''add'', hostIf, ''type'', ''veth'', ''peer'', ''name'', ''uplink'', ''netns'', ns],
          [''ip'', ''addr'', ''add'', hostCIDR, ''dev'', hostIf],
          [''ip'', ''link'', ''set'', hostIf, ''up''],
          [''ip'', ''netns'', ''exec'', ns, ''ip'', ''addr'', ''add'', nsCIDR, ''dev'', ''uplink''],
          [''ip'', ''netns'', ''exec'', ns, ''ip'', ''link'', ''set'', ''uplink'', ''up''],
          [''ip'', ''netns'', ''exec'', ns, ''ip'', ''route'', ''add'', ''default'', ''via'', gateway],
          [''ip'', ''netns'', ''exec'', ns, ''sysctl'', ''-qw'', ''net.ipv4.ip_forward=1'']])"

fun run_steps :: "kernel \<Rightarrow> string list list \<Rightarrow> LinuxSandbox \<Rightarrow> sandbox_error option \<times> LinuxSandbox" where
  "run_steps k [] b = (None, b)"
| "run_steps k (args # steps) b =
     (case run k args b of
        (Some err, b') \<Rightarrow> (Some err, b')
      | (None, b') \<Rightarrow> run_steps k steps b')"

definition provisionUplink ::
  "kernel \<Rightarrow> session_id \<Rightarrow> string \<Rightarrow> LinuxSandbox \<Rightarrow> sandbox_error option \<times> LinuxSandbox" where
  "provisionUplink k sessionID ns b =
     (case alloc (ls_uplinks b) sessionID of
        (Inl _, u) \<Rightarrow>
          (Some (BackendError ''uplink pool exhausted (16384 active sessions)''), b\<lparr>ls_uplinks := u\<rparr>)
      | (Inr idx, u) \<Rightarrow>
        (case run_steps k (uplink_steps idx ns) (b\<lparr>ls_uplinks := u\<rparr>) of
           (Some err, b') \<Rightarrow> (Some err, b'\<lparr>ls_uplinks := free (ls_uplinks b') sessionID\<rparr>)
         | (None, b') \<Rightarrow> (None, b')))"

section \<open>The backend operations\<close>

definition Create ::
  "kernel \<Rightarrow> session_id \<Rightarrow> Cidr list \<Rightarrow> LinuxSandbox \<Rightarrow> sandbox_error option \<times> LinuxSandbox" where
  "Create k sessionID cidrs b =
     (let ns = netnsName sessionID;
          script = Render \<lparr>rs_sessionID = sessionID, rs_targets = cidrs\<rparr>
      in case run_cmd k (''ip netns add '' @ ns) ''ip netns add'' (netns_add_argv ns) [] b of
           (Some err, b1) \<Rightarrow> (Some err, b1)
         | (None, b1) \<Rightarrow>
      (case applyRulesetInNS k ns script b1 of
           (Some err, b2) \<Rightarrow> (Some err, cleanup_netns k ns b2)
         | (None, b2) \<Rightarrow>
      (case startDropListener k ns b2 of
           (Some err, b3) \<Rightarrow> (Some err, cleanup_netns k ns b3)
         | (None, b3) \<Rightarrow>
      (case provisionUplink k sessionID ns
              (b3\<lparr>ls_listeners := (ls_listeners b3)(sessionID \<mapsto> ns),
                   ls_lost := (ls_lost b3)(sessionID \<mapsto> 0)\<rparr>) of
           (Some err, b4) \<Rightarrow>
             let b5 = stop k ns b4;
                 b6 = b5\<lparr>ls_listeners := (ls_listeners b5)(sessionID := None),
                         ls_lost := (ls_lost b5)(sessionID := None)\<rparr>
             in (Some err, cleanup_netns k ns b6)
         | (None, b4) \<Rightarrow> (None, b4)))))"

definition Destroy :: "kernel \<Rightarrow> session_id \<Rightarrow> LinuxSandbox \<Rightarrow> sandbox_error option \<times> LinuxSandbox" where
  "Destroy k sessionID b =
     (let ns = netnsName sessionID;
          b1 = (case ls_listeners b sessionID of
                  Some ns' \<Rightarrow>
                    let b' = stop k ns' b in b'\<lparr>ls_listeners := (ls_listeners b')(sessionID := None)\<rparr>
                | None \<Rightarrow> b);
          b2 = b1\<lparr>ls_lost := (ls_lost b1)(sessionID := None)\<rparr>
      in case run_cmd k (''ip netns del '' @ ns) ''ip netns del'' (netns_del_argv ns) [] b2 of
           (Some err, b3) \<Rightarrow> (Some err, b3)
         | (None, b3) \<Rightarrow> (None, b3\<lparr>ls_uplinks := free (ls_uplinks b3) sessionID\<rparr>))"

definition linux_LostDrops :: "session_id \<Rightarrow> LinuxSandbox \<Rightarrow> u64" where
  "linux_LostDrops sessionID b = (case ls_lost b sessionID of Some c \<Rightarrow> c | None \<Rightarrow> 0)"

definition LinuxBackend_ops :: "kernel \<Rightarrow> LinuxSandbox Backend" where
  "LinuxBackend_ops k = \<lparr>be_Create = Create k, be_Destroy = Destroy k, be_LostDrops = linux_LostDrops\<rparr>"

lemmas backend_defs [step_defs] = Create_def Destroy_def provisionUplink_def run_def run_cmd_def
  applyRulesetInNS_def cleanup_netns_def stop_def startDropListener_def

section \<open>What a sequence of calls leaves behind\<close>

text \<open>\<open>traced b t\<close> is the state \<open>b\<close> after the calls \<open>t\<close>, with nothing else changed.\<close>

abbreviation traced :: "LinuxSandbox \<Rightarrow> ktrace \<Rightarrow> LinuxSandbox" where
  "traced b t \<equiv> b\<lparr>ls_trace := ls_trace b @ t\<rparr>"

text \<open>References to a namespace that the calls \<open>t\<close> took and did not give back: handles and sockets.\<close>

fun ref_delta :: "string \<Rightarrow> kop \<times> kres \<Rightarrow> int" where
  "ref_delta ns (NetnsGetFromName ns', r) = (if ns' = ns \<and> r = KOk then 1 else 0)"
| "ref_delta ns (NflogOpen ns' g, r) = (if ns' = ns \<and> r = KOk then 1 else 0)"
| "ref_delta ns (NetnsClose ns', r) = (if ns' = ns then - 1 else 0)"
| "ref_delta ns (NflogClose ns', r) = (if ns' = ns then - 1 else 0)"
| "ref_delta ns (_, r) = 0"

definition refs :: "string \<Rightarrow> ktrace \<Rightarrow> int" where
  "refs ns t = sum_list (map (ref_delta ns) t)"

lemma refs_simps [simp]:
  "refs ns [] = 0"
  "refs ns (c # t) = ref_delta ns c + refs ns t"
  "refs ns (t @ u) = refs ns t + refs ns u"
  by (simp_all add: refs_def)

definition listener_calls :: "string \<Rightarrow> kop list" where
  "listener_calls ns =
     [NetnsGetFromName ns, NetnsGet, NetnsSet ns, NflogOpen ns nflogGroup, NflogRegister ns]"

lemma kcall_eq: "kcall k call b = (k (ls_trace b) call, traced b [(call, k (ls_trace b) call)])"
  by (simp add: kcall_def Let_def)

lemma kcalls_traced: "\<exists>t. kcalls k calls b = traced b t \<and> map fst t = calls"
proof (induction calls arbitrary: b)
  case (Cons call calls)
  obtain t where "kcalls k calls (snd (kcall k call b)) = traced (snd (kcall k call b)) t" "map fst t = calls"
    using Cons by blast
  then show ?case
    by (intro exI [of _ "(call, k (ls_trace b) call) # t"]) (simp add: kcall_eq)
qed (auto intro: exI [of _ "[]"])

lemma cmd_error_None [simp]: "cmd_error x y r = None \<longleftrightarrow> r = KOk"
  by (cases r) simp_all

lemma cmd_error_BackendError: "cmd_error x y r = Some e \<Longrightarrow> \<exists>m. e = BackendError m"
  by (cases r) auto

lemma run_cmd_traced:
  "\<exists>r. run_cmd k x y argv stdin b = (cmd_error x y r, traced b [(Exec argv stdin, r)])"
  by (auto simp: run_cmd_def kcall_eq)

abbreviation all_ok :: "string list list \<Rightarrow> ktrace" where
  "all_ok \<equiv> map (\<lambda>argv. (Exec argv [], KOk))"

text \<open>A run of commands is complete, or it stops at the first one that fails.\<close>

definition stopped_run :: "string list list \<Rightarrow> ktrace \<Rightarrow> bool" where
  "stopped_run steps t \<longleftrightarrow>
     (\<exists>xs a ys r. steps = xs @ a # ys \<and> r \<noteq> KOk \<and> t = all_ok xs @ [(Exec a [], r)])"

lemma stopped_run_Cons: "stopped_run steps t \<Longrightarrow> stopped_run (a # steps) ((Exec a [], KOk) # t)"
  unfolding stopped_run_def
  by (elim exE conjE, rule_tac x = "a # xs" in exI) auto

lemma run_traced:
  "\<exists>r. run k args b =
     (cmd_error (strings_Join args '' '') (strings_Join args '' '') r, traced b [(Exec args [], r)])"
  unfolding run_def by (rule run_cmd_traced)

lemma run_steps_traced:
  "\<exists>t. run_steps k steps b = (None, traced b t) \<and> t = all_ok steps \<or>
     (\<exists>m. run_steps k steps b = (Some (BackendError m), traced b t)) \<and> stopped_run steps t"
proof (induction steps arbitrary: b)
  case (Cons args steps)
  obtain r where r: "run k args b = (cmd_error (strings_Join args '' '') (strings_Join args '' '') r,
      traced b [(Exec args [], r)])"
    using run_traced by blast
  show ?case
  proof (cases "r = KOk")
    case True
    with Cons.IH [of "traced b [(Exec args [], r)]"] r show ?thesis
      by (auto dest: stopped_run_Cons)
  next
    case False
    then obtain m where "cmd_error (strings_Join args '' '') (strings_Join args '' '') r = Some (BackendError m)"
      by (cases r) auto
    moreover from False have "stopped_run (args # steps) [(Exec args [], r)]"
      unfolding stopped_run_def by (intro exI [of _ "[]"] exI [of _ args] exI [of _ steps] exI [of _ r]) simp
    ultimately show ?thesis
      using r by auto
  qed
qed auto

lemma startDropListener_traced:
  "\<exists>t. snd (startDropListener k ns b) = traced b t \<and>
     (\<forall>c\<in>set t. \<forall>argv stdin. fst c \<noteq> Exec argv stdin) \<and>
     (case fst (startDropListener k ns b) of
        None \<Rightarrow> t = map (\<lambda>c. (c, KOk)) (listener_calls ns)
      | Some e \<Rightarrow> (\<exists>m. e = BackendError m) \<and> (\<forall>ns'. refs ns' t = 0))"
  by (auto simp: startDropListener_def kcall_eq leave_ns_def close_listener_def listener_calls_def Let_def)

lemma stop_traced: "\<exists>t. stop k ns b = traced b t \<and> map fst t = close_listener ns"
  unfolding stop_def by (rule kcalls_traced)

lemma cleanup_traced: "\<exists>r. cleanup_netns k ns b = traced b [(Exec (netns_del_argv ns) [], r)]"
  by (simp add: cleanup_netns_def kcall_eq) blast

section \<open>The runs of the operations\<close>

text \<open>All ways in which \<open>Create\<close> can end, with the calls it made.\<close>

definition create_prologue :: "session_id \<Rightarrow> Cidr list \<Rightarrow> ktrace" where
  "create_prologue s cs =
     [(Exec (netns_add_argv (netnsName s)) [], KOk),
      (Exec (nft_argv (netnsName s)) (Render \<lparr>rs_sessionID = s, rs_targets = cs\<rparr>), KOk)]"

definition listener_ok :: "string \<Rightarrow> ktrace" where
  "listener_ok ns = map (\<lambda>c. (c, KOk)) (listener_calls ns)"

abbreviation forget_listener :: "session_id \<Rightarrow> LinuxSandbox \<Rightarrow> LinuxSandbox" where
  "forget_listener s b \<equiv>
     b\<lparr>ls_listeners := (ls_listeners b)(s := None), ls_lost := (ls_lost b)(s := None)\<rparr>"

inductive create_run ::
  "session_id \<Rightarrow> Cidr list \<Rightarrow> LinuxSandbox \<Rightarrow> sandbox_error option \<times> LinuxSandbox \<Rightarrow> bool"
  for s :: session_id and cs :: "Cidr list" and b :: LinuxSandbox where
  add_failed:
    "r \<noteq> KOk \<Longrightarrow>
       create_run s cs b (Some (BackendError m), traced b [(Exec (netns_add_argv (netnsName s)) [], r)])"
| rules_failed:
    "r \<noteq> KOk \<Longrightarrow>
       create_run s cs b (Some (BackendError m),
         traced b [hd (create_prologue s cs), (fst (create_prologue s cs ! 1), r),
                   (Exec (netns_del_argv (netnsName s)) [], rd)])"
| listener_failed:
    "\<forall>c\<in>set t. \<forall>argv stdin. fst c \<noteq> Exec argv stdin \<Longrightarrow> \<forall>ns. refs ns t = 0 \<Longrightarrow>
       create_run s cs b (Some (BackendError m),
         traced b (create_prologue s cs @ t @ [(Exec (netns_del_argv (netnsName s)) [], rd)]))"
| pool_empty:
    "alloc (ls_uplinks b) s = (Inl e, u) \<Longrightarrow> map fst tc = close_listener (netnsName s) \<Longrightarrow>
       create_run s cs b (Some (BackendError m),
         traced (forget_listener s b)
           (create_prologue s cs @ listener_ok (netnsName s) @ tc @ [(Exec (netns_del_argv (netnsName s)) [], rd)]))"
| uplink_failed:
    "alloc (ls_uplinks b) s = (Inr idx, u) \<Longrightarrow> stopped_run (uplink_steps idx (netnsName s)) t \<Longrightarrow>
       map fst tc = close_listener (netnsName s) \<Longrightarrow>
       create_run s cs b (Some (BackendError m),
         traced (forget_listener s (b\<lparr>ls_uplinks := free u s\<rparr>))
           (create_prologue s cs @ listener_ok (netnsName s) @ t @ tc @
            [(Exec (netns_del_argv (netnsName s)) [], rd)]))"
| created:
    "alloc (ls_uplinks b) s = (Inr idx, u) \<Longrightarrow>
       create_run s cs b (None,
         traced (b\<lparr>ls_uplinks := u, ls_listeners := (ls_listeners b)(s \<mapsto> netnsName s),
                   ls_lost := (ls_lost b)(s \<mapsto> 0)\<rparr>)
           (create_prologue s cs @ listener_ok (netnsName s) @ all_ok (uplink_steps idx (netnsName s))))"

lemma cmd_error_Some: "r \<noteq> KOk \<Longrightarrow> \<exists>m. cmd_error x y r = Some (BackendError m)"
  by (cases r) auto

text \<open>A fixed order of field updates.\<close>

lemma update_order:
  "(b\<lparr>ls_trace := t\<rparr>)\<lparr>ls_uplinks := u\<rparr> = (b\<lparr>ls_uplinks := u\<rparr>)\<lparr>ls_trace := t\<rparr>"
  "(b\<lparr>ls_trace := t\<rparr>)\<lparr>ls_listeners := l\<rparr> = (b\<lparr>ls_listeners := l\<rparr>)\<lparr>ls_trace := t\<rparr>"
  "(b\<lparr>ls_trace := t\<rparr>)\<lparr>ls_lost := w\<rparr> = (b\<lparr>ls_lost := w\<rparr>)\<lparr>ls_trace := t\<rparr>"
  "(b\<lparr>ls_listeners := l\<rparr>)\<lparr>ls_uplinks := u\<rparr> = (b\<lparr>ls_uplinks := u\<rparr>)\<lparr>ls_listeners := l\<rparr>"
  "(b\<lparr>ls_lost := w\<rparr>)\<lparr>ls_uplinks := u\<rparr> = (b\<lparr>ls_uplinks := u\<rparr>)\<lparr>ls_lost := w\<rparr>"
  "(b\<lparr>ls_lost := w\<rparr>)\<lparr>ls_listeners := l\<rparr> = (b\<lparr>ls_listeners := l\<rparr>)\<lparr>ls_lost := w\<rparr>"
  by simp_all

lemma provisionUplink_runs:
  obtains (empty) e u m where "alloc (ls_uplinks b) s = (Inl e, u)"
      "provisionUplink k s ns b = (Some (BackendError m), b)"
  | (failed) idx u m t where "alloc (ls_uplinks b) s = (Inr idx, u)" "stopped_run (uplink_steps idx ns) t"
      "provisionUplink k s ns b = (Some (BackendError m), traced (b\<lparr>ls_uplinks := free u s\<rparr>) t)"
  | (ok) idx u where "alloc (ls_uplinks b) s = (Inr idx, u)"
      "provisionUplink k s ns b = (None, traced (b\<lparr>ls_uplinks := u\<rparr>) (all_ok (uplink_steps idx ns)))"
proof (cases "alloc (ls_uplinks b) s")
  case (Pair r u)
  show ?thesis
  proof (cases r)
    case (Inl e)
    with Pair have "u = ls_uplinks b" by (auto simp: alloc_def split: option.splits)
    with Pair Inl empty show ?thesis by (auto simp: provisionUplink_def)
  next
    case (Inr idx)
    with Pair run_steps_traced [of k "uplink_steps idx ns" "b\<lparr>ls_uplinks := u\<rparr>"] ok failed show ?thesis
      by (auto simp: provisionUplink_def update_order)
  qed
qed

text \<open>The part of \<open>Create\<close> after the listener is up.\<close>

definition connect ::
  "kernel \<Rightarrow> session_id \<Rightarrow> LinuxSandbox \<Rightarrow> sandbox_error option \<times> LinuxSandbox" where
  "connect k s b =
     (let ns = netnsName s in
      case provisionUplink k s ns
             (b\<lparr>ls_listeners := (ls_listeners b)(s \<mapsto> ns), ls_lost := (ls_lost b)(s \<mapsto> 0)\<rparr>) of
        (Some err, b4) \<Rightarrow> (Some err, cleanup_netns k ns (forget_listener s (stop k ns b4)))
      | (None, b4) \<Rightarrow> (None, b4))"

lemma connect_runs:
  "create_run s cs b (connect k s (traced b (create_prologue s cs @ listener_ok (netnsName s))))"
proof -
  let ?ns = "netnsName s" and ?t = "create_prologue s cs @ listener_ok (netnsName s)"
  let ?b = "traced (b\<lparr>ls_listeners := (ls_listeners b)(s \<mapsto> ?ns), ls_lost := (ls_lost b)(s \<mapsto> 0)\<rparr>) ?t"
  have closed: "\<exists>tc rd. map fst tc = close_listener ?ns \<and>
      cleanup_netns k ?ns (forget_listener s (stop k ?ns b')) =
        traced (forget_listener s b') (tc @ [(Exec (netns_del_argv ?ns) [], rd)])" for b'
  proof -
    obtain tc where tc: "stop k ?ns b' = traced b' tc" "map fst tc = close_listener ?ns"
      using stop_traced by blast
    obtain rd where "cleanup_netns k ?ns (forget_listener s (stop k ?ns b')) =
        traced (forget_listener s (stop k ?ns b')) [(Exec (netns_del_argv ?ns) [], rd)]"
      using cleanup_traced by blast
    then show ?thesis
      using tc by (intro exI [of _ tc] exI [of _ rd]) simp
  qed
  show ?thesis
  proof (cases rule: provisionUplink_runs [of ?b s k ?ns])
    case (empty e u m)
    obtain tc rd where "map fst tc = close_listener ?ns"
      "cleanup_netns k ?ns (forget_listener s (stop k ?ns ?b)) =
        traced (forget_listener s ?b) (tc @ [(Exec (netns_del_argv ?ns) [], rd)])"
      using closed by blast
    with empty pool_empty [of b s e u tc cs m rd] show ?thesis
      by (simp add: connect_def Let_def update_order)
  next
    case (failed idx u m t)
    obtain tc rd where "map fst tc = close_listener ?ns"
      "cleanup_netns k ?ns (forget_listener s (stop k ?ns (traced (?b\<lparr>ls_uplinks := free u s\<rparr>) t))) =
        traced (forget_listener s (traced (?b\<lparr>ls_uplinks := free u s\<rparr>) t)) (tc @ [(Exec (netns_del_argv ?ns) [], rd)])"
      using closed by blast
    with failed uplink_failed [of b s idx u t tc cs m rd] show ?thesis
      by (simp add: connect_def Let_def update_order)
  next
    case (ok idx u)
    with created [of b s idx u cs] show ?thesis
      by (simp add: connect_def Let_def update_order)
  qed
qed

lemma Create_runs: "create_run s cs b (Create k s cs b)"
proof -
  let ?ns = "netnsName s" and ?script = "Render \<lparr>rs_sessionID = s, rs_targets = cs\<rparr>"
  let ?add = "''ip netns add '' @ ?ns"
  let ?b1 = "traced b [(Exec (netns_add_argv ?ns) [], KOk)]" and ?b2 = "traced b (create_prologue s cs)"
  obtain r1 where r1: "run_cmd k ?add ''ip netns add'' (netns_add_argv ?ns) [] b =
      (cmd_error ?add ''ip netns add'' r1, traced b [(Exec (netns_add_argv ?ns) [], r1)])"
    using run_cmd_traced by blast
  obtain r2 where r2: "applyRulesetInNS k ?ns ?script ?b1 =
      (cmd_error ''nft -f'' ''ip netns exec nft'' r2, traced ?b1 [(Exec (nft_argv ?ns) ?script, r2)])"
    unfolding applyRulesetInNS_def using run_cmd_traced by blast
  obtain t3 where t3: "snd (startDropListener k ?ns ?b2) = traced ?b2 t3"
      "\<forall>c\<in>set t3. \<forall>argv stdin. fst c \<noteq> Exec argv stdin"
      "case fst (startDropListener k ?ns ?b2) of
         None \<Rightarrow> t3 = map (\<lambda>c. (c, KOk)) (listener_calls ?ns)
       | Some e \<Rightarrow> (\<exists>m. e = BackendError m) \<and> (\<forall>ns'. refs ns' t3 = 0)"
    using startDropListener_traced by blast
  consider "r1 \<noteq> KOk" | "r1 = KOk" "r2 \<noteq> KOk"
    | e where "r1 = KOk" "r2 = KOk" "fst (startDropListener k ?ns ?b2) = Some e"
    | "r1 = KOk" "r2 = KOk" "fst (startDropListener k ?ns ?b2) = None"
    by (cases "fst (startDropListener k ?ns ?b2)") auto
  then show ?thesis
  proof cases
    case 1
    obtain m where "cmd_error ?add ''ip netns add'' r1 = Some (BackendError m)"
      using cmd_error_Some [OF 1] by blast
    with r1 add_failed [OF 1, of s cs b m] show ?thesis by (simp add: Create_def)
  next
    case 2
    obtain m where m: "cmd_error ''nft -f'' ''ip netns exec nft'' r2 = Some (BackendError m)"
      using cmd_error_Some [OF 2(2)] by blast
    obtain rd where "cleanup_netns k ?ns (traced ?b1 [(Exec (nft_argv ?ns) ?script, r2)]) =
        traced (traced ?b1 [(Exec (nft_argv ?ns) ?script, r2)]) [(Exec (netns_del_argv ?ns) [], rd)]"
      using cleanup_traced by blast
    with r1 r2 m 2 rules_failed [OF 2(2), of s cs b m rd] show ?thesis
      by (simp add: Create_def Let_def create_prologue_def)
  next
    case (3 e)
    obtain rd where "cleanup_netns k ?ns (traced ?b2 t3) = traced (traced ?b2 t3) [(Exec (netns_del_argv ?ns) [], rd)]"
      using cleanup_traced by blast
    moreover obtain m where "startDropListener k ?ns ?b2 = (Some (BackendError m), traced ?b2 t3)"
      using 3 t3(1,3) by (auto simp: prod_eq_iff)
    ultimately show ?thesis
      using r1 r2 3 t3 listener_failed [of t3 s cs b m rd]
      by (simp add: Create_def Let_def create_prologue_def)
  next
    case 4
    then have "startDropListener k ?ns ?b2 = (None, traced ?b2 (listener_ok ?ns))"
      using t3(1,3) by (simp add: prod_eq_iff listener_ok_def)
    then have "Create k s cs b = connect k s (traced b (create_prologue s cs @ listener_ok ?ns))"
      using r1 r2 4
      by (simp add: Create_def connect_def Let_def create_prologue_def split: prod.split option.split)
    then show ?thesis by (simp add: connect_runs)
  qed
qed

lemma Destroy_runs:
  "\<exists>t r. map fst t = (case ls_listeners b s of Some ns \<Rightarrow> close_listener ns | None \<Rightarrow> []) \<and>
     Destroy k s b =
       (cmd_error (''ip netns del '' @ netnsName s) ''ip netns del'' r,
        traced (forget_listener s
            (if r = KOk then b\<lparr>ls_uplinks := free (ls_uplinks b) s\<rparr> else b))
          (t @ [(Exec (netns_del_argv (netnsName s)) [], r)]))"
proof -
  let ?x = "''ip netns del '' @ netnsName s" and ?y = "''ip netns del''"
  let ?b1 = "case ls_listeners b s of
      Some ns' \<Rightarrow> let b' = stop k ns' b in b'\<lparr>ls_listeners := (ls_listeners b')(s := None)\<rparr> | None \<Rightarrow> b"
  obtain t where t: "?b1 = traced (b\<lparr>ls_listeners := (ls_listeners b)(s := None)\<rparr>) t"
      "map fst t = (case ls_listeners b s of Some ns \<Rightarrow> close_listener ns | None \<Rightarrow> [])"
  proof (cases "ls_listeners b s")
    case None
    then show ?thesis using that [of "[]"] by (simp add: fun_upd_idem)
  next
    case (Some ns)
    obtain t where "stop k ns b = traced b t" "map fst t = close_listener ns"
      using stop_traced by blast
    then show ?thesis using that [of t] Some by (simp add: update_order)
  qed
  obtain r where r: "run_cmd k ?x ?y (netns_del_argv (netnsName s)) []
        (traced (forget_listener s b) t) =
      (cmd_error ?x ?y r, traced (traced (forget_listener s b) t) [(Exec (netns_del_argv (netnsName s)) [], r)])"
    using run_cmd_traced by blast
  have b2: "?b1\<lparr>ls_lost := (ls_lost ?b1)(s := None)\<rparr> = traced (forget_listener s b) t"
    unfolding t(1) by (simp add: update_order)
  show ?thesis
  proof (intro exI conjI)
    show "map fst t = (case ls_listeners b s of Some ns \<Rightarrow> close_listener ns | None \<Rightarrow> [])" by (fact t(2))
    show "Destroy k s b =
       (cmd_error ?x ?y r, traced (forget_listener s (if r = KOk then b\<lparr>ls_uplinks := free (ls_uplinks b) s\<rparr> else b))
          (t @ [(Exec (netns_del_argv (netnsName s)) [], r)]))"
      unfolding Destroy_def Let_def b2 [unfolded Let_def] r
      by (cases r) (simp_all add: update_order)
  qed
qed

section \<open>The invariant of the backend\<close>

text \<open>The backend against the set of active sessions \<open>A\<close>: exactly the active sessions hold an uplink; a
  listener belongs to an active session and to its namespace; every listener holds two references to
  its namespace and nobody else holds any; the channel is within its capacity.\<close>

definition linux_inv :: "session_id set \<Rightarrow> LinuxSandbox \<Rightarrow> bool" where
  "linux_inv A b \<longleftrightarrow>
     uplink_inv (ls_uplinks b) \<and> dom (ua_bySession (ls_uplinks b)) = A \<and>
     dom (ls_listeners b) \<subseteq> A \<and> dom (ls_lost b) = dom (ls_listeners b) \<and>
     (\<forall>s ns. ls_listeners b s = Some ns \<longrightarrow> ns = netnsName s) \<and>
     (\<forall>ns. refs ns (ls_trace b) = 2 * int (card {s. ls_listeners b s = Some ns})) \<and>
     length (ls_drops b) \<le> drops_cap"

lemma linux_inv_finite: "linux_inv A b \<Longrightarrow> finite A"
  by (auto simp: linux_inv_def uplink_inv_def)

lemma linux_inv_fresh:
  assumes "linux_inv A b" and "s \<notin> A"
  shows "ua_bySession (ls_uplinks b) s = None" "ls_listeners b s = None" "ls_lost b s = None"
  using assms unfolding linux_inv_def by (metis domIff subsetD)+

lemma alloc_dom: "alloc a s = (Inr i, a') \<Longrightarrow> dom (ua_bySession a') = insert s (dom (ua_bySession a))"
  by (auto simp: alloc_def split: option.splits)

lemma free_dom: "dom (ua_bySession (free a s)) = dom (ua_bySession a) - {s}"
  by (auto simp: free_def split: option.splits)

lemma card_fiber_upd:
  assumes "finite (dom m)" and "s \<notin> dom m"
  shows "card {x. (m(s \<mapsto> v)) x = Some w} = card {x. m x = Some w} + (if w = v then 1 else 0)"
proof -
  have "{x. (m(s \<mapsto> v)) x = Some w} = (if w = v then insert s {x. m x = Some w} else {x. m x = Some w})"
    using assms(2) by (auto simp: dom_def)
  moreover have "finite {x. m x = Some w}" "s \<notin> {x. m x = Some w}"
    using assms by (auto simp: dom_def elim: finite_subset [rotated])
  ultimately show ?thesis by auto
qed

lemma refs_listener_ok [simp]: "refs ns (listener_ok ns') = (if ns' = ns then 2 else 0)"
  by (simp add: listener_ok_def listener_calls_def)

lemma refs_exec: "\<forall>c\<in>set t. \<exists>argv stdin. fst c = Exec argv stdin \<Longrightarrow> refs ns t = 0"
proof (induction t)
  case (Cons c t)
  then obtain argv stdin r where "c = (Exec argv stdin, r)"
    by (metis list.set_intros(1) prod.collapse)
  with Cons show ?case by simp
qed simp

lemma refs_all_ok [simp]: "refs ns (all_ok steps) = 0"
  by (intro refs_exec) auto

lemma refs_stopped_run: "stopped_run steps t \<Longrightarrow> refs ns t = 0"
  by (intro refs_exec) (auto simp: stopped_run_def)

lemma refs_prologue [simp]: "refs ns (create_prologue s cs) = 0"
  by (simp add: create_prologue_def)

lemma refs_close:
  assumes "map fst t = close_listener ns'"
  shows "refs ns t = (if ns' = ns then - 2 else 0)"
  using assms by (auto simp: close_listener_def leave_ns_def)

text \<open>A creation that fails for a session that holds nothing leaves nothing behind but calls.\<close>

lemma Create_failed:
  assumes fresh: "ua_bySession (ls_uplinks b) s = None" "ls_listeners b s = None" "ls_lost b s = None"
    and inv: "uplink_inv (ls_uplinks b)" and failed: "Create k s cs b = (Some e, b')"
  shows "\<exists>t. b' = traced b t \<and> (\<forall>ns. refs ns t = 0) \<and> (\<exists>m. e = BackendError m) \<and>
    (fst (last t) = Exec (netns_del_argv (netnsName s)) [] \<or>
     (\<exists>r. r \<noteq> KOk \<and> t = [(Exec (netns_add_argv (netnsName s)) [], r)]))"
proof -
  have "create_run s cs b (Some e, b')"
    using Create_runs [of s cs b k] failed by simp
  then show ?thesis
  proof cases
    case (uplink_failed idx u t tc m rd)
    have "free u s = ls_uplinks b"
      using free_alloc [OF inv fresh(1) uplink_failed(3)] .
    with uplink_failed fresh show ?thesis
      by (intro exI [of _ "create_prologue s cs @ listener_ok (netnsName s) @ t @ tc @
            [(Exec (netns_del_argv (netnsName s)) [], rd)]"])
        (simp add: refs_stopped_run refs_close [OF uplink_failed(5)] fun_upd_idem)
  next
    case (pool_empty er u tc m rd)
    then show ?thesis
      using fresh
      by (intro exI [of _ "create_prologue s cs @ listener_ok (netnsName s) @ tc @
            [(Exec (netns_del_argv (netnsName s)) [], rd)]"])
        (simp add: refs_close [OF pool_empty(4)] fun_upd_idem)
  qed (auto simp: create_prologue_def)
qed

lemma linux_create_ok:
  assumes inv: "linux_inv A b" and s: "s \<notin> A" and ok: "Create k s cs b = (None, b')"
  shows "linux_inv (insert s A) b'"
proof -
  have "create_run s cs b (None, b')"
    using Create_runs [of s cs b k] ok by simp
  then obtain idx u where a: "alloc (ls_uplinks b) s = (Inr idx, u)"
    and b': "b' = traced (b\<lparr>ls_uplinks := u, ls_listeners := (ls_listeners b)(s \<mapsto> netnsName s),
                   ls_lost := (ls_lost b)(s \<mapsto> 0)\<rparr>)
           (create_prologue s cs @ listener_ok (netnsName s) @ all_ok (uplink_steps idx (netnsName s)))"
    by cases
  have fin: "finite (dom (ls_listeners b))"
    using inv linux_inv_finite [OF inv] by (auto simp: linux_inv_def elim: finite_subset)
  have "s \<notin> dom (ls_listeners b)" using inv s by (auto simp: linux_inv_def)
  moreover have "uplink_inv u"
    using alloc_inv [of "ls_uplinks b" s] inv s a by (auto simp: linux_inv_def)
  ultimately show ?thesis
    using inv alloc_dom [OF a] card_fiber_upd [OF fin]
    unfolding linux_inv_def b' by auto
qed

lemma linux_create_failed:
  assumes inv: "linux_inv A b" and s: "s \<notin> A" and failed: "Create k s cs b = (Some e, b')"
  shows "linux_inv A b'"
proof -
  have fresh: "ua_bySession (ls_uplinks b) s = None" "ls_listeners b s = None" "ls_lost b s = None"
    using linux_inv_fresh [OF inv s] by auto
  obtain t where "b' = traced b t" "\<forall>ns. refs ns t = 0"
    using Create_failed [OF fresh _ failed] inv by (auto simp: linux_inv_def)
  with inv show ?thesis by (simp add: linux_inv_def)
qed

lemma card_fiber_del:
  assumes "finite (dom m)" and "m s = Some v"
  shows "int (card {x. (m(s := None)) x = Some w}) = int (card {x. m x = Some w}) - (if w = v then 1 else 0)"
proof -
  have "m = (m(s := None))(s \<mapsto> v)" using assms(2) by (simp add: fun_upd_idem)
  then show ?thesis
    using card_fiber_upd [of "m(s := None)" s v w] assms(1) by simp
qed

lemma linux_inv_forget:
  assumes inv: "linux_inv A b"
    and t: "map fst t = (case ls_listeners b s of Some ns \<Rightarrow> close_listener ns | None \<Rightarrow> [])"
  shows "linux_inv A (traced (forget_listener s b) (t @ [(Exec argv stdin, r)]))"
proof (cases "ls_listeners b s")
  case None
  moreover have "ls_lost b s = None"
    using inv None unfolding linux_inv_def by (metis domIff)
  ultimately show ?thesis using inv t by (simp add: linux_inv_def fun_upd_idem)
next
  case (Some ns)
  have fin: "finite (dom (ls_listeners b))"
    using inv linux_inv_finite [OF inv] by (auto simp: linux_inv_def elim: finite_subset)
  have "refs ns' t = (if ns = ns' then - 2 else 0)" for ns'
    using t Some by (intro refs_close) simp
  moreover have "refs ns' (ls_trace b) = 2 * int (card {s. ls_listeners b s = Some ns'})" for ns'
    using inv by (simp add: linux_inv_def)
  ultimately have "refs ns' (ls_trace b @ t @ [(Exec argv stdin, r)]) =
      2 * int (card {x. ((ls_listeners b)(s := None)) x = Some ns'})" for ns'
    by (simp only: refs_simps ref_delta.simps card_fiber_del [OF fin Some] split: if_split) simp
  then show ?thesis
    using inv by (simp add: linux_inv_def del: fun_upd_apply refs_simps) auto
qed

lemma linux_destroy:
  assumes inv: "linux_inv A b" and run: "Destroy k s b = (err, b')"
  shows "linux_inv (if err = None then A - {s} else A) b'"
proof -
  obtain t r where t: "map fst t = (case ls_listeners b s of Some ns \<Rightarrow> close_listener ns | None \<Rightarrow> [])"
    and d: "Destroy k s b = (cmd_error (''ip netns del '' @ netnsName s) ''ip netns del'' r,
        traced (forget_listener s (if r = KOk then b\<lparr>ls_uplinks := free (ls_uplinks b) s\<rparr> else b))
          (t @ [(Exec (netns_del_argv (netnsName s)) [], r)]))"
    using Destroy_runs by blast
  let ?b = "traced (forget_listener s b) (t @ [(Exec (netns_del_argv (netnsName s)) [], r)])"
  have forget: "linux_inv A ?b"
    by (rule linux_inv_forget [OF inv t])
  show ?thesis
  proof (cases "r = KOk")
    case True
    then have "err = None" "b' = ?b\<lparr>ls_uplinks := free (ls_uplinks b) s\<rparr>"
      using d run by (auto simp: update_order)
    moreover have "linux_inv (A - {s}) (?b\<lparr>ls_uplinks := free (ls_uplinks b) s\<rparr>)"
      using forget unfolding linux_inv_def by (auto simp: free_dom intro: free_inv)
    ultimately show ?thesis by simp
  next
    case False
    then have "err \<noteq> None" "b' = ?b"
      using d run by auto
    with forget show ?thesis by (cases err) simp_all
  qed
qed

lemma Create_BackendError: "Create k s cs b = (Some e, b') \<Longrightarrow> \<exists>m. e = BackendError m"
  using Create_runs [of s cs b k] by (auto elim: create_run.cases)

lemma Destroy_BackendError: "Destroy k s b = (Some e, b') \<Longrightarrow> \<exists>m. e = BackendError m"
  using Destroy_runs [of b s k] by (elim exE conjE) (auto dest: cmd_error_BackendError dest!: sym [of "Some e"])

interpretation linux: session_backend "LinuxBackend_ops k" linux_inv for k
proof unfold_locales
  fix A b s b' and cs :: "Cidr list" and e
  assume inv: "linux_inv A b"
  show "s \<notin> A \<Longrightarrow> be_Create (LinuxBackend_ops k) s cs b = (None, b') \<Longrightarrow> linux_inv (insert s A) b'"
    using linux_create_ok [OF inv] by (simp add: LinuxBackend_ops_def)
  show "s \<notin> A \<Longrightarrow> be_Create (LinuxBackend_ops k) s cs b = (Some e, b') \<Longrightarrow> linux_inv A b'"
    using linux_create_failed [OF inv] by (simp add: LinuxBackend_ops_def)
  show "s \<in> A \<Longrightarrow> be_Destroy (LinuxBackend_ops k) s b = (None, b') \<Longrightarrow> linux_inv (A - {s}) b'"
    using linux_destroy [OF inv, of k s None] by (simp add: LinuxBackend_ops_def)
  show "s \<in> A \<Longrightarrow> be_Destroy (LinuxBackend_ops k) s b = (Some e, b') \<Longrightarrow> linux_inv A b'"
    using linux_destroy [OF inv, of k s "Some e"] by (simp add: LinuxBackend_ops_def)
qed (auto simp: LinuxBackend_ops_def dest: Create_BackendError Destroy_BackendError)

section \<open>Order of the calls\<close>

text \<open>A call that gives a namespace connectivity: a link, an address, or a command other than \<^verbatim>\<open>nft\<close> run
  inside a namespace.\<close>

fun connects :: "kop \<Rightarrow> bool" where
  "connects (Exec argv stdin) \<longleftrightarrow>
     take 2 argv = [''ip'', ''link''] \<or> take 2 argv = [''ip'', ''addr''] \<or>
     take 3 argv = [''ip'', ''netns'', ''exec''] \<and> take 1 (drop 4 argv) \<noteq> [''nft'']"
| "connects _ \<longleftrightarrow> False"

lemma uplink_steps_connect: "argv \<in> set (uplink_steps idx ns) \<Longrightarrow> connects (Exec argv [])"
  by (auto simp: uplink_steps_def Let_def split: prod.splits)

lemma setup_not_connects [simp]:
  "\<not> connects (Exec (netns_add_argv ns) x)" "\<not> connects (Exec (netns_del_argv ns) x)"
  "\<not> connects (Exec (nft_argv ns) x)"
  by (simp_all add: netns_add_argv_def nft_argv_def netns_del_argv_def)

declare connects.simps(1) [simp del]

lemma close_not_connects: "map fst t = close_listener ns \<Longrightarrow> c \<in> set t \<Longrightarrow> \<not> connects (fst c)"
  by (auto simp: close_listener_def leave_ns_def)

definition guarded :: "session_id \<Rightarrow> Cidr list \<Rightarrow> ktrace \<Rightarrow> bool" where
  "guarded s cs t \<longleftrightarrow>
     (\<forall>before c after. t = before @ c # after \<longrightarrow> connects (fst c) \<longrightarrow>
        (Exec (nft_argv (netnsName s)) (Render \<lparr>rs_sessionID = s, rs_targets = cs\<rparr>), KOk) \<in> set before \<and>
        (NflogRegister (netnsName s), KOk) \<in> set before)"

lemma guarded_no_connects: "\<forall>c\<in>set t. \<not> connects (fst c) \<Longrightarrow> guarded s cs t"
  by (auto simp: guarded_def)

lemma guarded_prefix:
  assumes "\<forall>c\<in>set t. \<not> connects (fst c)"
    and "(Exec (nft_argv (netnsName s)) (Render \<lparr>rs_sessionID = s, rs_targets = cs\<rparr>), KOk) \<in> set t"
    and "(NflogRegister (netnsName s), KOk) \<in> set t"
  shows "guarded s cs (t @ u)"
  unfolding guarded_def
proof (intro allI impI)
  fix before c after
  assume "t @ u = before @ c # after" "connects (fst c)"
  then obtain x where "before = t @ x"
    using assms(1) by (auto simp: append_eq_append_conv2 append_eq_Cons_conv Cons_eq_append_conv)
  with assms(2,3) show "(Exec (nft_argv (netnsName s)) (Render \<lparr>rs_sessionID = s, rs_targets = cs\<rparr>), KOk) \<in> set before \<and>
        (NflogRegister (netnsName s), KOk) \<in> set before"
    by simp
qed

lemma guarded_setup: "guarded s cs (create_prologue s cs @ listener_ok (netnsName s) @ u)"
  by (rule guarded_prefix [of "create_prologue s cs @ listener_ok (netnsName s)" s cs u, simplified])
    (auto simp: create_prologue_def listener_ok_def listener_calls_def)

lemma Create_guarded: "\<exists>t. ls_trace (snd (Create k s cs b)) = ls_trace b @ t \<and> guarded s cs t"
proof -
  have "create_run s cs b (Create k s cs b)" by (rule Create_runs)
  then show ?thesis
  proof cases
    case (listener_failed t m rd)
    have "\<not> connects (fst c)" if "c \<in> set t" for c
      using listener_failed(2) that by (cases "fst c") auto
    then show ?thesis
      unfolding listener_failed(1) by (auto simp: create_prologue_def intro!: guarded_no_connects)
  qed (auto simp: guarded_setup, auto simp: create_prologue_def intro!: guarded_no_connects)
qed

section \<open>Names of namespaces\<close>

text \<open>The names that exist after a sequence of calls: added and not deleted since.\<close>

fun live_step :: "string set \<Rightarrow> kop \<times> kres \<Rightarrow> string set" where
  "live_step L (Exec argv stdin, r) =
     (if r = KOk \<and> take 3 argv = [''ip'', ''netns'', ''add''] then insert (argv ! 3) L
      else if r = KOk \<and> take 3 argv = [''ip'', ''netns'', ''del''] then L - {argv ! 3}
      else L)"
| "live_step L (_, r) = L"

definition live_ns :: "ktrace \<Rightarrow> string set" where
  "live_ns t = foldl live_step {} t"

text \<open>The documented behaviour of \<^verbatim>\<open>ip netns add\<close>: it fails for a name that exists.\<close>

definition netns_add_exclusive :: "kernel \<Rightarrow> bool" where
  "netns_add_exclusive k \<longleftrightarrow>
     (\<forall>h ns. ns \<in> live_ns h \<longrightarrow> k h (Exec (netns_add_argv ns) []) \<noteq> KOk)"

lemma foldl_live_id:
  "\<forall>c\<in>set t. \<forall>L. live_step L c = L \<Longrightarrow> foldl live_step L t = L"
  by (induction t arbitrary: L) auto

lemma live_ns_append: "live_ns (t @ u) = foldl live_step (live_ns t) u"
  by (simp add: live_ns_def)

lemma live_not_exec: "\<forall>argv stdin. fst c \<noteq> Exec argv stdin \<Longrightarrow> live_step L c = L"
  by (cases c; cases "fst c") auto

lemma live_uplink: "argv \<in> set (uplink_steps idx ns) \<Longrightarrow> live_step L (Exec argv [], r) = L"
  by (auto simp: uplink_steps_def Let_def split: prod.splits)

lemma live_del [simp]:
  "live_step L (Exec (netns_del_argv ns) x, r) = (if r = KOk then L - {ns} else L)"
  "live_step L (Exec (netns_add_argv ns) x, r) = (if r = KOk then insert ns L else L)"
  "live_step L (Exec (nft_argv ns) x, r) = L"
  by (simp_all add: netns_del_argv_def netns_add_argv_def nft_argv_def)

declare live_step.simps(1) [simp del]

lemma live_all_ok [simp]: "foldl live_step L (all_ok (uplink_steps idx ns)) = L"
  by (rule foldl_live_id) (auto simp: live_uplink)

lemma live_stopped:
  assumes "stopped_run (uplink_steps idx ns) t"
  shows "foldl live_step L t = L"
proof -
  obtain xs a ys r where t: "uplink_steps idx ns = xs @ a # ys" "t = all_ok xs @ [(Exec a [], r)]"
    using assms by (auto simp: stopped_run_def)
  then have "live_step L' (Exec argv [], r') = L'" if "argv \<in> set xs \<or> argv = a" for argv r' L'
    using that by (intro live_uplink [of argv idx ns]) auto
  then show ?thesis
    using t(2) by (intro foldl_live_id) auto
qed

lemma live_close: "map fst t = close_listener ns \<Longrightarrow> foldl live_step L t = L"
  by (rule foldl_live_id) (auto simp: close_listener_def leave_ns_def)

lemma live_listener_ok [simp]: "foldl live_step L (listener_ok ns) = L"
  by (rule foldl_live_id) (auto simp: listener_ok_def listener_calls_def)

lemma live_prologue [simp]: "foldl live_step L (create_prologue s cs) = insert (netnsName s) L"
  by (simp add: create_prologue_def)

lemma Create_live:
  assumes "netnsName s \<notin> live_ns (ls_trace b)" and "Create k s cs b = (err, b')"
  shows "live_ns (ls_trace b) \<subseteq> live_ns (ls_trace b')" "err = None \<Longrightarrow> netnsName s \<in> live_ns (ls_trace b')"
proof -
  have run: "create_run s cs b (err, b')"
    using Create_runs [of s cs b k] assms(2) by simp
  show "live_ns (ls_trace b) \<subseteq> live_ns (ls_trace b')"
    using run
  proof cases
    case (listener_failed t m rd)
    then show ?thesis
      using assms(1) foldl_live_id [of t] by (auto simp: live_ns_append live_not_exec)
  qed (use assms(1) in \<open>auto simp: live_ns_append live_stopped live_close create_prologue_def\<close>)
  show "netnsName s \<in> live_ns (ls_trace b')" if "err = None"
    using run that by cases (auto simp: live_ns_append)
qed

lemma Create_existing:
  assumes "netns_add_exclusive k" and "netnsName s \<in> live_ns (ls_trace b)"
  shows "\<exists>e r. r \<noteq> KOk \<and> Create k s cs b = (Some e, traced b [(Exec (netns_add_argv (netnsName s)) [], r)])"
proof -
  have r: "k (ls_trace b) (Exec (netns_add_argv (netnsName s)) []) \<noteq> KOk"
    using assms by (simp add: netns_add_exclusive_def)
  then obtain m where "cmd_error (''ip netns add '' @ netnsName s) ''ip netns add''
      (k (ls_trace b) (Exec (netns_add_argv (netnsName s)) [])) = Some (BackendError m)"
    using cmd_error_Some by blast
  with r show ?thesis
    by (simp add: Create_def Let_def run_cmd_def kcall_eq) blast
qed

text \<open>Active sessions have different namespaces, and these exist.\<close>

definition names_inv :: "session_id set \<Rightarrow> LinuxSandbox \<Rightarrow> bool" where
  "names_inv A b \<longleftrightarrow> inj_on netnsName A \<and> netnsName ` A \<subseteq> live_ns (ls_trace b)"

lemma names_create:
  assumes "netns_add_exclusive k" and "names_inv A b" and "s \<notin> A" and "Create k s cs b = (err, b')"
  shows "names_inv (if err = None then insert s A else A) b'"
proof (cases "netnsName s \<in> live_ns (ls_trace b)")
  case True
  with Create_existing [OF assms(1) True, of cs] assms show ?thesis
    by (auto simp: names_inv_def live_ns_append)
next
  case False
  with Create_live [OF False assms(4)] assms(2,3) show ?thesis
    by (auto simp: names_inv_def)
qed

lemma names_destroy:
  assumes "names_inv A b" and "s \<in> A" and "Destroy k s b = (err, b')"
  shows "names_inv (if err = None then A - {s} else A) b'"
proof -
  obtain t r where t: "map fst t = (case ls_listeners b s of Some ns \<Rightarrow> close_listener ns | None \<Rightarrow> [])"
    and d: "Destroy k s b = (cmd_error (''ip netns del '' @ netnsName s) ''ip netns del'' r,
        traced (forget_listener s (if r = KOk then b\<lparr>ls_uplinks := free (ls_uplinks b) s\<rparr> else b))
          (t @ [(Exec (netns_del_argv (netnsName s)) [], r)]))"
    using Destroy_runs by blast
  have "foldl live_step L t = L" for L
    using t live_close by (cases "ls_listeners b s") auto
  then have live: "live_ns (ls_trace b') = (if r = KOk then live_ns (ls_trace b) - {netnsName s} else live_ns (ls_trace b))"
    and err: "err = None \<longleftrightarrow> r = KOk"
    using d assms(3) by (auto simp: live_ns_append)
  have "netnsName ` (A - {s}) \<subseteq> live_ns (ls_trace b) - {netnsName s}"
    using assms(1,2) by (auto simp: names_inv_def inj_on_def)
  then show ?thesis
    using assms(1) live err by (auto simp: names_inv_def intro: inj_on_subset)
qed

section \<open>The controller over the Linux backend\<close>

text \<open>The steps of the sandbox layer: the two operations of the controller, which run under the lock of the
  API, a packet logged to a listener that is up, and the consumer taking a drop from the channel.\<close>

type_synonym linux_controller = "LinuxSandbox Controller"

inductive ctrl_step :: "kernel \<Rightarrow> linux_controller \<Rightarrow> linux_controller \<Rightarrow> bool" for k :: kernel where
  create: "ctrl_step k c (snd (CreateSandbox (LinuxBackend_ops k) c s cs))"
| destroy: "ctrl_step k c (snd (DestroySandbox (LinuxBackend_ops k) c s))"
| packet: "ls_listeners (ct_backend c) s \<noteq> None \<Longrightarrow> nflog_hook s now payload (ct_backend c) = Some b \<Longrightarrow>
    ctrl_step k c (c\<lparr>ct_backend := b\<rparr>)"
| receive: "ls_drops (ct_backend c) = d # ds \<Longrightarrow>
    ctrl_step k c (c\<lparr>ct_backend := (ct_backend c)\<lparr>ls_drops := ds\<rparr>\<rparr>)"

definition ctrl_reachable :: "kernel \<Rightarrow> linux_controller \<Rightarrow> bool" where
  "ctrl_reachable k c \<longleftrightarrow> (ctrl_step k)\<^sup>*\<^sup>* (NewController NewLinuxSandbox) c"

lemma nflog_hook_parsed:
  "parseDropPayload p = Some (Some f) \<Longrightarrow>
     nflog_hook s now (Some p) b =
       Some (if length (ls_drops b) < drops_cap
             then b\<lparr>ls_drops := ls_drops b @
               [\<lparr>d_SessionID = s, d_SrcIP = df_src f, d_DstIP = df_dst f, d_DstPort = df_port f,
                 d_Proto = df_proto f, d_At = now\<rparr>]\<rparr>
             else b\<lparr>ls_lost := (ls_lost b)(s := map_option (\<lambda>c. c + 1) (ls_lost b s))\<rparr>)"
  by (simp add: nflog_hook_def Let_def)

lemma nflog_hook_ignored:
  "nflog_hook s now None b = Some b"
  "parseDropPayload p = Some None \<Longrightarrow> nflog_hook s now (Some p) b = Some b"
  "parseDropPayload p = None \<Longrightarrow> nflog_hook s now (Some p) b = None"
  by (simp_all add: nflog_hook_def)

lemma nflog_hook_cases:
  assumes "nflog_hook s now payload b = Some b'"
  obtains (ignored) "b' = b"
  | (queued) d where "length (ls_drops b) < drops_cap" "b' = b\<lparr>ls_drops := ls_drops b @ [d]\<rparr>"
  | (lost) "b' = b\<lparr>ls_lost := (ls_lost b)(s := map_option (\<lambda>c. c + 1) (ls_lost b s))\<rparr>"
proof -
  consider "payload = None" | p where "payload = Some p" "parseDropPayload p = None"
    | p where "payload = Some p" "parseDropPayload p = Some None"
    | p f where "payload = Some p" "parseDropPayload p = Some (Some f)"
    by (metis not_Some_eq)
  then show ?thesis
  proof cases
    case (4 p f)
    show ?thesis
    proof (cases "length (ls_drops b) < drops_cap")
      case True
      show ?thesis
        using assms 4 True by (intro queued [OF True]) (simp add: nflog_hook_parsed, erule sym)
    qed (use assms 4 in \<open>simp add: nflog_hook_parsed lost\<close>)
  qed (use assms in \<open>simp_all add: nflog_hook_ignored ignored\<close>)
qed

lemma linux_inv_hook:
  assumes inv: "linux_inv A b" and hook: "nflog_hook s now payload b = Some b'"
  shows "linux_inv A b'"
  using hook
proof (cases rule: nflog_hook_cases)
  case lost
  have "dom ((ls_lost b)(s := map_option (\<lambda>c. c + 1) (ls_lost b s))) = dom (ls_lost b)"
    by (auto simp: dom_def)
  with inv lost show ?thesis unfolding linux_inv_def by (simp del: fun_upd_apply)
qed (use inv in \<open>auto simp: linux_inv_def\<close>)

lemma ctrl_step_synced:
  assumes "ctrl_step k c c'" and "linux.synced c"
  shows "linux.synced c'"
  using assms
proof cases
  case (packet s now payload b)
  with assms(2) linux_inv_hook show ?thesis by (simp add: linux.synced_def)
next
  case (receive d ds)
  with assms(2) show ?thesis by (simp add: linux.synced_def linux_inv_def)
qed (auto intro: linux.synced_create linux.synced_destroy)

lemma linux_inv_new: "linux_inv {} NewLinuxSandbox"
  by (simp add: linux_inv_def NewLinuxSandbox_def new_inv) (simp add: newUplinkAllocator_def)

interpretation ctrl: step_invariant "NewController NewLinuxSandbox" "ctrl_step k" linux.synced for k
  by unfold_locales (simp add: linux.synced_def NewController_def linux_inv_new, rule ctrl_step_synced)

lemma ctrl_reachable_inv:
  assumes "ctrl_reachable k c"
  shows "linux_inv (ct_active c) (ct_backend c)"
  using ctrl.reachable_inv [OF assms [unfolded ctrl_reachable_def]] by (simp add: linux.synced_def)

lemma names_CreateSandbox:
  assumes "netns_add_exclusive k" and "names_inv (ct_active c) (ct_backend c)"
    and "c' = snd (CreateSandbox (LinuxBackend_ops k) c s cs)"
  shows "names_inv (ct_active c') (ct_backend c')"
proof (cases "s \<in> ct_active c")
  case False
  obtain err b' where r: "Create k s cs (ct_backend c) = (err, b')" by fastforce
  then show ?thesis
    using names_create [OF assms(1,2) False r] False assms(3)
    by (cases err) (simp_all add: CreateSandbox_def LinuxBackend_ops_def)
qed (use assms in \<open>simp add: CreateSandbox_def\<close>)

lemma names_DestroySandbox:
  assumes "names_inv (ct_active c) (ct_backend c)"
    and "c' = snd (DestroySandbox (LinuxBackend_ops k) c s)"
  shows "names_inv (ct_active c') (ct_backend c')"
proof (cases "s \<in> ct_active c")
  case True
  obtain err b' where r: "Destroy k s (ct_backend c) = (err, b')" by fastforce
  then show ?thesis
    using names_destroy [OF assms(1) True r] True assms(2)
    by (cases err) (simp_all add: DestroySandbox_def LinuxBackend_ops_def)
qed (use assms in \<open>simp add: DestroySandbox_def\<close>)

lemma ctrl_step_names:
  assumes "ctrl_step k c c'" and "netns_add_exclusive k" and "names_inv (ct_active c) (ct_backend c)"
  shows "names_inv (ct_active c') (ct_backend c')"
  using assms(1)
proof cases
  case (create s cs)
  then show ?thesis by (rule names_CreateSandbox [OF assms(2,3)])
next
  case (destroy s)
  then show ?thesis by (rule names_DestroySandbox [OF assms(3)])
next
  case (packet s now payload b)
  from packet(3) have "ls_trace b = ls_trace (ct_backend c)"
    by (cases rule: nflog_hook_cases) auto
  with packet assms(3) show ?thesis by (simp add: names_inv_def)
next
  case (receive d ds)
  with assms(3) show ?thesis by (simp add: names_inv_def)
qed

interpretation ctrl_names: step_invariant "NewController NewLinuxSandbox" "ctrl_step k"
  "\<lambda>c. netns_add_exclusive k \<longrightarrow> names_inv (ct_active c) (ct_backend c)" for k
  by unfold_locales (simp add: names_inv_def NewController_def, use ctrl_step_names in blast)

lemma ctrl_reachable_names:
  assumes "ctrl_reachable k c" and "netns_add_exclusive k"
  shows "names_inv (ct_active c) (ct_backend c)"
  using ctrl_names.reachable_inv [OF assms(1) [unfolded ctrl_reachable_def]] assms(2) by simp

text \<open>A kernel that refuses only to add a namespace whose name exists.\<close>

definition plain_kernel :: kernel where
  "plain_kernel h call =
     (case call of
        Exec argv stdin \<Rightarrow>
          if argv = netns_add_argv (argv ! 3) \<and> argv ! 3 \<in> live_ns h
          then KExit ''File exists'' else KOk
      | _ \<Rightarrow> KOk)"

lemma plain_kernel_exclusive: "netns_add_exclusive plain_kernel"
  by (simp add: netns_add_exclusive_def plain_kernel_def netns_add_argv_def)

lemma run_steps_ok:
  assumes "\<forall>h argv. argv \<in> set steps \<longrightarrow> k h (Exec argv []) = KOk"
  shows "fst (run_steps k steps b) = None"
  using assms by (induction steps arbitrary: b) (simp_all add: run_def run_cmd_def kcall_eq)

lemma uplink_steps_not_add: "netns_add_argv ns \<notin> set (uplink_steps idx ns')"
  by (auto simp: uplink_steps_def netns_add_argv_def Let_def split: prod.splits)

lemma Create_succeeds:
  assumes "\<forall>h call. (\<forall>ns stdin. call \<noteq> Exec (netns_add_argv ns) stdin) \<longrightarrow> k h call = KOk"
    and "k (ls_trace b) (Exec (netns_add_argv (netnsName s)) []) = KOk"
    and "alloc (ls_uplinks b) s = (Inr idx, u)"
  shows "fst (Create k s cs b) = None"
proof -
  let ?ns = "netnsName s"
  have ok: "k h (Exec (nft_argv ?ns) x) = KOk" "k h NetnsGet = KOk" "k h (NetnsGetFromName ns) = KOk"
    "k h (NetnsSet ns) = KOk" "k h (NflogOpen ns g) = KOk" "k h (NflogRegister ns) = KOk" for h x ns g
    using assms(1) by (simp_all add: nft_argv_def netns_add_argv_def)
  have "fst (run_steps k (uplink_steps idx ?ns) b') = None" for b'
    using assms(1) uplink_steps_not_add [of _ idx ?ns] by (intro run_steps_ok) (metis kop.inject(1))
  then have "fst (provisionUplink k s ?ns b') = None" if "ls_uplinks b' = ls_uplinks b" for b'
    using assms(3) that by (auto simp: provisionUplink_def split: prod.split option.split)
      (drule arg_cong [of _ _ fst], simp)
  then show ?thesis
    using assms(2)
    by (auto simp: Create_def Let_def run_cmd_def kcall_eq applyRulesetInNS_def startDropListener_def ok
        split: prod.split option.split) (drule arg_cong [of _ _ fst], simp)
qed

section \<open>Properties\<close>

lemma plain_create: "\<exists>b'. Create plain_kernel s cs NewLinuxSandbox = (None, b')"
proof -
  obtain idx u where "alloc (ls_uplinks NewLinuxSandbox) s = (Inr idx, u)"
    by (simp add: alloc_def NewLinuxSandbox_def newUplinkAllocator_def findFree.simps [of _ 0] maxUplinks_def)
  then have "fst (Create plain_kernel s cs NewLinuxSandbox) = None"
    by (intro Create_succeeds)
      (auto simp: plain_kernel_def NewLinuxSandbox_def live_ns_def split: kop.split)
  then show ?thesis by (metis prod.collapse)
qed

text \<open>C6: Enforcement before connectivity: in every call of \<open>Create\<close>, whatever the system answers, each
  command that connects the namespace comes after the session's rule set was loaded into it with
  success and after the NFLOG listener was registered with success.\<close>

theorem enforcement_before_connectivity:
  "\<exists>t. ls_trace (snd (Create k s cs b)) = ls_trace b @ t \<and>
     (\<forall>before c after. t = before @ c # after \<longrightarrow> connects (fst c) \<longrightarrow>
        (Exec (nft_argv (netnsName s)) (Render \<lparr>rs_sessionID = s, rs_targets = cs\<rparr>), KOk) \<in> set before \<and>
        (NflogRegister (netnsName s), KOk) \<in> set before)"
  using Create_guarded unfolding guarded_def .

theorem enforcement_before_connectivity_witness:
  "\<exists>before c after. ls_trace (snd (Create plain_kernel ''a-b'' [] NewLinuxSandbox)) = before @ c # after \<and> connects (fst c) \<and>
     (Exec (nft_argv ''warden_a_b'') (Render \<lparr>rs_sessionID = ''a-b'', rs_targets = []\<rparr>), KOk) \<in> set before"
proof -
  obtain t where t: "ls_trace (snd (Create plain_kernel ''a-b'' [] NewLinuxSandbox)) = ls_trace NewLinuxSandbox @ t"
      "\<forall>before c after. t = before @ c # after \<longrightarrow> connects (fst c) \<longrightarrow>
        (Exec (nft_argv (netnsName ''a-b'')) (Render \<lparr>rs_sessionID = ''a-b'', rs_targets = []\<rparr>), KOk) \<in> set before"
    using enforcement_before_connectivity [of plain_kernel "''a-b''" "[]" NewLinuxSandbox] by metis
  obtain b' where "Create plain_kernel ''a-b'' [] NewLinuxSandbox = (None, b')" using plain_create by blast
  with Create_runs [of "''a-b''" "[]" NewLinuxSandbox plain_kernel] have "create_run ''a-b'' [] NewLinuxSandbox (None, b')" by simp
  then obtain idx where "ls_trace b' = ls_trace NewLinuxSandbox @
      create_prologue ''a-b'' [] @ listener_ok (netnsName ''a-b'') @ all_ok (uplink_steps idx (netnsName ''a-b''))"
    by cases auto
  with t(1) \<open>Create _ _ _ _ = _\<close> have t': "t = (create_prologue ''a-b'' [] @ listener_ok (netnsName ''a-b'')) @
      all_ok (uplink_steps idx (netnsName ''a-b''))" by simp
  have "uplink_steps idx (netnsName ''a-b'') \<noteq> []" by (simp add: uplink_steps_def Let_def split: prod.splits)
  then obtain argv rest where "uplink_steps idx (netnsName ''a-b'') = argv # rest" by (meson neq_Nil_conv)
  then have "connects (fst (Exec argv [], KOk))"
    "t = (create_prologue ''a-b'' [] @ listener_ok (netnsName ''a-b'')) @ (Exec argv [], KOk) # all_ok rest"
    using uplink_steps_connect [of argv idx "netnsName ''a-b''"] t' by auto
  moreover have "netnsName ''a-b'' = ''warden_a_b''" by (simp add: netnsName_def strings_ReplaceAll_def)
  moreover have "ls_trace (snd (Create plain_kernel ''a-b'' [] NewLinuxSandbox)) = t"
    using t(1) by (simp add: NewLinuxSandbox_def)
  ultimately show ?thesis using t(2) by metis
qed

text \<open>C13: A creation that fails, at whatever step, releases everything: no uplink, no listener and no
  loss counter is left, no reference to any namespace is kept, and the last call is the deletion
  of the namespace unless the very first command, which adds it, was the one that failed.\<close>

theorem failed_create_is_clean:
  assumes "ctrl_reachable k c" and "s \<notin> ct_active c"
    and "Create k s cs (ct_backend c) = (Some e, b')"
  shows "\<exists>t. b' = (ct_backend c)\<lparr>ls_trace := ls_trace (ct_backend c) @ t\<rparr> \<and>
    (\<forall>ns. refs ns t = 0) \<and>
    (fst (last t) = Exec (netns_del_argv (netnsName s)) [] \<or>
     (\<exists>r. r \<noteq> KOk \<and> t = [(Exec (netns_add_argv (netnsName s)) [], r)]))"
  using Create_failed [OF linux_inv_fresh [OF ctrl_reachable_inv [OF assms(1)] assms(2)] _ assms(3)]
    ctrl_reachable_inv [OF assms(1)]
  by (auto simp: linux_inv_def)

theorem failed_create_is_clean_witness:
  "\<exists>t. snd (Create (\<lambda>_ _. KErr ''no ip'') ''s-1'' [] NewLinuxSandbox) = NewLinuxSandbox\<lparr>ls_trace := t\<rparr> \<and>
     (\<forall>ns. refs ns t = 0)"
proof -
  have "ctrl_reachable (\<lambda>_ _. KErr ''no ip'') (NewController NewLinuxSandbox)"
    by (simp add: ctrl_reachable_def)
  moreover obtain e b' where "Create (\<lambda>_ _. KErr ''no ip'') ''s-1'' [] NewLinuxSandbox = (Some e, b')"
    by (simp add: Create_def Let_def run_cmd_def kcall_eq)
  ultimately show ?thesis
    using failed_create_is_clean [of "\<lambda>_ _. KErr ''no ip''" "NewController NewLinuxSandbox" "''s-1''" "[]" e b']
    by (auto simp: NewController_def NewLinuxSandbox_def)
qed

text \<open>In every state that the sandbox layer can reach, the controller's set of active sessions and the
  backend agree: exactly the active sessions hold an uplink index, a listener belongs to an active
  session and is attached to its namespace, the enforcer holds two references to a namespace for each of
  its listeners and none otherwise, and the drop channel is within its capacity. In particular a
  session that is created holds no index yet.\<close>

theorem controller_backend_agree:
  assumes "ctrl_reachable k c"
  shows "dom (ua_bySession (ls_uplinks (ct_backend c))) = ct_active c \<and>
    inj_on (ua_bySession (ls_uplinks (ct_backend c))) (ct_active c) \<and>
    dom (ls_listeners (ct_backend c)) \<subseteq> ct_active c \<and>
    (\<forall>s ns. ls_listeners (ct_backend c) s = Some ns \<longrightarrow> ns = netnsName s) \<and>
    (\<forall>ns. refs ns (ls_trace (ct_backend c)) = 2 * int (card {s. ls_listeners (ct_backend c) s = Some ns})) \<and>
    length (ls_drops (ct_backend c)) \<le> drops_cap \<and> ActiveCount c \<le> maxUplinks"
proof -
  have inv: "linux_inv (ct_active c) (ct_backend c)" by (rule ctrl_reachable_inv [OF assms])
  have "card (dom (ua_bySession (ls_uplinks (ct_backend c)))) \<le> card {..<maxUplinks}"
    using inv card_ran_inj card_mono [of "{..<maxUplinks}" "ran (ua_bySession (ls_uplinks (ct_backend c)))"]
    unfolding linux_inv_def uplink_inv_def by (metis finite_lessThan)
  with inv show ?thesis
    unfolding linux_inv_def uplink_inv_def ActiveCount_def by auto
qed

theorem controller_backend_agree_witness:
  "ActiveCount (NewController NewLinuxSandbox) \<le> maxUplinks"
  using controller_backend_agree [of plain_kernel "NewController NewLinuxSandbox"]
  by (simp add: ctrl_reachable_def)

text \<open>C14: Where \<^verbatim>\<open>ip netns add\<close> fails for a name that exists, as documented, two active sessions never share
  a namespace although the namespace name does not determine the session: of two identifiers with
  the same name the second creation is refused.\<close>

theorem active_sessions_have_own_namespace:
  assumes "netns_add_exclusive k" and "ctrl_reachable k c"
    and "s \<in> ct_active c" and "netnsName s' = netnsName s" and "s' \<noteq> s"
  shows "s' \<notin> ct_active c \<and> (\<exists>e. fst (CreateSandbox (LinuxBackend_ops k) c s' cs) = Some (BackendError e)) \<and>
    ct_active (snd (CreateSandbox (LinuxBackend_ops k) c s' cs)) = ct_active c"
proof -
  have names: "names_inv (ct_active c) (ct_backend c)"
    by (rule ctrl_reachable_names [OF assms(2,1)])
  then have inactive: "s' \<notin> ct_active c"
    using assms(3-5) by (auto simp: names_inv_def inj_on_def)
  have "netnsName s' \<in> live_ns (ls_trace (ct_backend c))"
    using names assms(3,4) by (auto simp: names_inv_def)
  from Create_existing [OF assms(1) this, of cs] obtain e b' where "Create k s' cs (ct_backend c) = (Some e, b')"
    by blast
  with inactive Create_BackendError [OF this] show ?thesis
    by (auto simp: CreateSandbox_def LinuxBackend_ops_def)
qed

text \<open>A state with one session, created by the plain kernel.\<close>

definition one_session :: linux_controller where
  "one_session = snd (CreateSandbox (LinuxBackend_ops plain_kernel) (NewController NewLinuxSandbox) ''a-b'' [])"

lemma one_session_active: "ct_active one_session = {''a-b''}"
  using plain_create [of "''a-b''" "[]"]
  by (auto simp: one_session_def CreateSandbox_def LinuxBackend_ops_def NewController_def)

theorem active_sessions_have_own_namespace_witness:
  "\<exists>e. fst (CreateSandbox (LinuxBackend_ops plain_kernel) one_session ''a_b'' []) = Some (BackendError e)"
proof -
  have "ctrl_reachable plain_kernel one_session"
    unfolding ctrl_reachable_def one_session_def by (rule r_into_rtranclp) (rule ctrl_step.create)
  moreover have "netnsName ''a_b'' = netnsName ''a-b''"
    by (simp add: netnsName_def strings_ReplaceAll_def)
  ultimately show ?thesis
    using active_sessions_have_own_namespace [of plain_kernel one_session "''a-b''" "''a_b''" "[]"]
      plain_kernel_exclusive one_session_active
    by simp
qed

text \<open>A logged packet of a session never makes the listener panic. A payload that is missing or
  not understood changes nothing; every other payload is either queued once, under the listener's
  own session and with the facts of the packet, or, with the channel full, adds one to the
  session's loss counter. Nothing else changes.\<close>

theorem packet_queued_or_counted:
  "\<exists>b'. nflog_hook s now payload b = Some b' \<and>
     (case payload of
        None \<Rightarrow> b' = b
      | Some p \<Rightarrow>
        (case the (parseDropPayload p) of
           None \<Rightarrow> b' = b
         | Some f \<Rightarrow>
             if length (ls_drops b) < 256
             then b' = b\<lparr>ls_drops := ls_drops b @
               [\<lparr>d_SessionID = s, d_SrcIP = df_src f, d_DstIP = df_dst f, d_DstPort = df_port f,
                 d_Proto = df_proto f, d_At = now\<rparr>]\<rparr>
             else b' = b\<lparr>ls_lost := (ls_lost b)(s := map_option (\<lambda>n. n + 1) (ls_lost b s))\<rparr>))"
proof (cases payload)
  case (Some p)
  obtain r where r: "parseDropPayload p = Some r"
    using parse_never_panics by blast
  then show ?thesis
    using Some by (cases r) (simp_all add: nflog_hook_ignored nflog_hook_parsed drops_cap_def)
qed (simp add: nflog_hook_ignored)

text \<open>C35: If every call to the system succeeds and the pool has a free index, \<open>Create\<close> succeeds, and its
  effect is the whole setup: the lowest free index is taken, the listener is registered with
  a zero loss counter, and the calls are, in this order, the namespace, the rules, the listener
  and the seven uplink commands.\<close>

theorem create_succeeds:
  assumes "\<forall>h call. k h call = KOk" and "ua_used (ls_uplinks b) i = False" and "i < maxUplinks"
  shows "\<exists>idx u. alloc (ls_uplinks b) s = (Inr idx, u) \<and>
    Create k s cs b = (None, b\<lparr>
      ls_uplinks := u,
      ls_listeners := (ls_listeners b)(s \<mapsto> netnsName s),
      ls_lost := (ls_lost b)(s \<mapsto> 0),
      ls_trace := ls_trace b @ map (\<lambda>call. (call, KOk))
        ([Exec (netns_add_argv (netnsName s)) [],
          Exec (nft_argv (netnsName s)) (Render \<lparr>rs_sessionID = s, rs_targets = cs\<rparr>)] @
         listener_calls (netnsName s) @
         map (\<lambda>argv. Exec argv []) (uplink_steps idx (netnsName s)))\<rparr>)"
proof -
  obtain idx where "findFree (ua_used (ls_uplinks b)) 0 = Some idx"
    using findFree_None [of "ua_used (ls_uplinks b)" 0] assms(2,3) by (cases "findFree (ua_used (ls_uplinks b)) 0") auto
  then obtain idx u where a: "alloc (ls_uplinks b) s = (Inr idx, u)"
    by (simp add: alloc_def)
  have "fst (Create k s cs b) = None"
    using assms(1) a by (intro Create_succeeds) simp_all
  then have "create_run s cs b (None, snd (Create k s cs b))"
    using Create_runs [of s cs b k] by (metis prod.collapse)
  then show ?thesis
    using a \<open>fst (Create k s cs b) = None\<close>
    by cases (simp add: prod_eq_iff create_prologue_def listener_ok_def)
qed

theorem create_succeeds_witness:
  "fst (Create (\<lambda>_ _. KOk) ''s-1'' [] NewLinuxSandbox) = None"
  using create_succeeds [of "\<lambda>_ _. KOk" NewLinuxSandbox 0 "''s-1''" "[]"]
  by (auto simp: NewLinuxSandbox_def newUplinkAllocator_def maxUplinks_def)

text \<open>C34: Tearing a session down stops its listener, if it has one, before the namespace is deleted. The index
  goes back to the pool exactly if the deletion succeeded. After a failed deletion the session keeps
  its uplink but has no listener and reads a loss count of zero, so until the retry its dropped
  packets are neither recorded nor counted; the retry makes no call but the deletion.\<close>

theorem destroy_releases:
  assumes "linux_inv A b" and "s \<in> A" and "Destroy k s b = (err, b')"
  shows "\<exists>t r. ls_trace b' = ls_trace b @ t @ [(Exec (netns_del_argv (netnsName s)) [], r)] \<and>
      map fst t = (if ls_listeners b s = None then [] else close_listener (netnsName s)) \<and>
      (err = None \<longleftrightarrow> r = KOk) \<and>
      ls_listeners b' = (ls_listeners b)(s := None) \<and> linux_LostDrops s b' = 0 \<and>
      ls_uplinks b' = (if err = None then free (ls_uplinks b) s else ls_uplinks b) \<and>
      (\<exists>r'. ls_trace (snd (Destroy k s b')) = ls_trace b' @ [(Exec (netns_del_argv (netnsName s)) [], r')])"
proof -
  obtain t r where t: "map fst t = (case ls_listeners b s of Some ns \<Rightarrow> close_listener ns | None \<Rightarrow> [])"
    and d: "Destroy k s b = (cmd_error (''ip netns del '' @ netnsName s) ''ip netns del'' r,
        traced (forget_listener s (if r = KOk then b\<lparr>ls_uplinks := free (ls_uplinks b) s\<rparr> else b))
          (t @ [(Exec (netns_del_argv (netnsName s)) [], r)]))"
    using Destroy_runs by blast
  have "map fst t = (if ls_listeners b s = None then [] else close_listener (netnsName s))"
    using t assms(1) by (auto simp: linux_inv_def split: option.splits)
  moreover have none: "ls_listeners b' s = None" and err: "err = None \<longleftrightarrow> r = KOk"
    using d assms(3) by auto
  moreover obtain r' where "ls_trace (snd (Destroy k s b')) = ls_trace b' @ [(Exec (netns_del_argv (netnsName s)) [], r')]"
    using Destroy_runs [of b' s k] none by auto
  ultimately show ?thesis
    using d assms(3) by (intro exI [of _ t] exI [of _ r]) (auto simp: linux_LostDrops_def)
qed

theorem destroy_releases_witness:
  "ls_listeners (snd (Destroy (\<lambda>_ _. KErr ''busy'') ''a-b'' (ct_backend one_session))) ''a-b'' = None"
proof -
  have "ctrl_reachable plain_kernel one_session"
    unfolding ctrl_reachable_def one_session_def by (rule r_into_rtranclp) (rule ctrl_step.create)
  then have "linux_inv {''a-b''} (ct_backend one_session)"
    using ctrl_reachable_inv one_session_active by metis
  then show ?thesis
    using destroy_releases [of "{''a-b''}" "ct_backend one_session" "''a-b''" "\<lambda>_ _. KErr ''busy''"
        "fst (Destroy (\<lambda>_ _. KErr ''busy'') ''a-b'' (ct_backend one_session))"
        "snd (Destroy (\<lambda>_ _. KErr ''busy'') ''a-b'' (ct_backend one_session))"]
    by auto
qed

end
