(* ===== verification/OutboxSafety.thy ===== *)
theory OutboxSafety
  imports Outbox "HOL-Library.Sublist"
begin

text \<open>
  The guarantees of the spool and of its submitter: what a crash leaves of the file (\<open>take_spool\<close>,
  \<open>truncate_spool\<close>), that the bytes of acknowledged entries stay (\<open>bytes_inv\<close>), what one drain does (the relation \<open>drained\<close>), and how many turns the loop needs
  (\<open>run_turns_drained\<close>). The submitter as a goroutine between appends is in theory \<open>RunSteps\<close>. The last
  theorems show situations in which entries do not reach the log although the comments of the package promise it.
\<close>

lemma entry_line_length [simp]: "length (entry_line e) \<noteq> 0" "entry_line e \<noteq> []"
  by (simp_all add: entry_line_def)

lemma ReadFrom_spool:
  assumes "list_all valid_entry fs" and "newline \<notin> set tail"
    and "sp_data sp = spool_text es @ spool_text fs @ tail"
  shows "ReadFrom ReadsAll sp (int (length (spool_text es))) = (records_from (int (length (spool_text es))) fs, None)"
  using read_lines_spool [OF assms(1), of "int (length (spool_text es))" tail] assms(2,3)
  by (simp add: ReadFrom_def read_lines_tail)

lemma records_from_entries [simp]: "map fst (records_from off es) = es"
  by (induction off es rule: records_from.induct) auto

section \<open>Crashes\<close>

lemma prefix_of_line:
  assumes "n < length (entry_line e)"
  shows "newline \<notin> set (take n (entry_line e))"
proof -
  have "take n (entry_line e) = take n (json_encode (entry_json e))"
    using assms by (simp add: entry_line_def)
  with entry_line_one_line [of e] show ?thesis by (metis in_set_takeD)
qed

lemma take_spool:
  assumes "newline \<notin> set tail"
  shows "\<exists>j tail'. take n (spool_text es @ tail) = spool_text (take j es) @ tail' \<and> newline \<notin> set tail' \<and>
    (\<forall>k. length (spool_text (take k es)) \<le> n \<longrightarrow> take k (take j es) = take k es)"
proof (induction es arbitrary: n)
  case Nil
  show ?case using assms by (auto dest: in_set_takeD intro!: exI [of _ 0])
next
  case (Cons e es)
  show ?case
  proof (cases "n < length (entry_line e)")
    case True
    then have "take n (spool_text (e # es) @ tail) = spool_text (take 0 (e # es)) @ take n (entry_line e)"
      by simp
    moreover have "take k (take 0 (e # es)) = take k (e # es)"
      if "length (spool_text (take k (e # es))) \<le> n" for k
      using that True by (cases k) simp_all
    ultimately show ?thesis
      using prefix_of_line [OF True] by blast
  next
    case False
    obtain j tail' where j: "take (n - length (entry_line e)) (spool_text es @ tail) = spool_text (take j es) @ tail'"
      "newline \<notin> set tail'"
      "\<forall>k. length (spool_text (take k es)) \<le> n - length (entry_line e) \<longrightarrow> take k (take j es) = take k es"
      using Cons.IH by blast
    have "take n (spool_text (e # es) @ tail) = spool_text (take (Suc j) (e # es)) @ tail'"
      using False j(1) by simp
    moreover have "take k (take (Suc j) (e # es)) = take k (e # es)"
      if "length (spool_text (take k (e # es))) \<le> n" for k
      using that j(3) False by (cases k) (auto simp: le_diff_conv2)
    ultimately show ?thesis
      using j(2) by blast
  qed
qed

text \<open>Whatever the read does, it returns some of the first pending entries, if the file can be opened.\<close>

lemma ReadFrom_prefix:
  assumes "list_all valid_entry fs" and "newline \<notin> set tail"
    and "sp_data sp = spool_text es @ spool_text fs @ tail" and "ra \<noteq> OpenFails"
  shows "\<exists>j. (ra = ReadsAll \<longrightarrow> j = length fs) \<and>
    ReadFrom ra sp (int (length (spool_text es))) = (records_from (int (length (spool_text es))) (take j fs), None)"
proof (cases ra)
  case ReadsAll
  then show ?thesis using ReadFrom_spool [OF assms(1-3)] by auto
next
  case (ReadsOnly n)
  obtain j tail' where j: "take n (spool_text fs @ tail) = spool_text (take j fs) @ tail'" "newline \<notin> set tail'"
    using take_spool [OF assms(2)] by blast
  have "list_all valid_entry (take j fs)" using assms(1) by (auto simp: list_all_iff dest: in_set_takeD)
  from read_lines_spool [OF this, of "int (length (spool_text es))" tail'] j show ?thesis
    using ReadsOnly assms(3) by (auto simp: ReadFrom_def read_lines_tail)
qed (use assms(4) in simp)

lemma truncateTornTail_eq: "truncateTornTail raw = rev (dropWhile (\<lambda>c. c \<noteq> newline) (rev raw))"
  by (cases raw rule: rev_cases) (simp_all add: truncateTornTail_def)

lemma truncateTornTail_append:
  "truncateTornTail (a @ b) = (if newline \<in> set b then a @ truncateTornTail b else truncateTornTail a)"
  by (auto simp: truncateTornTail_eq dropWhile_append)

lemma truncateTornTail_none [simp]: "newline \<notin> set s \<Longrightarrow> truncateTornTail s = []"
  using truncateTornTail_append [of "[]" s] by (simp add: truncateTornTail_def)

lemma truncateTornTail_line [simp]: "truncateTornTail (l @ [newline]) = l @ [newline]"
  by (simp add: truncateTornTail_def)

lemma truncateTornTail_length: "length (truncateTornTail a) \<le> length a"
  by (metis length_dropWhile_le length_rev truncateTornTail_eq)

lemma truncateTornTail_mono: "length (truncateTornTail a) \<le> length (truncateTornTail (a @ b))"
  using truncateTornTail_length [of a] by (simp add: truncateTornTail_append)

lemma truncate_spool: "newline \<notin> set tail \<Longrightarrow> truncateTornTail (spool_text es @ tail) = spool_text es"
proof -
  assume tail: "newline \<notin> set tail"
  have last: "es \<noteq> [] \<Longrightarrow> \<exists>x. spool_text es = x @ [newline]"
    by (induction es rule: rev_induct) (auto simp: entry_line_def)
  show ?thesis
  proof (cases "tail = []")
    case True
    then show ?thesis using last by (cases "es = []") (auto simp: truncateTornTail_def)
  next
    case False
    have "dropWhile (\<lambda>c. c \<noteq> newline) (rev tail @ rev (spool_text es)) = rev (spool_text es)"
      using tail last by (cases "es = []") (auto simp: dropWhile_append3)
    moreover have "last tail \<noteq> newline" using False tail last_in_set by metis
    ultimately show ?thesis using False by (simp add: truncateTornTail_def)
  qed
qed

text \<open>The life of a spool: appends, and restarts after a crash of the machine. The list of
  acknowledged entries goes with it.\<close>

datatype spool_act =
    AppendOk Entry
  | AppendUnsynced Entry
  | AppendPartial Entry nat
  | Restart nat

definition open_ok :: OpenEnv where
  "open_ok = \<lparr>oe_mkdir = True, oe_read = True, oe_truncate = True, oe_open = True\<rparr>"

definition append_act :: "nat option \<Rightarrow> bool \<Rightarrow> Entry \<Rightarrow> Spool \<times> Entry list \<Rightarrow> Spool \<times> Entry list" where
  "append_act written sync_ok e st =
     (case Append written sync_ok (fst st) e of (ok, sp) \<Rightarrow> (sp, if ok then snd st @ [e] else snd st))"

fun act :: "spool_act \<Rightarrow> Spool \<times> Entry list \<Rightarrow> Spool \<times> Entry list" where
  "act (AppendOk e) st = append_act None True e st"
| "act (AppendUnsynced e) st = append_act None False e st"
| "act (AppendPartial e n) st = append_act (Some n) False e st"
| "act (Restart n) (sp, acked) = (snd (Open open_ok (crash n sp)), acked)"

text \<open>After a partial write nothing is appended before the next restart.\<close>

fun restarts_after_partial :: "bool \<Rightarrow> spool_act list \<Rightarrow> bool" where
  "restarts_after_partial torn [] \<longleftrightarrow> True"
| "restarts_after_partial torn (AppendOk e # as) \<longleftrightarrow> \<not> torn \<and> restarts_after_partial False as"
| "restarts_after_partial torn (AppendUnsynced e # as) \<longleftrightarrow> \<not> torn \<and> restarts_after_partial False as"
| "restarts_after_partial torn (AppendPartial e n # as) \<longleftrightarrow>
     \<not> torn \<and> n < length (entry_line e) \<and> restarts_after_partial True as"
| "restarts_after_partial torn (Restart n # as) \<longleftrightarrow> restarts_after_partial False as"

fun act_entries :: "spool_act \<Rightarrow> Entry list" where
  "act_entries (AppendOk e) = [e]"
| "act_entries (AppendUnsynced e) = [e]"
| "act_entries (AppendPartial e n) = [e]"
| "act_entries (Restart n) = []"

definition spool_inv :: "bool \<Rightarrow> Spool \<times> Entry list \<Rightarrow> bool" where
  "spool_inv torn st \<longleftrightarrow>
     (\<exists>es tail k. sp_data (fst st) = spool_text es @ tail \<and> newline \<notin> set tail \<and> (\<not> torn \<longrightarrow> tail = []) \<and>
        list_all valid_entry es \<and> sp_synced (fst st) = length (spool_text (take k es)) \<and> subseq (snd st) (take k es))"

lemma spool_inv_append:
  assumes "spool_inv False (sp, acked)" and "valid_entry e"
  shows "spool_inv False (act (AppendOk e) (sp, acked))" "spool_inv False (act (AppendUnsynced e) (sp, acked))"
    "n < length (entry_line e) \<Longrightarrow> spool_inv True (act (AppendPartial e n) (sp, acked))"
proof -
  obtain es k where es: "sp_data sp = spool_text es" "list_all valid_entry es"
    "sp_synced sp = length (spool_text (take k es))" "subseq acked (take k es)"
    using assms(1) by (auto simp: spool_inv_def)
  have len: "take (min k (length es)) (es @ [e]) = take k es" by (simp add: min_def)
  have "subseq acked es"
    using es(4) by (meson prefix_imp_subseq subseq_order.trans take_is_prefix)
  then have "subseq (acked @ [e]) (es @ [e])"
    by (intro list_emb_append_mono) simp_all
  then show "spool_inv False (act (AppendOk e) (sp, acked))"
    using es assms(2) unfolding spool_inv_def
    by (intro exI [of _ "es @ [e]"] exI [of _ "[]"] exI [of _ "length (es @ [e])"]) (simp add: Append_def append_act_def Let_def)
  show "spool_inv False (act (AppendUnsynced e) (sp, acked))"
    using es assms(2) len unfolding spool_inv_def
    by (intro exI [of _ "es @ [e]"] exI [of _ "[]"] exI [of _ "min k (length es)"]) (simp add: Append_def append_act_def Let_def)
  show "spool_inv True (act (AppendPartial e n) (sp, acked))" if "n < length (entry_line e)"
    using es prefix_of_line [OF that] unfolding spool_inv_def
    by (intro exI [of _ es] exI [of _ "take n (entry_line e)"] exI [of _ k]) (simp add: Append_def append_act_def)
qed

lemma spool_inv_restart:
  assumes "spool_inv torn (sp, acked)"
  shows "spool_inv False (act (Restart n) (sp, acked))"
proof -
  obtain es tail k where es: "sp_data sp = spool_text es @ tail" "newline \<notin> set tail" "list_all valid_entry es"
    "sp_synced sp = length (spool_text (take k es))" "subseq acked (take k es)"
    using assms by (auto simp: spool_inv_def)
  obtain j tail' where j: "take (max (sp_synced sp) n) (spool_text es @ tail) = spool_text (take j es) @ tail'"
    "newline \<notin> set tail'"
    "\<forall>k. length (spool_text (take k es)) \<le> max (sp_synced sp) n \<longrightarrow> take k (take j es) = take k es"
    using take_spool [OF es(2)] by blast
  have k: "take k (take j es) = take k es" using j(3) es(4) by simp
  have "snd (Open open_ok (crash n sp)) =
      sp\<lparr>sp_data := spool_text (take j es), sp_synced := length (spool_text (take j es))\<rparr>"
    using j(1,2) es(1) by (simp add: Open_def open_ok_def crash_def Let_def truncate_spool)
  moreover have "subseq acked (take j es)"
    using es(5) k by (metis prefix_imp_subseq subseq_order.trans take_is_prefix)
  moreover have "list_all valid_entry (take j es)"
    using es(3) by (auto simp: list_all_iff dest: in_set_takeD)
  ultimately show ?thesis
    unfolding spool_inv_def
    by (intro exI [of _ "take j es"] exI [of _ "[]"] exI [of _ j]) simp
qed

lemma spool_inv_act:
  assumes "restarts_after_partial torn (a # as)" and "list_all valid_entry (act_entries a)" and "spool_inv torn st"
  shows "\<exists>torn'. restarts_after_partial torn' as \<and> spool_inv torn' (act a st)"
proof -
  obtain sp acked where st: "st = (sp, acked)" by fastforce
  show ?thesis
  proof (cases a)
    case (AppendOk e)
    with assms spool_inv_append(1) [of sp acked e] show ?thesis
      unfolding st by (intro exI [of _ False]) (simp del: act.simps)
  next
    case (AppendUnsynced e)
    with assms spool_inv_append(2) [of sp acked e] show ?thesis
      unfolding st by (intro exI [of _ False]) (simp del: act.simps)
  next
    case (AppendPartial e n)
    with assms spool_inv_append(3) [of sp acked e n] show ?thesis
      unfolding st by (intro exI [of _ True]) (simp del: act.simps)
  next
    case (Restart n)
    with assms spool_inv_restart [of torn sp acked n] show ?thesis
      unfolding st by (intro exI [of _ False]) (simp del: act.simps)
  qed
qed

lemma spool_inv_run:
  assumes "restarts_after_partial torn as" and "\<forall>a\<in>set as. list_all valid_entry (act_entries a)"
    and "spool_inv torn st"
  shows "\<exists>torn'. spool_inv torn' (fold act as st)"
  using assms
proof (induction as arbitrary: torn st)
  case (Cons a as)
  then obtain torn' where "restarts_after_partial torn' as" "spool_inv torn' (act a st)"
    using spool_inv_act [of torn a as st] by auto
  with Cons.IH [of torn' "act a st"] Cons.prems(2) show ?case by simp
qed auto

text \<open>Without any restriction on the sequence: the lines of the acknowledged entries are parts of the durable bytes, one after the
  other, with anything between them.\<close>

fun spliced :: "string list \<Rightarrow> string \<Rightarrow> bool" where
  "spliced [] s \<longleftrightarrow> True"
| "spliced (l # ls) s \<longleftrightarrow> (\<exists>g t. s = g @ l @ t \<and> spliced ls t)"

lemma spliced_more: "spliced ls s \<Longrightarrow> spliced ls (s @ t)"
  by (induction ls arbitrary: s) (simp, metis append.assoc spliced.simps(2))

lemma spliced_snoc: "spliced ls s \<Longrightarrow> spliced (ls @ [l]) (s @ l)"
proof (induction ls arbitrary: s)
  case Nil
  show ?case by (auto intro: exI [of _ "[]"])
next
  case (Cons l' ls)
  then obtain g t where "s = g @ l' @ t" "spliced (ls @ [l]) (t @ l)" by auto
  then show ?case by (simp, intro exI [of _ g] exI [of _ "t @ l"]) simp
qed

lemma spliced_truncate:
  assumes "\<forall>l\<in>set ls. \<exists>x. l = x @ [newline]" and "spliced ls s"
  shows "spliced ls (truncateTornTail s)"
  using assms
proof (induction ls arbitrary: s)
  case (Cons l ls)
  then obtain g t x where s: "s = g @ l @ t" "spliced ls t" "l = x @ [newline]" by auto
  have "truncateTornTail s = g @ l @ truncateTornTail t"
    using truncateTornTail_append [of "g @ l" t] truncateTornTail_line [of "g @ x"] s(1,3) by auto
  with Cons.IH [OF _ s(2)] Cons.prems(1) show ?case by auto
qed simp

definition bytes_inv :: "Spool \<times> Entry list \<Rightarrow> bool" where
  "bytes_inv st \<longleftrightarrow> sp_synced (fst st) \<le> length (sp_data (fst st)) \<and>
     spliced (map entry_line (snd st)) (take (sp_synced (fst st)) (sp_data (fst st)))"

lemma bytes_inv_restart:
  assumes "bytes_inv (sp, acked)"
  shows "bytes_inv (act (Restart n) (sp, acked))"
proof -
  let ?data = "take (max (sp_synced sp) n) (sp_data sp)"
  have "spliced (map entry_line acked) ?data"
    using assms spliced_more [of _ "take (sp_synced sp) (sp_data sp)" "take (max (sp_synced sp) n - sp_synced sp) (drop (sp_synced sp) (sp_data sp))"]
    by (simp add: bytes_inv_def take_add [symmetric])
  moreover have "\<forall>l\<in>set (map entry_line acked). \<exists>x. l = x @ [newline]" by (simp add: entry_line_def)
  ultimately have "spliced (map entry_line acked) (truncateTornTail ?data)" by (intro spliced_truncate)
  then show ?thesis
    using truncateTornTail_length [of ?data]
    by (simp add: bytes_inv_def Open_def open_ok_def crash_def Let_def min_absorb2)
qed

lemma bytes_inv_act: "bytes_inv st \<Longrightarrow> bytes_inv (act a st)"
proof -
  assume inv: "bytes_inv st"
  obtain sp acked where st: "st = (sp, acked)" by fastforce
  have more: "spliced (map entry_line acked) (sp_data sp)"
    using inv spliced_more [of _ "take (sp_synced sp) (sp_data sp)" "drop (sp_synced sp) (sp_data sp)"] st by (simp add: bytes_inv_def)
  show ?thesis
  proof (cases a)
    case (AppendOk e)
    then show ?thesis
      using spliced_snoc [OF more, of "entry_line e"] st by (simp add: bytes_inv_def append_act_def Append_def Let_def)
  next
    case (Restart n)
    then show ?thesis using bytes_inv_restart inv st by simp
  qed (use inv st in \<open>simp_all add: bytes_inv_def append_act_def Append_def Let_def\<close>)
qed

lemma bytes_inv_run: "bytes_inv st \<Longrightarrow> bytes_inv (fold act as st)"
  by (induction as arbitrary: st) (simp_all add: bytes_inv_act)

section \<open>Draining\<close>

text \<open>The submission of an entry, if it can be rendered.\<close>

definition submission_of :: "Crypto \<Rightarrow> Entry \<Rightarrow> submission option" where
  "submission_of cr e =
     (case (ReducedPayload cr e, RawURL_DecodeString (en_SecondSig e)) of
        (Inr reduced, Inr sig) \<Rightarrow> Some (reduced, sig, en_PublicKeyPEM e)
      | _ \<Rightarrow> None)"

definition accepted :: "Crypto \<Rightarrow> Entry list \<Rightarrow> history" where
  "accepted cr es = map (\<lambda>e. (the (submission_of cr e), True)) es"

text \<open>One turn accepted the entries \<open>ds\<close>, in order, after which it stopped: the last part of the history is a
  refusal of the next entry, if there was one.\<close>

inductive drained ::
  "Crypto \<Rightarrow> Entry list \<Rightarrow> int \<Rightarrow> Spool \<times> history \<Rightarrow> (int \<times> bool) \<times> Spool \<times> history \<Rightarrow> Entry list \<Rightarrow> bool"
  for cr :: Crypto where
  all_done: "drained cr [] off st ((off, True), st) []"
| unrenderable: "submission_of cr e = None \<Longrightarrow> drained cr (e # es) off st ((off, False), st) []"
| refused: "submission_of cr e = Some s \<Longrightarrow> drained cr (e # es) off (sp, h) ((off, False), sp, h @ [(s, False)]) []"
| no_checkpoint: "submission_of cr e = Some s \<Longrightarrow>
    drained cr (e # es) off (sp, h)
      ((off + int (length (entry_line e)), False), sp, h @ [(s, True)]) [e]"
| accept: "submission_of cr e = Some s \<Longrightarrow> off' = off + int (length (entry_line e)) \<Longrightarrow>
    drained cr es off' (sp\<lparr>sp_ckpt := Some (strconv_FormatInt off')\<rparr>, h @ [(s, True)]) r ds \<Longrightarrow>
    drained cr (e # es) off (sp, h) r (e # ds)"

text \<open>One turn of the loop of \<^verbatim>\<open>drainOnce\<close>, on a record and on the next entry of a list.\<close>

lemma drain_loop_unrenderable:
  "submission_of cr e = None \<Longrightarrow> drain_loop cr w ((e, next_off) # recs) off (sp, h) = ((off, False), sp, h)"
  by (auto simp: submission_of_def split: sum.splits)

lemma drain_loop_record:
  assumes "submission_of cr e = Some s" and "h' = h @ [(s, True)]"
  shows "drain_loop cr w ((e, next_off) # recs) off (sp, h) =
    (if \<not> w_log w h s then ((off, False), sp, h @ [(s, False)])
     else if \<not> w_fs w h' next_off then ((next_off, False), sp, h')
     else drain_loop cr w recs next_off (sp\<lparr>sp_ckpt := Some (strconv_FormatInt next_off)\<rparr>, h'))"
proof -
  obtain reduced sig where "ReducedPayload cr e = Inr reduced" "RawURL_DecodeString (en_SecondSig e) = Inr sig"
    "s = (reduced, sig, en_PublicKeyPEM e)"
    using assms(1) by (auto simp: submission_of_def split: sum.splits)
  with assms(2) show ?thesis by (simp add: SetCheckpoint_def Let_def)
qed

lemma drain_loop_Cons:
  assumes "submission_of cr e = Some s" and "off' = off + int (length (entry_line e))" and "h' = h @ [(s, True)]"
  shows "drain_loop cr w (records_from off (e # es)) off (sp, h) =
    (if \<not> w_log w h s then ((off, False), sp, h @ [(s, False)])
     else if \<not> w_fs w h' off' then ((off', False), sp, h')
     else drain_loop cr w (records_from off' es) off' (sp\<lparr>sp_ckpt := Some (strconv_FormatInt off')\<rparr>, h'))"
  using drain_loop_record [OF assms(1,3)] by (simp add: assms(2))

lemma drain_loop_drained: "\<exists>ds. drained cr es off st (drain_loop cr w (records_from off es) off st) ds"
proof (induction es arbitrary: off st)
  case Nil
  show ?case using all_done by fastforce
next
  case (Cons e es)
  obtain sp h where st: "st = (sp, h)" by fastforce
  show ?case
  proof (cases "submission_of cr e")
    case None
    then have "drain_loop cr w (records_from off (e # es)) off st = ((off, False), st)"
      unfolding st by (simp add: drain_loop_unrenderable del: drain_loop.simps)
    with unrenderable [OF None] show ?thesis by fastforce
  next
    case (Some s)
    define off' where "off' = off + int (length (entry_line e))"
    define h' where "h' = h @ [(s, True)]"
    note loop = drain_loop_Cons [OF Some off'_def h'_def, of w es sp]
    obtain ds where "drained cr es off' (sp\<lparr>sp_ckpt := Some (strconv_FormatInt off')\<rparr>, h')
        (drain_loop cr w (records_from off' es) off' (sp\<lparr>sp_ckpt := Some (strconv_FormatInt off')\<rparr>, h')) ds"
      using Cons.IH by blast
    from accept [OF Some off'_def this [unfolded h'_def]] show ?thesis
      using loop refused [OF Some, of es off sp h] no_checkpoint [OF Some, of es off sp h]
      unfolding st by (auto simp: off'_def h'_def simp del: drain_loop.simps records_from.simps)
  qed
qed

text \<open>If nothing fails, the loop has every entry accepted.\<close>

lemma drain_loop_all:
  assumes "\<forall>h s. w_log w h s" and "\<forall>h n. w_fs w h n" and "\<forall>e\<in>set es. submission_of cr e \<noteq> None"
  shows "\<exists>sp'. drain_loop cr w (records_from off es) off (sp, h) =
    ((off + int (length (spool_text es)), True), sp', h @ accepted cr es)"
  using assms(3)
proof (induction es arbitrary: off sp h)
  case (Cons e es)
  then obtain s where s: "submission_of cr e = Some s" by auto
  let ?off = "off + int (length (entry_line e))"
  obtain sp' where "drain_loop cr w (records_from ?off es) ?off
      (sp\<lparr>sp_ckpt := Some (strconv_FormatInt ?off)\<rparr>, h @ [(s, True)]) =
      ((?off + int (length (spool_text es)), True), sp', (h @ [(s, True)]) @ accepted cr es)"
    using Cons.IH Cons.prems by (metis list.set_intros(2))
  then show ?case
    unfolding drain_loop_Cons [OF s refl refl] using assms(1,2) s by (simp add: accepted_def del: split_paired_All)
qed (simp add: accepted_def)

text \<open>The checkpoint after the entries \<open>ds\<close> were accepted from offset \<open>off\<close> on: it covers all of them, or all but the
  last.\<close>

definition ckpt_after :: "int \<Rightarrow> string option \<Rightarrow> Entry list \<Rightarrow> string option \<Rightarrow> bool" where
  "ckpt_after off old ds new \<longleftrightarrow>
     (\<exists>m. (m = ds \<or> m = butlast ds) \<and>
        new = (if m = [] then old else Some (strconv_FormatInt (off + int (length (spool_text m))))))"

lemma ckpt_after_Cons:
  assumes "ckpt_after (off + int (length (entry_line e))) (Some (strconv_FormatInt (off + int (length (entry_line e))))) ds new"
  shows "ckpt_after off old (e # ds) new"
proof -
  obtain m where m: "m = ds \<or> m = butlast ds"
    "new = (if m = [] then Some (strconv_FormatInt (off + int (length (entry_line e))))
            else Some (strconv_FormatInt (off + int (length (entry_line e)) + int (length (spool_text m)))))"
    using assms by (auto simp: ckpt_after_def)
  then have "new = Some (strconv_FormatInt (off + int (length (spool_text (e # m)))))"
    by (auto simp: algebra_simps)
  moreover have "e # m = e # ds \<or> e # m = butlast (e # ds) \<or> ds = [] \<and> m = []"
    using m(1) by auto
  ultimately show ?thesis
    unfolding ckpt_after_def by (intro exI [of _ "e # m"]) auto
qed

lemma drained_facts:
  assumes "drained cr es off st r ds"
  shows "\<exists>rest. es = ds @ rest \<and> fst (fst r) = off + int (length (spool_text ds)) \<and>
    sp_data (fst (snd r)) = sp_data (fst st) \<and> sp_synced (fst (snd r)) = sp_synced (fst st) \<and>
    ckpt_after off (sp_ckpt (fst st)) ds (sp_ckpt (fst (snd r))) \<and>
    list_all (\<lambda>e. submission_of cr e \<noteq> None) ds \<and>
    (snd (snd r) = snd st @ accepted cr ds \<or>
     rest \<noteq> [] \<and> snd (snd r) = snd st @ accepted cr ds @ [(the (submission_of cr (hd rest)), False)]) \<and>
    (snd (fst r) \<longrightarrow> rest = [])"
  using assms
proof (induction rule: drained.induct)
  case (accept e s off' off es sp h r ds)
  then obtain rest where rest: "es = ds @ rest" "fst (fst r) = off' + int (length (spool_text ds))"
    "sp_data (fst (snd r)) = sp_data sp" "sp_synced (fst (snd r)) = sp_synced sp"
    "ckpt_after off' (Some (strconv_FormatInt off')) ds (sp_ckpt (fst (snd r)))"
    "list_all (\<lambda>e. submission_of cr e \<noteq> None) ds"
    "snd (snd r) = (h @ [(s, True)]) @ accepted cr ds \<or>
     rest \<noteq> [] \<and> snd (snd r) = (h @ [(s, True)]) @ accepted cr ds @ [(the (submission_of cr (hd rest)), False)]"
    "snd (fst r) \<longrightarrow> rest = []"
    by auto
  with accept(1,2) ckpt_after_Cons [of off e ds] show ?case
    by (cases s, intro exI [of _ rest]) (auto simp: accepted_def)
qed (auto simp: ckpt_after_def accepted_def)

section \<open>Checkpoints\<close>

lemma go_spaces_not_digit: "list_all (\<lambda>p. p \<noteq> [] \<and> dec_val (hd p) = None \<and> dec_val (last p) = None) go_spaces"
  by code_simp

lemma trim_left_digit:
  assumes "list_all (\<lambda>p. p \<noteq> [] \<and> dec_val (hd p) = None) ps" and "s \<noteq> []" and "dec_val (hd s) \<noteq> None"
  shows "trim_left ps s = s"
proof -
  have "\<not> is_prefix p s" if "p \<in> set ps" for p
  proof
    assume "is_prefix p s"
    moreover have "p \<noteq> []" "dec_val (hd p) = None" using assms(1) that by (auto simp: list_all_iff)
    ultimately have "hd p = hd s"
      using assms(2) by (metis hd_take is_prefix_def length_greater_0_conv)
    with \<open>dec_val (hd p) = None\<close> assms(3) show False by simp
  qed
  then have "find (\<lambda>p. p \<noteq> [] \<and> is_prefix p s) ps = None"
    by (auto simp: find_None_iff)
  then show ?thesis by (simp add: trim_left.simps [of ps s])
qed

lemma format_dec_all_digits: "c \<in> set (format_dec n) \<Longrightarrow> dec_val c \<noteq> None"
  using format_dec_digits [of c n] dec_val_digit_char by fastforce

lemma TrimSpace_format_dec: "strings_TrimSpace (format_dec n) = format_dec n"
proof -
  have ends: "dec_val (hd (format_dec n)) \<noteq> None" "dec_val (hd (rev (format_dec n))) \<noteq> None"
    using format_dec_all_digits [of "hd (format_dec n)" n] format_dec_all_digits [of "last (format_dec n)" n]
    by (simp_all add: hd_rev)
  have "trim_left go_spaces (format_dec n) = format_dec n"
    using go_spaces_not_digit by (intro trim_left_digit [OF _ _ ends(1)]) (auto simp: list_all_iff)
  moreover have "trim_left (map rev go_spaces) (rev (format_dec n)) = rev (format_dec n)"
    using go_spaces_not_digit by (intro trim_left_digit [OF _ _ ends(2)]) (auto simp: list_all_iff hd_rev)
  ultimately show ?thesis by (simp add: strings_TrimSpace_def)
qed

text \<open>The text of an offset and its parser belong together for all integers of 64 bits.\<close>

definition is_int64 :: "int \<Rightarrow> bool" where
  "is_int64 n \<longleftrightarrow> - (2 ^ 63) \<le> n \<and> n < 2 ^ 63"

lemma ParseInt_FormatInt:
  assumes "is_int64 n"
  shows "strconv_ParseInt (strconv_FormatInt n) = Inr n"
proof (cases "n < 0")
  case True
  have "nat (- n) < 2 ^ 64" using assms True by (simp add: is_int64_def nat_less_iff)
  then have "strconv_ParseUint (format_dec (nat (- n))) 64 = Inr (nat (- n))"
    by (rule strconv_ParseUint_format_dec)
  with True assms show ?thesis
    by (simp add: strconv_ParseInt_def strconv_FormatInt_def is_int64_def)
next
  case False
  obtain c r where s: "format_dec (nat n) = c # r" by (cases "format_dec (nat n)") auto
  have "dec_val c \<noteq> None" using format_dec_all_digits [of c "nat n"] s by simp
  then have "c \<noteq> CHR ''+''" "c \<noteq> CHR ''-''" by (auto simp: dec_val_def)
  moreover have "strconv_ParseUint (format_dec (nat n)) 64 = Inr (nat n)"
    using assms False by (intro strconv_ParseUint_format_dec) (simp add: is_int64_def nat_less_iff)
  ultimately show ?thesis
    using False assms by (simp add: strconv_ParseInt_def strconv_FormatInt_def is_int64_def s)
qed

lemma ParseInt_range: "strconv_ParseInt s = Inr n \<Longrightarrow> is_int64 n"
  by (auto simp: strconv_ParseInt_def is_int64_def rbind_Inr_iff Let_def split: list.splits if_splits)

interpretation int64: printed_form strconv_FormatInt strconv_ParseInt is_int64
  by unfold_locales (rule ParseInt_FormatInt, assumption, rule ParseInt_range)

lemma Checkpoint_format:
  assumes "n < 2 ^ 63" and "sp_ckpt sp = Some (strconv_FormatInt (int n))"
  shows "Checkpoint True sp = Inr (int n)"
proof -
  have "strconv_ParseInt (strconv_FormatInt (int n)) = Inr (int n)"
    using assms(1) by (intro int64.parse_print) (simp add: is_int64_def)
  moreover have "strings_TrimSpace (strconv_FormatInt (int n)) = strconv_FormatInt (int n)"
    by (simp add: strconv_FormatInt_def TrimSpace_format_dec)
  ultimately show ?thesis using assms(2) by (simp add: Checkpoint_def)
qed

section \<open>Accepted entries\<close>

definition all_accepted :: "Crypto \<Rightarrow> Entry list \<Rightarrow> history \<Rightarrow> bool" where
  "all_accepted cr es h \<longleftrightarrow> (\<forall>e\<in>set es. \<exists>s. submission_of cr e = Some s \<and> (s, True) \<in> set h)"

lemma all_accepted_append [simp]: "all_accepted cr (es @ fs) h \<longleftrightarrow> all_accepted cr es h \<and> all_accepted cr fs h"
  by (auto simp: all_accepted_def)

lemma all_accepted_Nil [simp]: "all_accepted cr [] h"
  by (simp add: all_accepted_def)

lemma all_accepted_subset: "all_accepted cr es h \<Longrightarrow> set h \<subseteq> set h' \<Longrightarrow> all_accepted cr es h'"
  unfolding all_accepted_def by blast

lemma all_accepted_mono: "all_accepted cr es h \<Longrightarrow> all_accepted cr es (h @ h')"
  by (erule all_accepted_subset) simp

lemma Checkpoint_cong: "sp_ckpt sp = sp_ckpt sp' \<Longrightarrow> Checkpoint b sp = Checkpoint b sp'"
  by (simp add: Checkpoint_def)

section \<open>Catching up\<close>

text \<open>The loop of \<^verbatim>\<open>Run\<close> for a number of turns, and the refusals in a history.\<close>

primrec run_turns ::
  "Crypto \<Rightarrow> World \<Rightarrow> nat \<Rightarrow> (int \<times> nat \<times> bool) \<times> Spool \<times> history \<Rightarrow> (int \<times> nat \<times> bool) \<times> Spool \<times> history" where
  "run_turns cr w 0 x = x"
| "run_turns cr w (Suc n) x =
     run_turns cr w n (case x of ((off, backoff, _), st) \<Rightarrow> run_turn cr w (off, backoff) st)"

definition refusals :: "history \<Rightarrow> nat" where
  "refusals h = length (filter (\<lambda>a. \<not> snd a) h)"

lemma refusals_simps [simp]: "refusals [] = 0" "refusals (h @ h') = refusals h + refusals h'"
  "refusals [(s, ok)] = (if ok then 0 else 1)"
  by (simp_all add: refusals_def)

text \<open>A drain that fails has used up one of the log's refusals or has submitted an entry.\<close>

lemma drain_loop_progress:
  assumes "\<forall>h s. k \<le> refusals h \<longrightarrow> w_log w h s" and "\<forall>e\<in>set gs. submission_of cr e \<noteq> None"
    and "drain_loop cr w (records_from off gs) off (sp, h) = ((off', ok), sp', h')"
  shows "\<exists>ds rest. gs = ds @ rest \<and> off' = off + int (length (spool_text ds)) \<and> sp_data sp' = sp_data sp \<and>
    all_accepted cr ds h' \<and> set h \<subseteq> set h' \<and>
    (if ok then rest = [] else k - refusals h' + length rest < k - refusals h + length gs) \<and>
    ((\<forall>h n. w_fs w h n) \<longrightarrow> sp_ckpt sp' = (if ds = [] then sp_ckpt sp else Some (strconv_FormatInt off')))"
  using assms(2,3)
proof (induction gs arbitrary: off sp h)
  case (Cons e gs)
  let ?off = "off + int (length (entry_line e))"
  obtain s where s: "submission_of cr e = Some s" using Cons.prems(1) by auto
  let ?h = "h @ [(s, True)]"
  note loop = Cons.prems(2) [unfolded drain_loop_Cons [OF s refl refl]]
  consider "\<not> w_log w h s" | "w_log w h s" "\<not> w_fs w ?h ?off" | "w_log w h s" "w_fs w ?h ?off" by blast
  then show ?case
  proof cases
    case 1
    then have "refusals h < k" using assms(1) by (meson not_le)
    with 1 loop show ?thesis by (intro exI [of _ "[]"] exI [of _ "e # gs"]) auto
  next
    case 2
    with s loop show ?thesis by (intro exI [of _ "[e]"] exI [of _ gs]) (auto simp: all_accepted_def)
  next
    case 3
    let ?sp = "sp\<lparr>sp_ckpt := Some (strconv_FormatInt ?off)\<rparr>"
    have "drain_loop cr w (records_from ?off gs) ?off (?sp, ?h) = ((off', ok), sp', h')" using 3 loop by simp
    from Cons.IH [OF _ this] Cons.prems(1) obtain ds rest where d: "gs = ds @ rest"
      "off' = ?off + int (length (spool_text ds))" "sp_data sp' = sp_data sp" "all_accepted cr ds h'"
      "set ?h \<subseteq> set h'"
      "if ok then rest = [] else k - refusals h' + length rest < k - refusals ?h + length gs"
      "(\<forall>h n. w_fs w h n) \<longrightarrow> sp_ckpt sp' = (if ds = [] then sp_ckpt ?sp else Some (strconv_FormatInt off'))"
      by auto
    from d s show ?thesis
      by (intro exI [of _ "e # ds"] exI [of _ rest]) (auto simp: all_accepted_def simp del: split_paired_Ex split: if_splits)
  qed
qed (auto intro: exI [of _ "[]"])

lemma run_turns_drained:
  assumes "\<forall>h s. k \<le> refusals h \<longrightarrow> w_log w h s" and "\<forall>h. w_read w h = ReadsAll" and "newline \<notin> set tail"
    and "list_all valid_entry fs" and "\<forall>e\<in>set fs. submission_of cr e \<noteq> None"
    and "sp_data sp = spool_text es @ spool_text fs @ tail"
  shows "\<exists>n\<le>Suc (k - refusals h + length fs). \<exists>sp' h'.
    run_turns cr w n ((int (length (spool_text es)), backoff, sleeps), sp, h) =
      ((int (length (spool_text (es @ fs))), backoffMin, False), sp', h') \<and>
    sp_data sp' = sp_data sp \<and> set h \<subseteq> set h' \<and> all_accepted cr fs h' \<and>
    ((\<forall>h n. w_fs w h n) \<longrightarrow>
      sp_ckpt sp' = (if fs = [] then sp_ckpt sp else Some (strconv_FormatInt (int (length (spool_text (es @ fs)))))))"
  using assms(4-6)
proof (induction "k - refusals h + length fs" arbitrary: es fs sp h backoff sleeps rule: less_induct)
  case less
  let ?off = "int (length (spool_text es))"
  obtain off' ok sp' h' where drain: "drainOnce cr w ?off (sp, h) = ((off', ok), sp', h')" by (metis prod.collapse)
  then have "drain_loop cr w (records_from ?off fs) ?off (sp, h) = ((off', ok), sp', h')"
    using ReadFrom_spool [OF less.prems(1) assms(3) less.prems(3)] assms(2) by (simp add: drainOnce_def)
  from drain_loop_progress [OF assms(1) less.prems(2) this] obtain ds rest where d: "fs = ds @ rest"
    "off' = int (length (spool_text (es @ ds)))" "sp_data sp' = sp_data sp" "all_accepted cr ds h'" "set h \<subseteq> set h'"
    "if ok then rest = [] else k - refusals h' + length rest < k - refusals h + length fs"
    "(\<forall>h n. w_fs w h n) \<longrightarrow> sp_ckpt sp' = (if ds = [] then sp_ckpt sp else Some (strconv_FormatInt off'))"
    by auto
  show ?case
  proof (cases ok)
    case True
    with d drain show ?thesis by (intro exI [of _ 1]) (simp add: run_turn_def)
  next
    case False
    let ?b = "min (backoff * 2) backoffMax"
    have less_left: "k - refusals h' + length rest < k - refusals h + length fs" using d(6) False by simp
    have "list_all valid_entry rest" "\<forall>e\<in>set rest. submission_of cr e \<noteq> None"
      "sp_data sp' = spool_text (es @ ds) @ spool_text rest @ tail"
      using less.prems d(1,3) by auto
    from less.hyps [OF less_left this, of ?b True] obtain n sp2 h2 where
      n: "n \<le> Suc (k - refusals h' + length rest)"
        "run_turns cr w n ((off', ?b, True), sp', h') =
          ((int (length (spool_text ((es @ ds) @ rest))), backoffMin, False), sp2, h2)"
        "sp_data sp2 = sp_data sp'" "set h' \<subseteq> set h2" "all_accepted cr rest h2"
        "(\<forall>h n. w_fs w h n) \<longrightarrow>
          sp_ckpt sp2 = (if rest = [] then sp_ckpt sp' else Some (strconv_FormatInt (int (length (spool_text ((es @ ds) @ rest))))))"
      unfolding d(2) by blast
    have "all_accepted cr fs h2" using d(1) n(5) all_accepted_subset [OF d(4) n(4)] by simp
    moreover have "run_turns cr w (Suc n) ((?off, backoff, sleeps), sp, h) =
        ((int (length (spool_text (es @ fs))), backoffMin, False), sp2, h2)"
      using n(2) drain False d(1) by (simp add: run_turn_def)
    moreover have "Suc n \<le> Suc (k - refusals h + length fs)"
      using n(1) less_left by linarith
    moreover have "set h \<subseteq> set h2" "sp_data sp2 = sp_data sp" using d(3,5) n(3,4) by auto
    moreover have "(\<forall>h n. w_fs w h n) \<longrightarrow>
        sp_ckpt sp2 = (if fs = [] then sp_ckpt sp else Some (strconv_FormatInt (int (length (spool_text (es @ fs))))))"
      using d(1,2,7) n(6) by auto
    ultimately show ?thesis by (intro exI [of _ "Suc n"] conjI exI [of _ sp2] exI [of _ h2])
  qed
qed

section \<open>Properties\<close>

text \<open>C26: The spool is read back as it was written: from the offset after any number of entries, reading gives
  exactly the remaining entries, each with the offset after its line, and stops without an error at a torn
  last line.\<close>

theorem spool_roundtrip:
  assumes "list_all valid_entry (es @ fs)" and "newline \<notin> set tail"
    and "sp_data sp = spool_text es @ spool_text fs @ tail"
  shows "\<exists>recs. ReadFrom ReadsAll sp (int (length (spool_text es))) = (recs, None) \<and> map fst recs = fs \<and>
    (\<forall>i<length fs. snd (recs ! i) = int (length (spool_text (es @ take (Suc i) fs))))"
proof -
  have "map fst (records_from off gs) = gs \<and>
      (\<forall>i<length gs. snd (records_from off gs ! i) = off + int (length (spool_text (take (Suc i) gs))))" for off gs
    by (induction off gs rule: records_from.induct) (auto simp: less_Suc_eq_0_disj)
  with ReadFrom_spool [of fs tail sp es] assms show ?thesis by simp
qed

definition example_entry :: Entry where
  "example_entry =
     \<lparr>en_Event = example_event, en_SecondSig = ''AAAA'', en_PublicKeyPEM = ''pem'', en_PayloadSHA256 = ''00''\<rparr>"

lemma example_entry_valid: "valid_entry example_entry"
  using example_valid(1) by (simp add: valid_entry_def example_entry_def valid_utf8_def utf8_sanitize_ascii)

theorem spool_roundtrip_witness:
  "\<exists>recs. ReadFrom ReadsAll \<lparr>sp_data = entry_line example_entry @ ''{'', sp_synced = 0, sp_ckpt = None\<rparr> 0 = (recs, None) \<and>
     map fst recs = [example_entry]"
  using spool_roundtrip [of "[]" "[example_entry]" "''{''"
      "\<lparr>sp_data = entry_line example_entry @ ''{'', sp_synced = 0, sp_ckpt = None\<rparr>"] example_entry_valid
  by auto

text \<open>C7: No acknowledged entry is lost from the disk: over any sequence of appends (complete, without sync, or cut off after any
  number of bytes) and machine crashes with a restart, the lines of all acknowledged entries are in the durable part of
  the spool, in the order of the acknowledgements. They are also read back as entries, in that order and with no corrupt line,
  if nothing is appended between a cut-off write and the next restart and the strings of the entries are valid.\<close>

theorem acknowledged_entries_survive:
  assumes "fold act as (\<lparr>sp_data = [], sp_synced = 0, sp_ckpt = None\<rparr>, []) = (sp, acked)"
  shows "spliced (map entry_line acked) (take (sp_synced sp) (sp_data sp)) \<and>
    (restarts_after_partial False as \<longrightarrow> (\<forall>a\<in>set as. list_all valid_entry (act_entries a)) \<longrightarrow>
      (\<exists>recs. ReadFrom ReadsAll sp 0 = (recs, None) \<and> subseq acked (map fst recs)))"
proof (intro conjI impI)
  have "bytes_inv (\<lparr>sp_data = [], sp_synced = 0, sp_ckpt = None\<rparr>, [])" by (simp add: bytes_inv_def)
  from bytes_inv_run [OF this, of as] show "spliced (map entry_line acked) (take (sp_synced sp) (sp_data sp))"
    unfolding assms by (simp add: bytes_inv_def)
next
  assume r: "restarts_after_partial False as" "\<forall>a\<in>set as. list_all valid_entry (act_entries a)"
  have "spool_inv False (\<lparr>sp_data = [], sp_synced = 0, sp_ckpt = None\<rparr>, [])"
    unfolding spool_inv_def by (intro exI [of _ "[]"] exI [of _ 0]) simp
  from spool_inv_run [OF r this] obtain es tail k where es: "sp_data sp = spool_text es @ tail"
    "newline \<notin> set tail" "list_all valid_entry es" "subseq acked (take k es)"
    unfolding assms by (auto simp: spool_inv_def)
  have "subseq acked es"
    using es(4) by (meson prefix_imp_subseq subseq_order.trans take_is_prefix)
  then show "\<exists>recs. ReadFrom ReadsAll sp 0 = (recs, None) \<and> subseq acked (map fst recs)"
    using ReadFrom_spool [of es tail sp "[]"] es by simp
qed

text \<open>An append, a cut-off write, a crash that loses all that is not durable, and another append; and an append
  right behind a cut-off write, of which only the bytes are certain.\<close>

theorem acknowledged_entries_survive_witness:
  "(\<exists>recs. ReadFrom ReadsAll (fst (fold act [AppendOk example_entry, AppendPartial example_entry 3, Restart 0, AppendOk example_entry]
     (\<lparr>sp_data = [], sp_synced = 0, sp_ckpt = None\<rparr>, []))) 0 = (recs, None) \<and>
     subseq [example_entry, example_entry] (map fst recs)) \<and>
   (let sp = fst (fold act [AppendPartial example_entry 3, AppendOk example_entry]
      (\<lparr>sp_data = [], sp_synced = 0, sp_ckpt = None\<rparr>, [])) in
    spliced [entry_line example_entry] (take (sp_synced sp) (sp_data sp)))"
proof -
  let ?as = "[AppendOk example_entry, AppendPartial example_entry 3, Restart 0, AppendOk example_entry]"
  let ?bs = "[AppendPartial example_entry 3, AppendOk example_entry]"
  let ?st = "\<lambda>as. fold act as (\<lparr>sp_data = [], sp_synced = 0, sp_ckpt = None\<rparr>, [])"
  have acked: "snd (act (Restart n) st) = snd st" "snd (act (AppendOk e) st) = snd st @ [e]" "snd (act (AppendPartial e n) st) = snd st"
    for n e st by (cases st; simp add: append_act_def Append_def Let_def)+
  have as: "?st ?as = (fst (?st ?as), [example_entry, example_entry])" and bs: "?st ?bs = (fst (?st ?bs), [example_entry])"
    by (simp_all add: prod_eq_iff acked del: act.simps)
  have "restarts_after_partial False ?as" "\<forall>a\<in>set ?as. list_all valid_entry (act_entries a)"
    using example_entry_valid by (simp_all add: entry_line_def entry_json_def event_json_def)
  then have "\<exists>recs. ReadFrom ReadsAll (fst (?st ?as)) 0 = (recs, None) \<and> subseq [example_entry, example_entry] (map fst recs)"
    using acknowledged_entries_survive [OF as] by blast
  then show ?thesis using acknowledged_entries_survive [OF bs] unfolding Let_def by simp
qed

text \<open>C24: One drain from the end of a line submits the pending entries in their order: those accepted
  are the first ones, each submitted once, the new offset is after them, and the stored checkpoint covers them or all
  but the last. If the file was read to its end, success means that none is left. If the log accepts everything, the spool
  can be read, every checkpoint can be written and every entry can be rendered, all
  pending entries are accepted and the drain reports success.\<close>

theorem drain_in_order:
  assumes "list_all valid_entry (es @ fs)" and "newline \<notin> set tail"
    and "sp_data sp = spool_text es @ spool_text fs @ tail"
    and "drainOnce cr w (int (length (spool_text es))) (sp, h) = ((off, ok), sp', h')"
  shows "(\<exists>ds rest. fs = ds @ rest \<and> off = int (length (spool_text (es @ ds))) \<and> sp_data sp' = sp_data sp \<and>
      ckpt_after (int (length (spool_text es))) (sp_ckpt sp) ds (sp_ckpt sp') \<and>
      (h' = h @ accepted cr ds \<or>
       rest \<noteq> [] \<and> h' = h @ accepted cr ds @ [(the (submission_of cr (hd rest)), False)]) \<and>
      (ok \<longrightarrow> w_read w h = ReadsAll \<longrightarrow> rest = [])) \<and>
    ((\<forall>h s. w_log w h s) \<longrightarrow> (\<forall>h n. w_fs w h n) \<longrightarrow> w_read w h = ReadsAll \<longrightarrow> (\<forall>e\<in>set fs. submission_of cr e \<noteq> None) \<longrightarrow>
      ok \<and> h' = h @ accepted cr fs \<and> off = int (length (spool_text (es @ fs))))"
proof -
  let ?off = "int (length (spool_text es))"
  let ?loop = "\<lambda>gs. drain_loop cr w (records_from ?off gs) ?off (sp, h)"
  have fs: "list_all valid_entry fs" using assms(1) by simp
  show ?thesis
  proof (cases "w_read w h = OpenFails")
    case True
    with assms(4) show ?thesis
      by (auto simp: drainOnce_def ReadFrom_def ckpt_after_def accepted_def intro!: exI [of _ "[]"])
  next
    case False
    obtain j where j: "w_read w h = ReadsAll \<longrightarrow> j = length fs"
        "ReadFrom (w_read w h) sp ?off = (records_from ?off (take j fs), None)"
      using ReadFrom_prefix [OF fs assms(2,3) False] by blast
    have drain: "drainOnce cr w ?off (sp, h) = ?loop (take j fs)" by (simp add: drainOnce_def j(2))
    obtain ds where "drained cr (take j fs) ?off (sp, h) ((off, ok), sp', h') ds"
      using drain_loop_drained [of cr "take j fs" ?off "(sp, h)" w] assms(4) unfolding drain by auto
    from drained_facts [OF this] obtain rest where r: "take j fs = ds @ rest" "off = ?off + int (length (spool_text ds))"
      "sp_data sp' = sp_data sp" "ckpt_after ?off (sp_ckpt sp) ds (sp_ckpt sp')"
      "h' = h @ accepted cr ds \<or> rest \<noteq> [] \<and> h' = h @ accepted cr ds @ [(the (submission_of cr (hd rest)), False)]"
      "ok \<longrightarrow> rest = []"
      by auto
    have "fs = ds @ (rest @ drop j fs)" using r(1) by (metis append.assoc append_take_drop_id)
    moreover have "hd (rest @ drop j fs) = hd rest" if "rest \<noteq> []" using that by simp
    moreover have "rest @ drop j fs = []" if ok "w_read w h = ReadsAll" using that r(6) j(1) by simp
    moreover have "ok \<and> h' = h @ accepted cr fs \<and> off = int (length (spool_text (es @ fs)))"
      if "\<forall>h s. w_log w h s" "\<forall>h n. w_fs w h n" "w_read w h = ReadsAll" "\<forall>e\<in>set fs. submission_of cr e \<noteq> None"
    proof -
      have "?loop fs = ((off, ok), sp', h')" using drain j(1) that(3) assms(4) by simp
      with drain_loop_all [OF that(1,2,4), of ?off sp h] show ?thesis by auto
    qed
    ultimately show ?thesis
      using r(2-5) by (intro conjI impI exI [of _ ds] exI [of _ "rest @ drop j fs"]) auto
  qed
qed

definition agreeable :: World where
  "agreeable = \<lparr>w_log = (\<lambda>_ _. True), w_fs = (\<lambda>_ _. True), w_read = (\<lambda>_. ReadsAll)\<rparr>"

lemma example_submission: "submission_of example_crypto example_entry \<noteq> None"
proof -
  have "RawURL_DecodeString ''AAAA'' = Inr [0, 0, 0]" by code_simp
  then show ?thesis
    by (simp add: submission_of_def example_entry_def ReducedPayload_def ToCanonicalBytes_def example_crypto_def)
qed

theorem drain_in_order_witness:
  "snd (fst (drainOnce example_crypto agreeable 0
     (\<lparr>sp_data = entry_line example_entry, sp_synced = 0, sp_ckpt = None\<rparr>, [])))"
proof -
  let ?sp = "\<lparr>sp_data = entry_line example_entry, sp_synced = 0, sp_ckpt = None\<rparr>"
  obtain off ok sp' h' where d: "drainOnce example_crypto agreeable 0 (?sp, []) = ((off, ok), sp', h')"
    by (metis prod.collapse)
  then show ?thesis
    using drain_in_order [of "[]" "[example_entry]" "[]" ?sp example_crypto agreeable "[]" off ok sp' h']
      example_entry_valid example_submission
    by (simp add: agreeable_def)
qed

text \<open>C25: The loop of the submitter ends its work: if the log refuses at most \<open>k\<close> times in all and the spool can be read,
  then however often the checkpoint cannot be written, after at most \<open>k\<close> turns, one for each pending entry and one more, every pending
  entry was accepted, the offset is at the end of the last entry, and the loop waits for the next append with
  the retry delay reset.\<close>

theorem submitter_catches_up:
  assumes "list_all valid_entry (es @ fs)" and "\<forall>e\<in>set fs. submission_of cr e \<noteq> None" and "newline \<notin> set tail"
    and "sp_data sp = spool_text es @ spool_text fs @ tail"
    and "\<forall>h s. k \<le> refusals h \<longrightarrow> w_log w h s" and "\<forall>h. w_read w h = ReadsAll"
  shows "\<exists>n\<le>k + length fs + 1. \<exists>sp' h'.
    run_turns cr w n ((int (length (spool_text es)), backoff, sleeps), sp, []) =
      ((int (length (spool_text (es @ fs))), backoffMin, False), sp', h') \<and>
    (\<forall>e\<in>set fs. \<exists>s. submission_of cr e = Some s \<and> (s, True) \<in> set h')"
  using run_turns_drained [OF assms(5,6,3) _ assms(2,4), of "[]" backoff sleeps] assms(1)
  by (force simp: all_accepted_def)

text \<open>A log that refuses twice and a checkpoint file that cannot be written.\<close>

definition stubborn :: World where
  "stubborn = \<lparr>w_log = (\<lambda>h _. 2 \<le> refusals h), w_fs = (\<lambda>_ _. False), w_read = (\<lambda>_. ReadsAll)\<rparr>"

theorem submitter_catches_up_witness:
  "\<exists>n\<le>4. \<exists>sp' h'. run_turns example_crypto stubborn n
     ((0, 1, False), \<lparr>sp_data = entry_line example_entry, sp_synced = 0, sp_ckpt = None\<rparr>, []) =
       ((int (length (entry_line example_entry)), backoffMin, False), sp', h')"
  using submitter_catches_up [of "[]" "[example_entry]" example_crypto "[]"
      "\<lparr>sp_data = entry_line example_entry, sp_synced = 0, sp_ckpt = None\<rparr>" 2 stubborn 1 False]
    example_entry_valid example_submission
  by (auto simp: stubborn_def)

text \<open>An error while reading is taken for the end of the file: if reading stops before the end of the first pending
  line, the turn submits nothing, and the loop resets the retry delay and waits for the next append instead of trying
  again.\<close>

theorem read_error_taken_for_end:
  assumes "list_all valid_entry (e # fs)" and "newline \<notin> set tail"
    and "sp_data sp = spool_text es @ spool_text (e # fs) @ tail"
    and "w_read w h = ReadsOnly n" and "n < length (entry_line e)"
  shows "run_turn cr w (int (length (spool_text es)), backoff) (sp, h) =
    ((int (length (spool_text es)), backoffMin, False), sp, h)"
proof -
  have "take n (spool_text (e # fs) @ tail) = take n (entry_line e)" using assms(5) by simp
  then have "ReadFrom (ReadsOnly n) sp (int (length (spool_text es))) = ([], None)"
    using assms(3) prefix_of_line [OF assms(5)] by (simp add: ReadFrom_def read_lines_tail del: take_append spool_text_simps)
  with assms(4) show ?thesis by (simp add: run_turn_def drainOnce_def)
qed

lemma glued_line_corrupt: "read_entry (json_encode (entry_json e) @ entry_line e') = None"
proof -
  have "json_parse (json_encode (entry_json e) @ entry_line e') = Some (json_sanitize (entry_json e), entry_line e')"
    by (intro json_roundtrip) (simp_all add: maxNestingDepth_def)
  moreover have "\<not> list_all is_ws (entry_line e')"
    by (simp add: entry_line_def entry_json_def is_ws_def)
  ultimately show ?thesis
    by (simp add: read_entry_def json_parse_all_def)
qed

lemma corrupt_ReadFrom:
  assumes "list_all valid_entry es" and "newline \<notin> set bad" and "read_entry (bad @ [newline]) = None"
    and "sp_data sp = old @ spool_text es @ bad @ newline # rest"
  shows "ReadFrom ReadsAll sp (int (length old)) =
    (records_from (int (length old)) es, Some (CorruptLine (int (length (old @ spool_text es)))))"
  using read_lines_spool [OF assms(1), of "int (length old)" "bad @ newline # rest"] assms(2-4)
  by (simp add: ReadFrom_def read_lines_line)

text \<open>C39: One corrupt line stops more than itself: if from the submitter's offset on the spool has entries, then a corrupt line, then
  anything, and the file is read to its end, reading returns the entries and an error, and the drain submits none of them. The loop
  stays where it is, however many turns it makes: as the corrupt line stays, these entries are never submitted.\<close>

theorem corrupt_line_blocks_earlier_entries:
  assumes "list_all valid_entry es" and "newline \<notin> set bad" and "read_entry (bad @ [newline]) = None"
    and "sp_data sp = old @ spool_text es @ bad @ newline # rest" and "off = int (length old)" and "w_read w h = ReadsAll"
  shows "map fst (fst (ReadFrom (w_read w h) sp off)) = es \<and> drainOnce cr w off (sp, h) = ((off, False), sp, h) \<and>
    (\<exists>b sl. run_turns cr w n ((off, backoff, sleeps), sp, h) = ((off, b, sl), sp, h))"
proof -
  have read: "ReadFrom (w_read w h) sp off = (records_from off es, Some (CorruptLine (int (length (old @ spool_text es)))))"
    using corrupt_ReadFrom [OF assms(1-4)] assms(5,6) by simp
  then have drain: "drainOnce cr w off (sp, h) = ((off, False), sp, h)" by (simp add: drainOnce_def)
  have "\<exists>b sl. run_turns cr w n ((off, backoff, sleeps), sp, h) = ((off, b, sl), sp, h)"
    by (induction n arbitrary: backoff sleeps) (simp_all add: run_turn_def drain)
  with read drain show ?thesis by simp
qed

text \<open>A submitted entry, a pending one, and a corrupt line.\<close>

theorem corrupt_line_blocks_earlier_entries_witness:
  "let l = entry_line example_entry; sp = \<lparr>sp_data = l @ l @ ''x'' @ [newline], sp_synced = 0, sp_ckpt = None\<rparr> in
   drainOnce example_crypto agreeable (int (length l)) (sp, []) = ((int (length l), False), sp, [])"
proof -
  have "read_entry (''x'' @ [newline]) = None" by code_simp
  then show ?thesis
    using corrupt_line_blocks_earlier_entries [of "[example_entry]" "''x''"
        "\<lparr>sp_data = entry_line example_entry @ entry_line example_entry @ ''x'' @ [newline], sp_synced = 0, sp_ckpt = None\<rparr>"
        "entry_line example_entry" "[]" _ agreeable "[]" example_crypto 0 0 False] example_entry_valid
    by (simp add: agreeable_def Let_def)
qed

text \<open>A write that fails before the line break of its entry makes the next append useless while the
  enforcer runs: the next entry is written behind the cut-off line and acknowledged, but the two form one
  corrupt line, and no drain from the start submits anything.\<close>

theorem append_after_partial_write_corrupts:
  assumes "list_all valid_entry es" and "sp_data sp = spool_text es"
    and "sp1 = snd (Append (Some (length (entry_line e) - 1)) sync sp e)" and "Append None True sp1 e' = (ack, sp2)"
    and "w_read w h = ReadsAll"
  shows "ack \<and> ReadFrom ReadsAll sp2 0 = (records_from 0 es, Some (CorruptLine (int (length (spool_text es))))) \<and>
    drainOnce cr w 0 (sp2, h) = ((0, False), sp2, h)"
proof -
  have data: "sp_data sp2 = spool_text es @ (json_encode (entry_json e) @ json_encode (entry_json e')) @ [newline]"
    and ack using assms(2-4) by (auto simp: Append_def entry_line_def Let_def)
  have "newline \<notin> set (json_encode (entry_json e) @ json_encode (entry_json e'))"
    using entry_line_one_line by simp
  moreover have "read_entry ((json_encode (entry_json e) @ json_encode (entry_json e')) @ [newline]) = None"
    using glued_line_corrupt [of e e'] by (simp add: entry_line_def)
  ultimately have "ReadFrom ReadsAll sp2 0 = (records_from 0 es, Some (CorruptLine (int (length (spool_text es)))))"
    using corrupt_ReadFrom [OF assms(1), of "json_encode (entry_json e) @ json_encode (entry_json e')" sp2 "[]" "[]"] data by simp
  with \<open>ack\<close> assms(5) show ?thesis by (simp add: drainOnce_def)
qed

theorem append_after_partial_write_corrupts_witness:
  "fst (ReadFrom ReadsAll (snd (Append None True (snd (Append (Some (length (entry_line example_entry) - 1)) False
     \<lparr>sp_data = [], sp_synced = 0, sp_ckpt = None\<rparr> example_entry)) example_entry)) 0) = []"
  using append_after_partial_write_corrupts [of "[]" "\<lparr>sp_data = [], sp_synced = 0, sp_ckpt = None\<rparr>" _ example_entry False
      example_entry True _ agreeable "[]", OF _ _ refl]
  by (simp add: Append_def Let_def agreeable_def)

text \<open>C40: The submitter does not wait for the sync of an append: an entry whose append was not acknowledged is
  submitted and the checkpoint moves past it. If the machine then loses the unsynced line, the
  checkpoint is behind the end of the spool, and an acknowledged entry that is not longer than the lost one is
  passed over by the next drain, which reports success.\<close>

theorem unsynced_entry_skips_successor:
  assumes "valid_entry e" and "submission_of cr e \<noteq> None" and "length (entry_line e') \<le> length (entry_line e)"
    and "length (entry_line e) < 2 ^ 63"
    and "Append None False \<lparr>sp_data = [], sp_synced = 0, sp_ckpt = None\<rparr> e = (ack1, sp1)"
    and "drainOnce cr agreeable 0 (sp1, []) = ((off, ok), sp2, h)"
    and "Open open_ok (crash 0 sp2) = (True, sp3)" and "Append None True sp3 e' = (ack2, sp4)"
  shows "\<not> ack1 \<and> h = [(the (submission_of cr e), True)] \<and> ack2 \<and> sp_data sp4 = entry_line e' \<and>
    drainOnce cr agreeable (run_start True sp4) (sp4, h) = ((run_start True sp4, True), sp4, h)"
proof -
  have sp1: "\<not> ack1" "sp1 = \<lparr>sp_data = entry_line e, sp_synced = 0, sp_ckpt = None\<rparr>"
    using assms(5) by (auto simp: Append_def)
  obtain reduced sig where s: "ReducedPayload cr e = Inr reduced" "RawURL_DecodeString (en_SecondSig e) = Inr sig"
    "submission_of cr e = Some (reduced, sig, en_PublicKeyPEM e)"
    using assms(2) by (auto simp: submission_of_def split: sum.splits)
  have "ReadFrom ReadsAll sp1 0 = (records_from 0 [e], None)"
    using ReadFrom_spool [of "[e]" "[]" sp1 "[]"] assms(1) sp1 by simp
  then have d: "h = [(the (submission_of cr e), True)]"
    "sp2 = sp1\<lparr>sp_ckpt := Some (strconv_FormatInt (int (length (entry_line e))))\<rparr>"
    using assms(6) s by (auto simp: drainOnce_def agreeable_def SetCheckpoint_def Let_def)
  have sp3: "sp3 = \<lparr>sp_data = [], sp_synced = 0, sp_ckpt = Some (strconv_FormatInt (int (length (entry_line e))))\<rparr>"
    using assms(7) unfolding d(2) sp1(2) by (simp add: crash_def Open_def open_ok_def truncateTornTail_def)
  have sp4: "ack2" "sp_data sp4 = entry_line e'" "sp_ckpt sp4 = Some (strconv_FormatInt (int (length (entry_line e))))"
    using assms(8) unfolding sp3 by (auto simp: Append_def Let_def)
  have "run_start True sp4 = int (length (entry_line e))"
    using Checkpoint_format [OF assms(4) sp4(3)] by (simp add: run_start_def)
  moreover from this have "ReadFrom ReadsAll sp4 (run_start True sp4) = ([], None)"
    using assms(3) sp4(2) by (simp add: ReadFrom_def read_lines_tail)
  ultimately show ?thesis
    using sp1 d sp4 by (simp add: drainOnce_def agreeable_def)
qed

theorem unsynced_entry_skips_successor_witness:
  "\<exists>sp4 h. sp_data sp4 = entry_line example_entry \<and>
     drainOnce example_crypto agreeable (run_start True sp4) (sp4, h) = ((run_start True sp4, True), sp4, h)"
proof -
  let ?sp0 = "\<lparr>sp_data = [], sp_synced = 0, sp_ckpt = None\<rparr>"
  obtain ack1 sp1 where 1: "Append None False ?sp0 example_entry = (ack1, sp1)" by fastforce
  obtain off ok sp2 h where 2: "drainOnce example_crypto agreeable 0 (sp1, []) = ((off, ok), sp2, h)"
    by (metis prod.collapse)
  obtain sp3 where 3: "Open open_ok (crash 0 sp2) = (True, sp3)"
    by (simp add: Open_def open_ok_def Let_def)
  obtain ack2 sp4 where 4: "Append None True sp3 example_entry = (ack2, sp4)" by fastforce
  have "length (entry_line example_entry) \<le> 999" by code_simp
  then have "length (entry_line example_entry) < 2 ^ 63" by simp
  with unsynced_entry_skips_successor [OF example_entry_valid example_submission _ _ 1 2 3 4] show ?thesis
    by auto
qed

end
