(* ===== verification/RunSteps.thy ===== *)
theory RunSteps
  imports OutboxSafety
begin

text \<open>
  The submitter of package \<^verbatim>\<open>outbox\<close> as a goroutine (\<^verbatim>\<open>Run\<close> and \<^verbatim>\<open>drainOnce\<close> in \<^verbatim>\<open>enforcer/internal/outbox/outbox.go\<close>): one step
  for each access to something shared, so that appends of the drop consumer may come in between. Theory \<open>Outbox\<close> has
  the same code as one function (\<open>drainOnce\<close>, \<open>run_turn\<close>); the theory shows that without interference the steps
  compute that function, that a drain that saw the whole file leaves no complete line behind, and, over appends, failures
  and crashes (\<open>sub_step\<close>), that no line before the submitter's offset is one that the log has not accepted.
\<close>

section \<open>Steps\<close>

text \<open>Where \<^verbatim>\<open>Run\<close> is: about to read the spool; in the loop of \<^verbatim>\<open>drainOnce\<close> with records left; about to store the checkpoint
  of an accepted record; waiting for a kick; sleeping before a retry; returned because its context was cancelled.\<close>

datatype run_pc =
    Draining
  | Submitting "spool_record list"
  | Checkpointing "spool_record list"
  | AwaitKick
  | Sleeping
  | Returned

record Runner =
  rn_pc :: run_pc
  rn_off :: int
  rn_backoff :: nat
  rn_hist :: history

definition run_begin :: "bool \<Rightarrow> Spool \<Rightarrow> Runner" where
  "run_begin readable sp =
     \<lparr>rn_pc = Draining, rn_off = run_start readable sp, rn_backoff = backoffMin, rn_hist = []\<rparr>"

text \<open>A step of the work. The waiting states have none.\<close>

definition submitter_step :: "Crypto \<Rightarrow> World \<Rightarrow> Runner \<times> Spool \<Rightarrow> Runner \<times> Spool" where
  "submitter_step cr w xs =
     (case xs of (x, sp) \<Rightarrow>
      case rn_pc x of
        Draining \<Rightarrow>
          (case ReadFrom (w_read w (rn_hist x)) sp (rn_off x) of
             (_, Some _) \<Rightarrow> (x\<lparr>rn_pc := Sleeping\<rparr>, sp)
           | (recs, None) \<Rightarrow> (x\<lparr>rn_pc := Submitting recs\<rparr>, sp))
      | Submitting [] \<Rightarrow> (x\<lparr>rn_pc := AwaitKick, rn_backoff := backoffMin\<rparr>, sp)
      | Submitting ((e, next) # recs) \<Rightarrow>
          (case ReducedPayload cr e of
             Inl _ \<Rightarrow> (x\<lparr>rn_pc := Sleeping\<rparr>, sp)
           | Inr reduced \<Rightarrow>
             (case RawURL_DecodeString (en_SecondSig e) of
                Inl _ \<Rightarrow> (x\<lparr>rn_pc := Sleeping\<rparr>, sp)
              | Inr sig \<Rightarrow>
                let s = (reduced, sig, en_PublicKeyPEM e);
                    ok = w_log w (rn_hist x) s;
                    x' = x\<lparr>rn_hist := rn_hist x @ [(s, ok)]\<rparr>
                in if \<not> ok then (x'\<lparr>rn_pc := Sleeping\<rparr>, sp)
                   else (x'\<lparr>rn_off := next, rn_pc := Checkpointing recs\<rparr>, sp)))
      | Checkpointing recs \<Rightarrow>
          (case SetCheckpoint (w_fs w (rn_hist x) (rn_off x)) sp (rn_off x) of
             (False, sp') \<Rightarrow> (x\<lparr>rn_pc := Sleeping\<rparr>, sp')
           | (True, sp') \<Rightarrow> (x\<lparr>rn_pc := Submitting recs\<rparr>, sp'))
      | _ \<Rightarrow> (x, sp))"

text \<open>The two \<^verbatim>\<open>select\<close> statements of \<^verbatim>\<open>Run\<close>, given which case becomes ready: a kick in the channel, the timer, or
  the end of the context. \<open>None\<close>: the goroutine does not listen to it now. The flag is whether the channel holds a kick.\<close>

datatype wakeup = Kick | Timer | Done

fun run_wake :: "wakeup \<Rightarrow> Runner \<times> bool \<Rightarrow> (Runner \<times> bool) option" where
  "run_wake Kick (x, kick) =
     (if rn_pc x = AwaitKick \<and> kick then Some (x\<lparr>rn_pc := Draining\<rparr>, False) else None)"
| "run_wake Timer (x, kick) =
     (if rn_pc x = Sleeping
      then Some (x\<lparr>rn_pc := Draining, rn_backoff := min (rn_backoff x * 2) backoffMax\<rparr>, kick) else None)"
| "run_wake Done (x, kick) =
     (if rn_pc x = AwaitKick \<or> rn_pc x = Sleeping then Some (x\<lparr>rn_pc := Returned\<rparr>, kick) else None)"

section \<open>The steps without interference\<close>

definition drain_result :: "Runner \<Rightarrow> (int \<times> bool) \<times> Spool \<times> history \<Rightarrow> Runner \<times> Spool" where
  "drain_result x r =
     (case r of ((off, ok), sp, h) \<Rightarrow>
        (x\<lparr>rn_pc := if ok then AwaitKick else Sleeping, rn_off := off,
           rn_backoff := if ok then backoffMin else rn_backoff x, rn_hist := h\<rparr>, sp))"

lemma submitter_step_data:
  assumes "submitter_step cr w (x, sp) = (x', sp')"
  shows "sp_data sp' = sp_data sp" "sp_synced sp' = sp_synced sp"
  using assms
  by (auto simp: submitter_step_def SetCheckpoint_def Let_def
      split: run_pc.splits list.splits prod.splits option.splits sum.splits if_splits bool.splits)

lemma step_unrenderable:
  "rn_pc x = Submitting ((e, next_off) # recs) \<Longrightarrow> submission_of cr e = None \<Longrightarrow>
   submitter_step cr w (x, sp) = (x\<lparr>rn_pc := Sleeping\<rparr>, sp)"
  by (auto simp: submitter_step_def submission_of_def split: sum.splits)

lemma step_submit:
  assumes "rn_pc x = Submitting ((e, next_off) # recs)" and "submission_of cr e = Some s"
  shows "submitter_step cr w (x, sp) =
    (if w_log w (rn_hist x) s
     then (x\<lparr>rn_hist := rn_hist x @ [(s, True)], rn_off := next_off, rn_pc := Checkpointing recs\<rparr>, sp)
     else (x\<lparr>rn_hist := rn_hist x @ [(s, False)], rn_pc := Sleeping\<rparr>, sp))"
proof -
  obtain reduced sig where "ReducedPayload cr e = Inr reduced" "RawURL_DecodeString (en_SecondSig e) = Inr sig"
    "s = (reduced, sig, en_PublicKeyPEM e)"
    using assms(2) by (auto simp: submission_of_def split: sum.splits)
  with assms(1) show ?thesis by (simp add: submitter_step_def Let_def)
qed

lemma step_checkpoint:
  "rn_pc x = Checkpointing recs \<Longrightarrow>
   submitter_step cr w (x, sp) =
     (if w_fs w (rn_hist x) (rn_off x)
      then (x\<lparr>rn_pc := Submitting recs\<rparr>, sp\<lparr>sp_ckpt := Some (strconv_FormatInt (rn_off x))\<rparr>)
      else (x\<lparr>rn_pc := Sleeping\<rparr>, sp))"
  by (simp add: submitter_step_def SetCheckpoint_def)

text \<open>Submitting a record and storing its checkpoint are two steps; each way to stop takes at most as many.\<close>

lemma drain_record_steps:
  assumes "rn_pc x = Submitting ((e, next_off) # recs)"
  obtains (stops) n where "n \<le> 2" "(submitter_step cr w ^^ n) (x, sp) =
      drain_result x (drain_loop cr w ((e, next_off) # recs) (rn_off x) (sp, rn_hist x))"
  | (continues) y sp' where "(submitter_step cr w ^^ 2) (x, sp) = (y, sp')" "rn_pc y = Submitting recs"
      "drain_result y (drain_loop cr w recs (rn_off y) (sp', rn_hist y)) =
       drain_result x (drain_loop cr w ((e, next_off) # recs) (rn_off x) (sp, rn_hist x))"
proof (cases "submission_of cr e")
  case None
  then show thesis
    using step_unrenderable [OF assms None]
    by (intro stops [of 1]) (simp_all add: drain_loop_unrenderable drain_result_def del: drain_loop.simps)
next
  case (Some s)
  define h where "h = rn_hist x @ [(s, True)]"
  define x' where "x' = x\<lparr>rn_hist := h, rn_off := next_off, rn_pc := Checkpointing recs\<rparr>"
  note loop = drain_loop_record [OF Some h_def] and step = step_submit [OF assms Some, of w sp]
    and ckpt = step_checkpoint [of x' recs cr w sp]
  consider "\<not> w_log w (rn_hist x) s" | "w_log w (rn_hist x) s" "\<not> w_fs w h next_off"
    | "w_log w (rn_hist x) s" "w_fs w h next_off" by blast
  then show thesis
  proof cases
    case 1
    then show thesis using step by (intro stops [of 1]) (simp_all add: loop drain_result_def del: drain_loop.simps)
  next
    case 2
    then show thesis
      using step ckpt
      by (intro stops [of 2]) (simp_all add: loop drain_result_def numeral_2_eq_2 x'_def h_def del: drain_loop.simps)
  next
    case 3
    then show thesis
      using step ckpt
      by (intro continues [of "x'\<lparr>rn_pc := Submitting recs\<rparr>" "sp\<lparr>sp_ckpt := Some (strconv_FormatInt next_off)\<rparr>"])
        (simp_all add: loop drain_result_def numeral_2_eq_2 x'_def h_def del: drain_loop.simps split: prod.split)
  qed
qed

lemma drain_loop_steps:
  assumes "rn_pc x = Submitting recs"
  shows "\<exists>n\<le>Suc (2 * length recs). (submitter_step cr w ^^ n) (x, sp) =
    drain_result x (drain_loop cr w recs (rn_off x) (sp, rn_hist x))"
  using assms
proof (induction recs arbitrary: x sp)
  case Nil
  then have "submitter_step cr w (x, sp) = drain_result x (drain_loop cr w [] (rn_off x) (sp, rn_hist x))"
    by (simp add: submitter_step_def drain_result_def)
  then show ?case by (intro exI [of _ 1]) simp
next
  case (Cons r recs)
  obtain e next_off where r: "r = (e, next_off)" by fastforce
  show ?case
  proof (cases rule: drain_record_steps [OF Cons.prems [unfolded r], of cr w sp])
    case (1 n)
    then show ?thesis unfolding r by (intro exI [of _ n]) simp
  next
    case (2 y sp')
    obtain n where "n \<le> Suc (2 * length recs)" "(submitter_step cr w ^^ n) (y, sp') =
        drain_result y (drain_loop cr w recs (rn_off y) (sp', rn_hist y))"
      using Cons.IH [OF 2(2)] by blast
    moreover have "(submitter_step cr w ^^ (n + 2)) (x, sp) = (submitter_step cr w ^^ n) (y, sp')"
      by (simp only: funpow_add o_apply 2(1))
    ultimately show ?thesis unfolding r using 2(3) by (intro exI [of _ "n + 2"]) simp
  qed
qed

text \<open>The goroutine computes the function: from the start of a drain, with no append in between, its steps reach the
  result of \<open>drainOnce\<close> after at most two steps for each record and two more, and then wait for a kick or sleep, with
  the delays of \<open>run_turn\<close>. So what theory \<open>OutboxSafety\<close> shows of turns holds of the goroutine while nothing is appended.\<close>

lemma run_steps_compute_turn:
  assumes "rn_pc x = Draining" and "run_turn cr w (rn_off x, rn_backoff x) (sp, rn_hist x) = ((off, backoff, sleeps), sp', h)"
  shows "\<exists>n y. n \<le> 2 * length (fst (ReadFrom (w_read w (rn_hist x)) sp (rn_off x))) + 2 \<and>
    (submitter_step cr w ^^ n) (x, sp) = (y, sp') \<and> rn_off y = off \<and> rn_hist y = h \<and>
    (if sleeps then run_wake Timer (y, kick) = Some (y\<lparr>rn_pc := Draining, rn_backoff := backoff\<rparr>, kick)
     else rn_backoff y = backoff \<and> run_wake Kick (y, True) = Some (y\<lparr>rn_pc := Draining\<rparr>, False))"
proof -
  obtain recs err where rd: "ReadFrom (w_read w (rn_hist x)) sp (rn_off x) = (recs, err)" by fastforce
  obtain n where n: "n \<le> 2 * length recs + 2"
    "(submitter_step cr w ^^ n) (x, sp) = drain_result x (drainOnce cr w (rn_off x) (sp, rn_hist x))"
  proof (cases err)
    case None
    have step: "submitter_step cr w (x, sp) = (x\<lparr>rn_pc := Submitting recs\<rparr>, sp)"
      using assms(1) rd None by (simp add: submitter_step_def)
    obtain n where "n \<le> Suc (2 * length recs)" "(submitter_step cr w ^^ n) (x\<lparr>rn_pc := Submitting recs\<rparr>, sp) =
        drain_result (x\<lparr>rn_pc := Submitting recs\<rparr>) (drain_loop cr w recs (rn_off x) (sp, rn_hist x))"
      using drain_loop_steps [of "x\<lparr>rn_pc := Submitting recs\<rparr>" recs cr w sp] by auto
    with step rd None that [of "Suc n"] show ?thesis
      by (simp add: funpow_swap1 drainOnce_def drain_result_def split: prod.split)
  next
    case (Some e)
    then show ?thesis
      using assms(1) rd that [of 1] by (simp add: submitter_step_def drainOnce_def drain_result_def)
  qed
  obtain off' ok where "drainOnce cr w (rn_off x) (sp, rn_hist x) = ((off', ok), sp', h)" "off' = off"
    "backoff = (if ok then backoffMin else min (rn_backoff x * 2) backoffMax)" "sleeps = (\<not> ok)"
    using assms(2) by (auto simp: run_turn_def split: prod.splits if_splits)
  with n rd show ?thesis by (intro exI [of _ n]) (auto simp: drain_result_def)
qed

section \<open>What a drain has seen\<close>

text \<open>The offset after the last of the records.\<close>

definition last_off :: "int \<Rightarrow> spool_record list \<Rightarrow> int" where
  "last_off off recs = (if recs = [] then off else snd (last recs))"

lemma last_off_simps [simp]: "last_off off [] = off" "last_off off ((e, next_off) # recs) = last_off next_off recs"
  by (simp_all add: last_off_def)

lemma read_lines_end: "read_lines off s = (recs, None) \<Longrightarrow> last_off off recs = off + int (length (truncateTornTail s))"
proof (induction s arbitrary: off recs rule: length_induct)
  case (1 s)
  show ?case
  proof (cases "newline \<in> set s")
    case True
    then obtain l t where s: "s = l @ newline # t" "newline \<notin> set l" by (metis split_list_first)
    define off' where "off' = off + int (length (l @ [newline]))"
    obtain e recs' where r: "read_lines off' t = (recs', None)" "recs = (e, off') # recs'"
      using 1(2) unfolding s(1) read_lines_line [OF s(2)] off'_def by (auto split: option.splits prod.splits)
    then have "last_off off recs = off' + int (length (truncateTornTail t))"
      using 1(1) s(1) by simp
    moreover have "length (truncateTornTail s) = Suc (length l) + length (truncateTornTail t)"
      using truncateTornTail_append [of "l @ [newline]" t] by (auto simp: s(1))
    ultimately show ?thesis by (simp add: off'_def)
  next
    case False
    then show ?thesis using 1(2) by (simp add: read_lines_tail)
  qed
qed

lemma ReadFrom_end:
  assumes "ReadFrom ReadsAll sp off = (recs, None)"
  shows "int (length (truncateTornTail (sp_data sp))) \<le> last_off off recs"
proof -
  have off: "0 \<le> off" and "read_lines off (drop (nat off) (sp_data sp)) = (recs, None)"
    using assms by (auto simp: ReadFrom_def split: if_splits prod.splits)
  then have "last_off off recs = off + int (length (truncateTornTail (drop (nat off) (sp_data sp))))"
    by (intro read_lines_end)
  moreover have "length (truncateTornTail (sp_data sp)) \<le> nat off + length (truncateTornTail (drop (nat off) (sp_data sp)))"
    using truncateTornTail_append [of "take (nat off) (sp_data sp)" "drop (nat off) (sp_data sp)"]
      truncateTornTail_length [of "take (nat off) (sp_data sp)"]
    by (auto split: if_splits)
  ultimately show ?thesis using off by linarith
qed

section \<open>The submitter over the life of the spool\<close>

text \<open>Steps of goroutine and spool: an append by the consumer, complete or cut off, also behind a torn line; a step of the
  submitter (the size of the spool is within the range of a file offset); its wake-ups; a crash of the enforcer followed by its
  restart, where the checkpoint may be unreadable; and a crash of the machine, which loses any part of what is not
  durable, as long as the stored checkpoint is not behind what is left.\<close>

inductive sub_step :: "Crypto \<Rightarrow> Runner \<times> Spool \<Rightarrow> Runner \<times> Spool \<Rightarrow> bool" for cr :: Crypto where
  append: "sub_step cr (x, sp) (x, snd (Append written sync sp e))"
| work: "length (sp_data sp) < 2 ^ 63 \<Longrightarrow> submitter_step cr w (x, sp) = (x', sp') \<Longrightarrow> sub_step cr (x, sp) (x', sp')"
| wakes: "run_wake v (x, kick) = Some (x', kick') \<Longrightarrow> sub_step cr (x, sp) (x', sp)"
| restart: "Open open_ok sp = (True, sp') \<Longrightarrow>
    sub_step cr (x, sp)
      (x\<lparr>rn_pc := Draining, rn_off := run_start readable sp', rn_backoff := backoffMin\<rparr>, sp')"
| power_loss: "Open open_ok (crash n sp) = (True, sp') \<Longrightarrow> run_start True sp \<le> int (length (sp_data sp')) \<Longrightarrow>
    sub_step cr (x, sp)
      (x\<lparr>rn_pc := Draining, rn_off := run_start readable sp', rn_backoff := backoffMin\<rparr>, sp')"

definition sub_start :: "Runner \<times> Spool" where
  "sub_start =
     (let sp = \<lparr>sp_data = [], sp_synced = 0, sp_ckpt = None\<rparr> in (run_begin True sp, sp))"

definition sub_reachable :: "Crypto \<Rightarrow> Runner \<times> Spool \<Rightarrow> bool" where
  "sub_reachable cr xs \<longleftrightarrow> (sub_step cr)\<^sup>*\<^sup>* sub_start xs"

text \<open>The bytes are complete lines, each of which is read as an entry that the log has accepted.\<close>

definition lines_accepted :: "Crypto \<Rightarrow> history \<Rightarrow> string \<Rightarrow> bool" where
  "lines_accepted cr h s \<longleftrightarrow>
     (\<exists>recs. read_lines 0 s = (recs, None) \<and> last_off 0 recs = int (length s) \<and> all_accepted cr (map fst recs) h)"

lemma lines_accepted_Nil [simp]: "lines_accepted cr h []"
  by (simp add: lines_accepted_def read_lines_tail)

lemma lines_accepted_mono: "lines_accepted cr h s \<Longrightarrow> lines_accepted cr (h @ h') s"
  unfolding lines_accepted_def using all_accepted_mono by blast

lemma lines_accepted_truncate: "lines_accepted cr h s \<Longrightarrow> length (truncateTornTail s) = length s"
  by (auto simp: lines_accepted_def dest: read_lines_end)

lemma read_lines_ConsD:
  assumes "read_lines off s = ((e, next_off) # recs, err)"
  obtains l t where "s = (l @ [newline]) @ t" "newline \<notin> set l" "read_entry (l @ [newline]) = Some e"
    "next_off = off + int (length (l @ [newline]))" "read_lines next_off t = (recs, err)"
proof (cases "newline \<in> set s")
  case True
  then obtain l t where s: "s = l @ newline # t" "newline \<notin> set l" by (metis split_list_first)
  with assms that [of l t] show thesis by (auto simp: read_lines_line split: option.splits prod.splits)
qed (use assms in \<open>simp add: read_lines_tail\<close>)

lemma read_lines_append:
  assumes "read_lines off s = (recs, None)" and "last_off off recs = off + int (length s)"
  shows "read_lines off (s @ t) =
    (case read_lines (off + int (length s)) t of (recs', err) \<Rightarrow> (recs @ recs', err))"
  using assms
proof (induction recs arbitrary: off s)
  case Nil
  then show ?case by simp
next
  case (Cons r recs)
  obtain e n where r: "r = (e, n)" by fastforce
  from Cons.prems(1) [unfolded r] obtain l u where l: "s = (l @ [newline]) @ u" "newline \<notin> set l"
    "read_entry (l @ [newline]) = Some e" "n = off + int (length (l @ [newline]))" "read_lines n u = (recs, None)"
    by (rule read_lines_ConsD)
  with Cons.prems(2) r have "last_off n recs = n + int (length u)" by simp
  from Cons.IH [OF l(5) this] l show ?case
    using read_lines_line [OF l(2), of off "u @ t"] by (simp add: r algebra_simps split: prod.splits)
qed

text \<open>One more line.\<close>

lemma lines_accepted_line:
  assumes "lines_accepted cr h s" and "newline \<notin> set l" and "read_entry (l @ [newline]) = Some e"
    and "submission_of cr e = Some sub"
  shows "lines_accepted cr (h @ [(sub, True)]) (s @ l @ [newline])"
proof -
  obtain recs where r: "read_lines 0 s = (recs, None)" "last_off 0 recs = int (length s)" "all_accepted cr (map fst recs) h"
    using assms(1) by (auto simp: lines_accepted_def)
  let ?n = "int (length (s @ l @ [newline]))"
  have "read_lines (int (length s)) (l @ newline # []) = ([(e, ?n)], None)"
    using assms(3) by (simp add: read_lines_line [OF assms(2)] read_lines_tail)
  with read_lines_append [OF r(1), of "l @ [newline]"] r(2) have "read_lines 0 (s @ l @ [newline]) = (recs @ [(e, ?n)], None)"
    by simp
  moreover have "last_off 0 (recs @ [(e, ?n)]) = ?n" by (simp add: last_off_def)
  moreover have "all_accepted cr (map fst (recs @ [(e, ?n)])) (h @ [(sub, True)])"
    using all_accepted_mono [OF r(3)] assms(4) by (simp, simp add: all_accepted_def)
  ultimately show ?thesis unfolding lines_accepted_def by blast
qed

text \<open>The stored checkpoint is \<open>i\<close> and the submitter's offset \<open>j\<close>, and the log has accepted all that is before them. The records
  in hand are what the bytes from \<open>j\<close> on begin with.\<close>

definition in_hand :: "string \<Rightarrow> nat \<Rightarrow> run_pc \<Rightarrow> bool" where
  "in_hand data j pc \<longleftrightarrow>
     (\<forall>recs. pc = Submitting recs \<or> pc = Checkpointing recs \<longrightarrow>
        (\<exists>t. prefix t (drop j data) \<and> read_lines (int j) t = (recs, None)))"

definition sub_layout :: "Crypto \<Rightarrow> Runner \<Rightarrow> Spool \<Rightarrow> nat \<Rightarrow> nat \<Rightarrow> bool" where
  "sub_layout cr x sp i j \<longleftrightarrow>
     i \<le> length (sp_data sp) \<and> j \<le> length (sp_data sp) \<and> Checkpoint True sp = Inr (int i) \<and> rn_off x = int j \<and>
     lines_accepted cr (rn_hist x) (take i (sp_data sp)) \<and> lines_accepted cr (rn_hist x) (take j (sp_data sp)) \<and>
     in_hand (sp_data sp) j (rn_pc x)"

definition sub_inv :: "Crypto \<Rightarrow> Runner \<times> Spool \<Rightarrow> bool" where
  "sub_inv cr xs \<longleftrightarrow>
     (\<exists>i j. sub_layout cr (fst xs) (snd xs) i j) \<and> 1 \<le> rn_backoff (fst xs) \<and> rn_backoff (fst xs) \<le> 30"

lemma in_hand_idle [simp]: "in_hand data j Draining" "in_hand data j AwaitKick" "in_hand data j Sleeping" "in_hand data j Returned"
  by (simp_all add: in_hand_def)

lemma in_hand_recs:
  "in_hand data j (Submitting recs) \<longleftrightarrow> (\<exists>t. prefix t (drop j data) \<and> read_lines (int j) t = (recs, None))"
  "in_hand data j (Checkpointing recs) \<longleftrightarrow> (\<exists>t. prefix t (drop j data) \<and> read_lines (int j) t = (recs, None))"
  by (auto simp: in_hand_def)

lemma in_hand_more: "j \<le> length data \<Longrightarrow> in_hand data j pc \<Longrightarrow> in_hand (data @ u) j pc"
  unfolding in_hand_def by (metis drop_append diff_is_0_eq drop_0 prefix_prefix)

text \<open>Appends, and restarts on the first part of the file.\<close>

lemma sub_layout_append:
  assumes "sub_layout cr x sp i j"
  shows "sub_layout cr x (snd (Append written sync sp e)) i j"
proof -
  let ?sp = "snd (Append written sync sp e)"
  obtain u where u: "sp_data ?sp = sp_data sp @ u" by (cases written) (auto simp: Append_def Let_def)
  have "sp_ckpt ?sp = sp_ckpt sp" by (cases written) (auto simp: Append_def Let_def)
  then have "Checkpoint True ?sp = Checkpoint True sp" by (rule Checkpoint_cong)
  moreover have "in_hand (sp_data sp @ u) j (rn_pc x)"
    using assms by (intro in_hand_more) (simp_all add: sub_layout_def)
  ultimately show ?thesis using assms by (simp add: sub_layout_def u)
qed

lemma sub_layout_restart:
  assumes "sub_layout cr x sp i j" and "prefix (sp_data sp') (sp_data sp)" and "i \<le> length (sp_data sp')" and "sp_ckpt sp' = sp_ckpt sp"
  shows "sub_layout cr (x\<lparr>rn_pc := Draining, rn_off := run_start readable sp', rn_backoff := backoffMin\<rparr>) sp' i
    (if readable then i else 0)"
proof -
  have ck: "Checkpoint True sp' = Checkpoint True sp" using assms(4) by (rule Checkpoint_cong)
  have "run_start readable sp' = int (if readable then i else 0)"
    using assms(1) ck by (cases readable) (simp_all add: run_start_def sub_layout_def Checkpoint_def)
  moreover have "take i (sp_data sp') = take i (sp_data sp)" using assms(2,3) by (auto simp: prefix_def)
  ultimately show ?thesis using assms(1,3) ck by (simp add: sub_layout_def)
qed

lemma truncateTornTail_prefix: "prefix (truncateTornTail s) s"
  unfolding truncateTornTail_eq by (metis prefix_def rev_append rev_rev_ident takeWhile_dropWhile_id)

lemma Open_data: "Open open_ok sp = (True, sp') \<Longrightarrow> sp_data sp' = truncateTornTail (sp_data sp) \<and> sp_ckpt sp' = sp_ckpt sp"
  by (auto simp: Open_def open_ok_def Let_def)

lemma sub_layout_reopen:
  assumes "sub_layout cr x sp i j" and "Open open_ok sp = (True, sp')"
  shows "sub_layout cr (x\<lparr>rn_pc := Draining, rn_off := run_start readable sp', rn_backoff := backoffMin\<rparr>) sp' i
    (if readable then i else 0)"
proof (rule sub_layout_restart [OF assms(1)])
  have "length (truncateTornTail (take i (sp_data sp))) = i"
    using assms(1) lines_accepted_truncate [of cr "rn_hist x" "take i (sp_data sp)"] by (simp add: sub_layout_def)
  then show "i \<le> length (sp_data sp')"
    using Open_data [OF assms(2)] truncateTornTail_mono [of "take i (sp_data sp)" "drop i (sp_data sp)"] by simp
qed (use Open_data [OF assms(2)] truncateTornTail_prefix in auto)

lemma sub_layout_power_loss:
  assumes "sub_layout cr x sp i j" and "Open open_ok (crash n sp) = (True, sp')" and "run_start True sp \<le> int (length (sp_data sp'))"
  shows "sub_layout cr (x\<lparr>rn_pc := Draining, rn_off := run_start readable sp', rn_backoff := backoffMin\<rparr>) sp' i
    (if readable then i else 0)"
proof (rule sub_layout_restart [OF assms(1)])
  have "prefix (sp_data (crash n sp)) (sp_data sp)" by (simp add: crash_def Let_def take_is_prefix)
  then show "prefix (sp_data sp') (sp_data sp)"
    using Open_data [OF assms(2)] truncateTornTail_prefix prefix_order.trans by metis
  show "i \<le> length (sp_data sp')" using assms(1,3) by (simp add: sub_layout_def run_start_def)
  show "sp_ckpt sp' = sp_ckpt sp" using Open_data [OF assms(2)] by (simp add: crash_def Let_def)
qed

text \<open>Steps that change neither offset nor spool.\<close>

lemma sub_layout_pc:
  assumes "sub_layout cr x sp i j" and "in_hand (sp_data sp) j pc"
  shows "sub_layout cr (x\<lparr>rn_pc := pc, rn_backoff := b\<rparr>) sp i j" "sub_layout cr (x\<lparr>rn_pc := pc\<rparr>) sp i j"
    "sub_layout cr (x\<lparr>rn_hist := rn_hist x @ h, rn_pc := pc\<rparr>) sp i j"
  using assms lines_accepted_mono by (simp_all add: sub_layout_def)

lemma sub_layout_read:
  assumes "sub_layout cr x sp i j" and "rn_pc x = Draining" and "submitter_step cr w (x, sp) = (x', sp')"
  shows "sub_layout cr x' sp' i j"
proof (cases "ReadFrom (w_read w (rn_hist x)) sp (rn_off x)")
  case (Pair recs err)
  show ?thesis
  proof (cases err)
    case (Some e)
    then have "x' = x\<lparr>rn_pc := Sleeping\<rparr>" "sp' = sp" using Pair assms(2,3) by (auto simp: submitter_step_def)
    then show ?thesis using sub_layout_pc(2) [OF assms(1), of Sleeping] by simp
  next
    case None
    have "rn_off x = int j" using assms(1) by (simp add: sub_layout_def)
    then have "read_lines (int j) (bytes_read (w_read w (rn_hist x)) (drop j (sp_data sp))) = (recs, None)"
      using Pair None by (auto simp: ReadFrom_def split: if_splits prod.splits)
    moreover have "prefix (bytes_read ra u) u" for ra u by (cases ra) (simp_all add: take_is_prefix)
    ultimately have "in_hand (sp_data sp) j (Submitting recs)" unfolding in_hand_recs by blast
    moreover have "x' = x\<lparr>rn_pc := Submitting recs\<rparr>" "sp' = sp" using Pair None assms(2,3) by (auto simp: submitter_step_def)
    ultimately show ?thesis using sub_layout_pc(2) [OF assms(1)] by simp
  qed
qed

lemma sub_layout_submit:
  assumes l: "sub_layout cr x sp i j" and pc: "rn_pc x = Submitting recs"
    and step: "submitter_step cr w (x, sp) = (x', sp')"
  shows "\<exists>j'. sub_layout cr x' sp' i j'"
proof (cases recs)
  case Nil
  then show ?thesis using l pc step sub_layout_pc(1) [OF l, of AwaitKick] by (auto simp: submitter_step_def)
next
  case (Cons r rs)
  obtain e next_off where r: "r = (e, next_off)" by fastforce
  have pc': "rn_pc x = Submitting ((e, next_off) # rs)" using pc Cons r by simp
  with l obtain t where t: "prefix t (drop j (sp_data sp))" "read_lines (int j) t = ((e, next_off) # rs, None)"
    by (auto simp: sub_layout_def in_hand_recs)
  from t(2) obtain u v where u: "t = (u @ [newline]) @ v" "newline \<notin> set u" "read_entry (u @ [newline]) = Some e"
    "next_off = int j + int (length (u @ [newline]))" "read_lines next_off v = (rs, None)"
    by (rule read_lines_ConsD)
  obtain rest where data: "sp_data sp = take j (sp_data sp) @ (u @ [newline]) @ v @ rest"
    using t(1) u(1) by (auto simp: prefix_def) (metis append_take_drop_id append.assoc append_Cons append_Nil)
  define j' where "j' = j + length (u @ [newline])"
  have j: "j \<le> length (sp_data sp)" using l by (simp add: sub_layout_def)
  show ?thesis
  proof (cases "submission_of cr e")
    case None
    then show ?thesis using step_unrenderable [OF pc' None] step sub_layout_pc(2) [OF l, of Sleeping] by auto
  next
    case (Some s)
    have len: "length (take j (sp_data sp)) = j" using j by simp
    have take': "take j' (sp_data sp) = take j (sp_data sp) @ u @ [newline]" "drop j' (sp_data sp) = v @ rest" "j' \<le> length (sp_data sp)"
      by (subst data, use len in \<open>simp add: j'_def\<close>)+
    have "lines_accepted cr (rn_hist x @ [(s, True)]) (take j' (sp_data sp))"
      using lines_accepted_line [OF _ u(2,3) Some] l unfolding take'(1) by (simp add: sub_layout_def)
    moreover have "in_hand (sp_data sp) j' (Checkpointing rs)"
      unfolding in_hand_recs take'(2) using u(4,5) by (intro exI [of _ v]) (simp add: j'_def algebra_simps)
    ultimately have "sub_layout cr (x\<lparr>rn_hist := rn_hist x @ [(s, True)], rn_off := next_off, rn_pc := Checkpointing rs\<rparr>) sp i j'"
      using l lines_accepted_mono take'(3) u(4) by (simp add: sub_layout_def j'_def)
    then show ?thesis
      using step_submit [OF pc' Some, of w sp] step sub_layout_pc(3) [OF l, of Sleeping "[(s, False)]"]
      by (auto split: if_splits)
  qed
qed

lemma sub_layout_checkpoint:
  assumes l: "sub_layout cr x sp i j" and pc: "rn_pc x = Checkpointing recs"
    and step: "submitter_step cr w (x, sp) = (x', sp')" and size: "length (sp_data sp) < 2 ^ 63"
  shows "\<exists>i'. sub_layout cr x' sp' i' j"
proof -
  have hand: "in_hand (sp_data sp) j (Submitting recs)" using l pc by (simp add: sub_layout_def in_hand_recs cong: conj_cong)
  have "j < 2 ^ 63" and off: "rn_off x = int j" using l size by (auto simp: sub_layout_def)
  then have "Checkpoint True (sp\<lparr>sp_ckpt := Some (strconv_FormatInt (rn_off x))\<rparr>) = Inr (int j)"
    by (intro Checkpoint_format) simp_all
  with sub_layout_pc(2) [OF l hand] l
  have "sub_layout cr (x\<lparr>rn_pc := Submitting recs\<rparr>) (sp\<lparr>sp_ckpt := Some (strconv_FormatInt (rn_off x))\<rparr>) j j"
    by (simp add: sub_layout_def)
  with sub_layout_pc(2) [OF l, of Sleeping] step_checkpoint [OF pc, of cr w sp] step show ?thesis by (auto split: if_splits)
qed

lemma sub_inv_work:
  assumes "sub_inv cr (x, sp)" and "length (sp_data sp) < 2 ^ 63" and "submitter_step cr w (x, sp) = (x', sp')"
  shows "sub_inv cr (x', sp')"
proof -
  obtain i j where l: "sub_layout cr x sp i j" using assms(1) by (auto simp: sub_inv_def)
  have "rn_backoff x' = rn_backoff x \<or> rn_backoff x' = backoffMin"
    using assms(3)
    by (auto simp: submitter_step_def Let_def split: run_pc.splits list.splits prod.splits option.splits sum.splits
        if_splits bool.splits)
  moreover have "\<exists>i j. sub_layout cr x' sp' i j"
  proof (cases "rn_pc x")
    case Draining
    then show ?thesis using sub_layout_read [OF l _ assms(3)] by blast
  next
    case (Submitting recs)
    then show ?thesis using sub_layout_submit [OF l _ assms(3)] by blast
  next
    case (Checkpointing recs)
    then show ?thesis using sub_layout_checkpoint [OF l _ assms(3,2)] by blast
  qed (use l assms(3) in \<open>auto simp: submitter_step_def\<close>)
  ultimately show ?thesis using assms(1) by (auto simp: sub_inv_def backoffMin_def)
qed

lemma sub_inv_wakes:
  assumes "sub_inv cr (x, sp)" and "run_wake v (x, kick) = Some (x', kick')"
  shows "sub_inv cr (x', sp)"
proof -
  obtain i j where l: "sub_layout cr x sp i j" using assms(1) by (auto simp: sub_inv_def)
  have "sub_layout cr x' sp i j" "rn_backoff x' = rn_backoff x \<or> rn_backoff x' = min (rn_backoff x * 2) backoffMax"
    using sub_layout_pc(1,2) [OF l in_hand_idle(1)] sub_layout_pc(2) [OF l in_hand_idle(4)] assms(2)
    by (cases v; auto split: if_splits)+
  then show ?thesis using assms(1) by (auto simp: sub_inv_def backoffMax_def)
qed

lemma sub_inv_step: "sub_step cr xs ys \<Longrightarrow> sub_inv cr xs \<Longrightarrow> sub_inv cr ys"
proof (induction rule: sub_step.induct)
  case (append x sp written sync e)
  then show ?case using sub_layout_append [of cr x sp] by (fastforce simp: sub_inv_def)
next
  case (work sp w x x' sp')
  show ?case by (rule sub_inv_work [OF work.prems work.hyps])
next
  case (wakes v x kick x' kick' sp)
  show ?case by (rule sub_inv_wakes [OF wakes.prems wakes.hyps])
next
  case (restart sp sp' x readable)
  then show ?case using sub_layout_reopen [of cr x sp _ _ sp' readable] by (fastforce simp: sub_inv_def backoffMin_def)
next
  case (power_loss n sp sp' x readable)
  then show ?case using sub_layout_power_loss [of cr x sp _ _ n sp' readable] by (fastforce simp: sub_inv_def backoffMin_def)
qed

lemma sub_inv_start: "sub_inv cr sub_start"
proof -
  have "sub_layout cr (fst sub_start) (snd sub_start) 0 0"
    by (simp add: sub_layout_def sub_start_def run_begin_def run_start_def Checkpoint_def)
  then show ?thesis by (auto simp: sub_inv_def) (simp_all add: sub_start_def run_begin_def backoffMin_def Let_def)
qed

interpretation sub: step_invariant sub_start "sub_step cr" "sub_inv cr" for cr
  by unfold_locales (rule sub_inv_start, rule sub_inv_step)

section \<open>Properties\<close>

text \<open>C8: The submitter skips nothing: in every state that appends between its steps (complete or cut off, also behind a torn line),
  failures of the log, of reading the spool and of the checkpoint file, crashes of the enforcer, and crashes of the machine
  that leave the checkpoint within the file can reach, the stored checkpoint, from which a restart resumes, and
  the submitter's offset are within the file, and what is before either of them is complete lines that are read as
  entries, each of which the log has accepted. The retry delay is between one and thirty seconds.\<close>

theorem submitter_skips_nothing:
  assumes "sub_reachable cr (x, sp)" and "off = run_start True sp \<or> off = rn_off x"
  shows "\<exists>recs. 0 \<le> off \<and> off \<le> int (length (sp_data sp)) \<and> read_lines 0 (take (nat off) (sp_data sp)) = (recs, None) \<and>
    last_off 0 recs = off \<and> (\<forall>e\<in>fst ` set recs. \<exists>s. submission_of cr e = Some s \<and> (s, True) \<in> set (rn_hist x)) \<and>
    1 \<le> rn_backoff x \<and> rn_backoff x \<le> 30"
proof -
  obtain i j where l: "sub_layout cr x sp i j" and b: "1 \<le> rn_backoff x" "rn_backoff x \<le> 30"
    using sub.reachable_inv [OF assms(1) [unfolded sub_reachable_def]] by (auto simp: sub_inv_def)
  then obtain n where "off = int n" "n \<le> length (sp_data sp)" "lines_accepted cr (rn_hist x) (take n (sp_data sp))"
    using assms(2) by (auto simp: sub_layout_def run_start_def)
  with b show ?thesis by (auto simp: lines_accepted_def all_accepted_def)
qed

text \<open>An entry is appended, read, accepted and checkpointed, and then a cut-off write and another append make a corrupt line
  behind it.\<close>

theorem submitter_skips_nothing_witness:
  "\<exists>x sp recs. sub_reachable example_crypto (x, sp) \<and> rn_off x = int (length (entry_line example_entry)) \<and>
     run_start True sp = rn_off x \<and> length (entry_line example_entry) < length (sp_data sp) \<and>
     read_lines 0 (take (nat (rn_off x)) (sp_data sp)) = (recs, None) \<and> last_off 0 recs = rn_off x \<and>
     (\<forall>e\<in>fst ` set recs. \<exists>s. submission_of example_crypto e = Some s \<and> (s, True) \<in> set (rn_hist x))"
proof -
  let ?e = example_entry and ?step = "sub_step example_crypto"
  let ?n = "int (length (entry_line ?e))"
  define sp0 where "sp0 = \<lparr>sp_data = [], sp_synced = 0, sp_ckpt = None\<rparr>"
  define sp1 where "sp1 = snd (Append None True sp0 ?e)"
  define sp2 where "sp2 = sp1\<lparr>sp_ckpt := Some (strconv_FormatInt ?n)\<rparr>"
  define sp3 where "sp3 = snd (Append None True (snd (Append (Some 3) False sp2 ?e)) ?e)"
  define x0 where "x0 = run_begin True sp0"
  obtain s where s: "submission_of example_crypto ?e = Some s" using example_submission by blast
  define x1 where "x1 = x0\<lparr>rn_pc := Submitting [(?e, ?n)]\<rparr>"
  define x2 where "x2 = x0\<lparr>rn_hist := [(s, True)], rn_off := ?n, rn_pc := Checkpointing []\<rparr>"
  define x3 where "x3 = x0\<lparr>rn_hist := [(s, True)], rn_off := ?n, rn_pc := Submitting []\<rparr>"
  have x0: "rn_pc x0 = Draining" "rn_off x0 = 0" "rn_hist x0 = []"
    by (simp_all add: x0_def run_begin_def run_start_def Checkpoint_def sp0_def)
  have sp1: "sp_data sp1 = entry_line ?e" "sp_ckpt sp1 = None" by (simp_all add: sp1_def sp0_def Append_def Let_def)
  have size: "length (entry_line ?e) \<le> 999" by code_simp
  have "ReadFrom ReadsAll sp1 0 = ([(?e, ?n)], None)"
    using ReadFrom_spool [of "[?e]" "[]" sp1 "[]"] example_entry_valid sp1 by simp
  then have 1: "submitter_step example_crypto agreeable (x0, sp1) = (x1, sp1)"
    by (simp add: submitter_step_def x0 x1_def agreeable_def)
  have 2: "submitter_step example_crypto agreeable (x1, sp1) = (x2, sp1)"
    using step_submit [of x1 ?e ?n "[]", OF _ s, of agreeable sp1] by (simp add: x1_def x2_def x0 agreeable_def)
  have 3: "submitter_step example_crypto agreeable (x2, sp1) = (x3, sp2)"
    using step_checkpoint [of x2 "[]"] by (simp add: x2_def x3_def sp2_def agreeable_def)
  have "?step\<^sup>*\<^sup>* sub_start (x3, sp3)"
  proof -
    have "?step (x0, sp0) (x0, sp1)" unfolding sp1_def by (rule sub_step.append)
    moreover have "?step (x0, sp1) (x1, sp1)" "?step (x1, sp1) (x2, sp1)" "?step (x2, sp1) (x3, sp2)"
      using size 1 2 3 sp1(1) by (auto intro!: sub_step.work)
    moreover have "?step (x3, sp2) (x3, snd (Append (Some 3) False sp2 ?e))"
      "?step (x3, snd (Append (Some 3) False sp2 ?e)) (x3, sp3)"
      unfolding sp3_def by (rule sub_step.append)+
    moreover have "sub_start = (x0, sp0)" by (simp add: sub_start_def x0_def sp0_def Let_def)
    ultimately show ?thesis by (auto intro: converse_rtranclp_into_rtranclp)
  qed
  then have reach: "sub_reachable example_crypto (x3, sp3)" by (simp add: sub_reachable_def)
  have data: "sp_data sp3 = entry_line ?e @ take 3 (entry_line ?e) @ entry_line ?e" "sp_ckpt sp3 = Some (strconv_FormatInt ?n)"
    by (simp_all add: sp3_def sp2_def sp1 Append_def Let_def)
  have "run_start True sp3 = ?n"
    using Checkpoint_format [OF _ data(2)] size by (simp add: run_start_def)
  moreover have "rn_off x3 = ?n" by (simp add: x3_def)
  ultimately show ?thesis
    using submitter_skips_nothing [OF reach, of "rn_off x3"] reach data(1)
    by (intro exI [of _ x3] exI [of _ sp3]) auto
qed

end
