(* ===== verification/System.thy ===== *)
theory System
  imports ApiInv LinuxBackend RunSteps
begin

text \<open>
  The running enforcer over the Linux backend: HTTP requests, packets logged to listeners, the consumer of drops
  and the submitter, interleaved at every access to shared state. A state is the shared state, what the consumer is doing, and
  the submitter, if there is one. The theory shows that every reachable state is consistent, that every state of
  the controller in it is one that theory \<open>LinuxBackend\<close> speaks about, and that no wake-up of the submitter is lost.
\<close>

section \<open>Steps\<close>

type_synonym sys = "consumer \<times> Runner option \<times> LinuxSandbox AppState"

abbreviation backend_of :: "LinuxSandbox AppState \<Rightarrow> LinuxSandbox" where
  "backend_of st \<equiv> ct_backend (st_Sandbox st)"

abbreviation set_backend :: "LinuxSandbox \<Rightarrow> LinuxSandbox AppState \<Rightarrow> LinuxSandbox AppState" where
  "set_backend b st \<equiv> st\<lparr>st_Sandbox := (st_Sandbox st)\<lparr>ct_backend := b\<rparr>\<rparr>"

text \<open>A request is served; a packet is logged to a listener that is up; the consumer takes the oldest drop of the channel,
  or does one of its other steps; the submitter does a step of its work, or wakes up by a kick or its timer (its context
  is never cancelled). The set \<open>disk\<close> has the answers that reading the spool may give.\<close>

inductive sys_step :: "Texts \<Rightarrow> kernel \<Rightarrow> Crypto \<Rightarrow> read_answer set \<Rightarrow> sys \<Rightarrow> sys \<Rightarrow> bool"
  for tx :: Texts and k :: kernel and cr :: Crypto and disk :: "read_answer set" where
  request: "sys_step tx k cr disk (pc, rn, st) (pc, rn, snd (Router tx (LinuxBackend_ops k) rq st))"
| packet: "ls_listeners (backend_of st) s \<noteq> None \<Longrightarrow> nflog_hook s now payload (backend_of st) = Some b \<Longrightarrow>
    sys_step tx k cr disk (pc, rn, st) (pc, rn, set_backend b st)"
| receive: "ls_drops (backend_of st) = d # ds \<Longrightarrow>
    consume_step cr nv d written sync_ok (Waiting, set_backend ((backend_of st)\<lparr>ls_drops := ds\<rparr>) st) = (pc', st') \<Longrightarrow>
    sys_step tx k cr disk (Waiting, rn, st) (pc', rn, st')"
| consume: "pc \<noteq> Waiting \<Longrightarrow> consume_step cr nv d written sync_ok (pc, st) = (pc', st') \<Longrightarrow>
    sys_step tx k cr disk (pc, rn, st) (pc', rn, st')"
| submit: "st_Outbox st = Some sp \<Longrightarrow> \<forall>h. w_read w h \<in> disk \<Longrightarrow> submitter_step cr w (x, sp) = (x', sp') \<Longrightarrow>
    sys_step tx k cr disk (pc, Some x, st) (pc, Some x', st\<lparr>st_Outbox := Some sp'\<rparr>)"
| wakes: "st_OutboxKick st = Some kick \<Longrightarrow> v \<noteq> Done \<Longrightarrow> run_wake v (x, kick) = Some (x', kick') \<Longrightarrow>
    sys_step tx k cr disk (pc, Some x, st) (pc, Some x', st\<lparr>st_OutboxKick := Some kick'\<rparr>)"

definition sys_start :: "Record \<Rightarrow> Spool \<Rightarrow> Runner option \<Rightarrow> sys" where
  "sys_start key sp rn = (Waiting, rn, empty_state (NewController NewLinuxSandbox) key (Some sp) (Some False))"

definition sys_reachable ::
  "Texts \<Rightarrow> kernel \<Rightarrow> Crypto \<Rightarrow> read_answer set \<Rightarrow> Record \<Rightarrow> Spool \<Rightarrow> Runner option \<Rightarrow> sys \<Rightarrow> bool" where
  "sys_reachable tx k cr disk key sp rn s \<longleftrightarrow> (sys_step tx k cr disk)\<^sup>*\<^sup>* (sys_start key sp rn) s"

section \<open>Every reachable state is consistent\<close>

lemma Router_ctrl: "(ctrl_step k)\<^sup>=\<^sup>= (st_Sandbox st) (st_Sandbox (snd (Router tx (LinuxBackend_ops k) rq st)))"
proof -
  let ?ops = "LinuxBackend_ops k"
  have c: "(ctrl_step k)\<^sup>=\<^sup>= (st_Sandbox st) (st_Sandbox (snd (createSession tx ?ops (rq_Body rq) st)))"
  proof -
    obtain r st' where eq: "createSession tx ?ops (rq_Body rq) st = (r, st')" by fastforce
    then have "(ctrl_step k)\<^sup>=\<^sup>= (st_Sandbox st) (st_Sandbox st')"
    proof (cases rule: createSession_cases)
      case (failed s cs e)
      then show ?thesis using ctrl_step.create [of k "st_Sandbox st" s cs] by simp
    next
      case (created cred cs c')
      then show ?thesis using ctrl_step.create [of k "st_Sandbox st" "cd_SessionID cred" cs] by simp
    qed simp
    then show ?thesis by (simp add: eq)
  qed
  have d: "(ctrl_step k)\<^sup>=\<^sup>= (st_Sandbox st) (st_Sandbox (snd (deleteSession ?ops s st)))" for s
  proof -
    obtain r st' where eq: "deleteSession ?ops s st = (r, st')" by fastforce
    then have "(ctrl_step k)\<^sup>=\<^sup>= (st_Sandbox st) (st_Sandbox st')"
      using ctrl_step.destroy [of k "st_Sandbox st" s]
      by (cases rule: deleteSession_cases) (simp_all add: drop_session_def)
    then show ?thesis by (simp add: eq)
  qed
  show ?thesis
  proof (cases "mux (rq_Method rq) (rq_Path rq)")
    case None
    then show ?thesis by (simp add: Router_def Let_def split: list.split)
  next
    case (Some ea)
    then obtain ep args where "mux (rq_Method rq) (rq_Path rq) = Some (ep, args)" by (cases ea) simp
    then show ?thesis using c d by (cases ep) (simp_all add: Router_def)
  qed
qed

text \<open>What the handlers leave alone: the key, the spool and the kick channel. The consumer leaves the sandbox and the key
  alone, and when it records a drop the spool and the channel too.\<close>

lemma createSession_frame:
  assumes "createSession tx ops body st = (r, st')"
  shows "st_ActiveKey st' = st_ActiveKey st \<and> st_Outbox st' = st_Outbox st \<and> st_OutboxKick st' = st_OutboxKick st"
  using assms
proof (cases rule: createSession_cases)
  case (failed s cs e)
  show ?thesis by (subst (1 2 3) failed(2)) simp
qed simp_all

lemma deleteSession_frame:
  assumes "deleteSession ops s st = (r, st')"
  shows "st_ActiveKey st' = st_ActiveKey st \<and> st_Outbox st' = st_Outbox st \<and> st_OutboxKick st' = st_OutboxKick st"
  using assms
proof (cases rule: deleteSession_cases)
  case (failed e)
  show ?thesis by (subst (1 2 3) failed(5)) simp
qed (simp_all add: drop_session_def)

lemma Router_frame:
  "st_ActiveKey (snd (Router tx ops rq st)) = st_ActiveKey st" "st_Outbox (snd (Router tx ops rq st)) = st_Outbox st"
  "st_OutboxKick (snd (Router tx ops rq st)) = st_OutboxKick st"
proof -
  note c = createSession_frame [of tx ops "rq_Body rq" st, OF prod.collapse [symmetric]]
    and d = deleteSession_frame [of ops _ st, OF prod.collapse [symmetric]]
  show "st_ActiveKey (snd (Router tx ops rq st)) = st_ActiveKey st" "st_Outbox (snd (Router tx ops rq st)) = st_Outbox st"
    "st_OutboxKick (snd (Router tx ops rq st)) = st_OutboxKick st"
    using c d
    by (cases "mux (rq_Method rq) (rq_Path rq)"; auto simp: Router_def Let_def split: list.split endpoint.split)+
qed

lemma recordDrop_frame:
  "st_Sandbox (snd (recordDrop cr nv d st)) = st_Sandbox st \<and> st_ActiveKey (snd (recordDrop cr nv d st)) = st_ActiveKey st \<and>
   st_Outbox (snd (recordDrop cr nv d st)) = st_Outbox st \<and> st_OutboxKick (snd (recordDrop cr nv d st)) = st_OutboxKick st"
proof (cases "st_Sessions st (d_SessionID d)")
  case (Some cred)
  obtain ok b where "admitLocked (nv_mono nv) (d_SessionID d) st = (ok, st\<lparr>st_buckets := (st_buckets st)(d_SessionID d \<mapsto> b)\<rparr>)"
    using admitLocked_frame by (metis prod.collapse)
  with Some show ?thesis
    by (cases ok) (simp_all add: recordDrop_def Let_def addLossLocked_def push_event_def split: sum.split)
qed (simp add: recordDrop_dead)

lemma consume_step_frame:
  assumes "consume_step cr nv d written sync_ok (pc, st) = (pc', st')"
  shows "st_Sandbox st' = st_Sandbox st \<and> st_ActiveKey st' = st_ActiveKey st"
  using assms recordDrop_frame [of cr nv d st]
  by (cases pc) (auto simp: addLossLocked_def split: option.splits prod.splits bool.splits if_splits)

lemma app_inv_outbox: "app_inv cr (st\<lparr>st_Outbox := sp\<rparr>) = app_inv cr st"
  unfolding app_inv_def using session_ok_cong [of "st\<lparr>st_Outbox := sp\<rparr>" st] by auto

lemma app_inv_kick: "app_inv cr (st\<lparr>st_OutboxKick := kick\<rparr>) = app_inv cr st"
  unfolding app_inv_def using session_ok_cong [of "st\<lparr>st_OutboxKick := kick\<rparr>" st] by auto

lemma consume_step_inv:
  assumes "ed25519_correct cr" and "key_ok cr (st_ActiveKey st)" and "app_inv cr st"
    and "consume_step cr nv d written sync_ok (pc, st) = (pc', st')"
  shows "app_inv cr st'"
proof (cases pc)
  case Waiting
  then show ?thesis
    using recordDrop_inv [OF assms(1-3), of nv d] assms(4) by (auto split: option.splits prod.splits if_splits)
qed (use assms(3,4) in
  \<open>auto simp: addLossLocked_inv app_inv_outbox app_inv_kick split: option.splits prod.splits bool.splits\<close>)

definition sys_inv :: "kernel \<Rightarrow> Crypto \<Rightarrow> Record \<Rightarrow> sys \<Rightarrow> bool" where
  "sys_inv k cr key s \<longleftrightarrow>
     (case s of (pc, rn, st) \<Rightarrow> app_inv cr st \<and> ctrl_reachable k (st_Sandbox st) \<and> st_ActiveKey st = key)"

lemma ctrl_reachable_step: "ctrl_reachable k c \<Longrightarrow> (ctrl_step k)\<^sup>=\<^sup>= c c' \<Longrightarrow> ctrl_reachable k c'"
  unfolding ctrl_reachable_def by (auto intro: rtranclp.rtrancl_into_rtrancl)

lemma sys_inv_consume:
  assumes "ed25519_correct cr" and "key_ok cr key" and "sys_inv k cr key (pc, rn, st)"
    and "consume_step cr nv d written sync_ok (pc, st) = (pc', st')"
  shows "sys_inv k cr key (pc', rn, st')"
  using consume_step_inv [OF assms(1) _ _ assms(4)] consume_step_frame [OF assms(4)] assms(2,3) by (simp add: sys_inv_def)

lemma sys_step_inv:
  assumes "ed25519_correct cr" and "key_ok cr key"
  shows "sys_step tx k cr disk s s' \<Longrightarrow> sys_inv k cr key s \<Longrightarrow> sys_inv k cr key s'"
proof (induction rule: sys_step.induct)
  case (request pc rn st rq)
  then show ?case
    using session_backend.Router_inv [OF linux.session_backend_axioms] ctrl_reachable_step [OF _ Router_ctrl]
    by (auto simp: sys_inv_def Router_frame)
next
  case (packet st s now payload b pc rn)
  then have "ctrl_step k (st_Sandbox st) ((st_Sandbox st)\<lparr>ct_backend := b\<rparr>)" by (intro ctrl_step.packet)
  with packet show ?case
    using app_inv_sandbox [of cr st "(st_Sandbox st)\<lparr>ct_backend := b\<rparr>"] ctrl_reachable_step [of k "st_Sandbox st"]
    by (auto simp: sys_inv_def)
next
  case (receive st d ds nv written sync_ok pc' st' rn)
  let ?c = "(st_Sandbox st)\<lparr>ct_backend := (backend_of st)\<lparr>ls_drops := ds\<rparr>\<rparr>"
  have "ctrl_step k (st_Sandbox st) ?c" using receive(1) by (rule ctrl_step.receive)
  with receive have "sys_inv k cr key (Waiting, rn, st\<lparr>st_Sandbox := ?c\<rparr>)"
    using app_inv_sandbox [of cr st ?c] ctrl_reachable_step [of k "st_Sandbox st" ?c] by (auto simp: sys_inv_def)
  from sys_inv_consume [OF assms this receive(2)] show ?case .
next
  case (consume pc nv d written sync_ok st pc' st' rn)
  show ?case by (rule sys_inv_consume [OF assms consume.prems consume(2)])
qed (simp_all add: sys_inv_def app_inv_outbox app_inv_kick)

lemma sys_start_inv: "sys_inv k cr key (sys_start key sp rn)"
  by (simp add: sys_inv_def sys_start_def empty_state_def app_inv_def session_ok_def NewController_def ctrl_reachable_def)

interpretation sys: step_invariant "sys_start key sp rn" "sys_step tx k cr disk"
  "\<lambda>s. ed25519_correct cr \<longrightarrow> key_ok cr key \<longrightarrow> sys_inv k cr key s" for key sp rn tx k cr disk
  by unfold_locales (use sys_start_inv sys_step_inv in blast)+

lemma sys_reachable_inv:
  assumes "ed25519_correct cr" and "key_ok cr key" and "sys_reachable tx k cr disk key sp rn s"
  shows "sys_inv k cr key s"
  using sys.reachable_inv [OF assms(3) [unfolded sys_reachable_def]] assms(1,2) by simp

section \<open>No wake-up is lost\<close>

text \<open>The offset that the submitter reaches before it waits for a kick, if nothing fails.\<close>

fun run_goal :: "Runner \<Rightarrow> run_pc \<Rightarrow> int option" where
  "run_goal x (Submitting recs) = Some (last_off (rn_off x) recs)"
| "run_goal x (Checkpointing recs) = Some (last_off (rn_off x) recs)"
| "run_goal x AwaitKick = Some (rn_off x)"
| "run_goal x _ = None"

text \<open>Unless a kick is there or about to be sent, the submitter gets past everything that was acknowledged.\<close>

definition wake_inv :: "sys \<Rightarrow> bool" where
  "wake_inv s \<longleftrightarrow>
     (case s of (pc, rn, st) \<Rightarrow>
      \<exists>x sp kick. rn = Some x \<and> st_Outbox st = Some sp \<and> st_OutboxKick st = Some kick \<and>
        sp_synced sp \<le> length (truncateTornTail (sp_data sp)) \<and>
        (kick \<or> pc = Kicking \<or> (\<forall>goal. run_goal x (rn_pc x) = Some goal \<longrightarrow> int (sp_synced sp) \<le> goal)))"

lemma Append_synced:
  assumes "Append written sync_ok sp e = (ok, sp')" and "sp_synced sp \<le> length (truncateTornTail (sp_data sp))"
  shows "sp_synced sp' \<le> length (truncateTornTail (sp_data sp')) \<and> (\<not> ok \<longrightarrow> sp_synced sp' = sp_synced sp)"
proof -
  have "length (truncateTornTail (sp_data sp @ entry_line e)) = length (sp_data sp @ entry_line e)"
    using truncateTornTail_line [of "sp_data sp @ json_encode (entry_json e)"] by (simp add: entry_line_def)
  moreover have "sp_synced sp \<le> length (truncateTornTail (sp_data sp @ t))" for t
    using assms(2) truncateTornTail_mono [of "sp_data sp" t] by (rule le_trans)
  ultimately show ?thesis
    using assms(1) by (auto simp: Append_def Let_def split: option.splits if_splits dest: meta_spec [of _ "entry_line e"])
qed

lemma wake_inv_consume:
  assumes "wake_inv (pc, rn, st)" and "consume_step cr nv d written sync_ok (pc, st) = (pc', st')"
  shows "wake_inv (pc', rn, st')"
proof (cases pc)
  case Waiting
  then have "st_Outbox st' = st_Outbox st" "st_OutboxKick st' = st_OutboxKick st"
    using assms(2) recordDrop_frame [of cr nv d st] by (auto split: prod.splits option.splits if_splits)
  with assms(1) Waiting show ?thesis by (auto simp: wake_inv_def)
next
  case (Appending d' e)
  obtain x sp kick where i: "rn = Some x" "st_Outbox st = Some sp" "st_OutboxKick st = Some kick"
    "sp_synced sp \<le> length (truncateTornTail (sp_data sp))"
    "kick \<or> (\<forall>goal. run_goal x (rn_pc x) = Some goal \<longrightarrow> int (sp_synced sp) \<le> goal)"
    using assms(1) Appending by (auto simp: wake_inv_def)
  obtain ok sp' where a: "Append written sync_ok sp e = (ok, sp')" by fastforce
  then have "pc' = (if ok then Kicking else CountLoss d')" "st' = st\<lparr>st_Outbox := Some sp'\<rparr>"
    using assms(2) Appending i(2) by (auto split: bool.splits)
  with Append_synced [OF a i(4)] i show ?thesis by (auto simp: wake_inv_def)
qed (use assms in \<open>auto simp: wake_inv_def addLossLocked_def\<close>)

lemma wake_inv_submit:
  assumes "wake_inv (pc, Some x, st)" and "st_Outbox st = Some sp" and "\<forall>h. w_read w h \<in> {ReadsAll, OpenFails}"
    and "submitter_step cr w (x, sp) = (x', sp')"
  shows "wake_inv (pc, Some x', st\<lparr>st_Outbox := Some sp'\<rparr>)"
proof -
  note same = submitter_step_data [OF assms(4)]
  have synced: "sp_synced sp \<le> length (truncateTornTail (sp_data sp))" using assms(1,2) by (auto simp: wake_inv_def)
  have "run_goal x' (rn_pc x') = Some goal \<Longrightarrow>
      int (sp_synced sp) \<le> goal \<or> run_goal x (rn_pc x) = Some goal" for goal
  proof (cases "rn_pc x")
    case Draining
    assume goal: "run_goal x' (rn_pc x') = Some goal"
    then obtain recs where r: "ReadFrom (w_read w (rn_hist x)) sp (rn_off x) = (recs, None)" "goal = last_off (rn_off x) recs"
      using Draining assms(4) by (auto simp: submitter_step_def split: prod.splits option.splits)
    then have "w_read w (rn_hist x) = ReadsAll" using assms(3) by (auto simp: ReadFrom_def)
    with ReadFrom_end [of sp "rn_off x" recs] r synced show ?thesis by auto
  qed (use assms(4) in \<open>auto simp: submitter_step_def Let_def
      split: list.splits prod.splits sum.splits if_splits bool.splits\<close>)
  with assms(1,2) same show ?thesis by (auto simp: wake_inv_def)
qed

lemma wake_inv_step:
  assumes "disk \<subseteq> {ReadsAll, OpenFails}"
  shows "sys_step tx k cr disk s s' \<Longrightarrow> wake_inv s \<Longrightarrow> wake_inv s'"
proof (induction rule: sys_step.induct)
  case (receive st d ds nv written sync_ok pc' st' rn)
  then have "wake_inv (Waiting, rn, set_backend ((backend_of st)\<lparr>ls_drops := ds\<rparr>) st)" by (simp add: wake_inv_def)
  from wake_inv_consume [OF this receive(2)] show ?case .
next
  case (consume pc nv d written sync_ok st pc' st' rn)
  then show ?case using wake_inv_consume by blast
next
  case (submit st sp w x x' sp' pc)
  then show ?case using wake_inv_submit [OF submit.prems submit(1) _ submit(3)] assms by blast
next
  case (wakes st kick v x x' kick' pc)
  then show ?case by (cases v) (auto simp: wake_inv_def split: if_splits)
qed (simp_all add: wake_inv_def Router_frame)

interpretation wake: step_invariant "sys_start key sp (Some (run_begin readable sp))" "sys_step tx k cr disk"
  "\<lambda>s. disk \<subseteq> {ReadsAll, OpenFails} \<longrightarrow> sp_synced sp \<le> length (truncateTornTail (sp_data sp)) \<longrightarrow> wake_inv s"
  for key sp readable tx k cr disk
proof unfold_locales
  show "disk \<subseteq> {ReadsAll, OpenFails} \<longrightarrow> sp_synced sp \<le> length (truncateTornTail (sp_data sp)) \<longrightarrow>
      wake_inv (sys_start key sp (Some (run_begin readable sp)))"
    by (auto simp: wake_inv_def sys_start_def empty_state_def run_begin_def)
qed (use wake_inv_step in blast)

section \<open>Properties\<close>

text \<open>C3: In every reachable state of the running enforcer, whatever the order of requests, packets, consumer and submitter,
  the same sessions have a credential, a list of events, an active sandbox and an uplink index, and only they
  have a bucket; the credential is stored under its own identifier; a session keeps at most 256 events, each of
  which names the session, its agent and the configured key, and verifies under that key.\<close>

theorem system_consistent:
  assumes "ed25519_correct cr" and "key_ok cr key" and "sys_reachable tx k cr disk key sp rn (pc, rn', st)"
  shows "dom (st_Sessions st) = ct_active (st_Sandbox st) \<and> dom (st_Events st) = dom (st_Sessions st) \<and>
    dom (ua_bySession (ls_uplinks (backend_of st))) = dom (st_Sessions st) \<and>
    dom (st_buckets st) \<subseteq> dom (st_Sessions st) \<and> st_ActiveKey st = key \<and>
    (\<forall>s cred evs. st_Sessions st s = Some cred \<longrightarrow> st_Events st s = Some evs \<longrightarrow>
       cd_SessionID cred = s \<and> length evs \<le> 256 \<and>
       (\<forall>e\<in>set evs. ev_SessionID e = s \<and> ev_AgentID e = cd_AgentID cred \<and> ev_AttesterKeyID e = sk_keyID key \<and>
          Verify cr e (VerifyingKey key)))"
proof -
  have inv: "app_inv cr st" "ctrl_reachable k (st_Sandbox st)" "st_ActiveKey st = key"
    using sys_reachable_inv [OF assms] by (simp_all add: sys_inv_def)
  have ok: "session_ok cr st s" for s using inv(1) by (simp add: app_inv_def)
  have "st_Events st s = None \<longleftrightarrow> st_Sessions st s = None" "st_Sessions st s = None \<Longrightarrow> st_buckets st s = None" for s
    using ok [of s] by (auto simp: session_ok_def split: option.splits)
  then have doms: "dom (st_Events st) = dom (st_Sessions st)" "dom (st_buckets st) \<subseteq> dom (st_Sessions st)"
    by (auto simp: dom_def) (metis not_None_eq)
  have events: "cd_SessionID cred = s \<and> length evs \<le> 256 \<and>
       (\<forall>e\<in>set evs. ev_SessionID e = s \<and> ev_AgentID e = cd_AgentID cred \<and> ev_AttesterKeyID e = sk_keyID key \<and>
          Verify cr e (VerifyingKey key))" if "st_Sessions st s = Some cred" "st_Events st s = Some evs" for s cred evs
    using ok [of s] that inv(3) by (auto simp: session_ok_def event_ok_def eventsCap_def)
  have "linux_inv (ct_active (st_Sandbox st)) (backend_of st)" by (rule ctrl_reachable_inv [OF inv(2)])
  then show ?thesis
    using inv doms events by (simp add: app_inv_def linux_inv_def)
qed

definition empty_spool :: Spool where
  "empty_spool = \<lparr>sp_data = [], sp_synced = 0, sp_ckpt = None\<rparr>"

lemma example_key_ok: "key_ok example_crypto example_key"
  by (auto simp: example_key_def key_ok_def intro: exI [of _ "replicate 32 7"])

text \<open>A session that is created on a kernel where nothing fails.\<close>

lemma plain_create_session:
  "\<exists>r st'. createSession example_texts (LinuxBackend_ops plain_kernel) (json_encode (credential_json example_cred))
     (empty_state (NewController NewLinuxSandbox) example_key sp kick) = (r, st') \<and>
     hr_Status r = 201 \<and> st_Sessions st' ''s-1'' = Some example_cred"
proof -
  obtain w where w: "decode_wire (json_encode (credential_json example_cred) @ []) = Some w" "credential w = Some example_cred"
    using decode_credential [OF example_cred_valid] by metis
  have cred: "cd_SessionID example_cred = ''s-1''" "rmap Parse (cd_Targets example_cred) = Inr [\<lparr>c_addr = V4 0x0A000000, c_prefixLen = 24\<rparr>]"
    by (simp_all add: example_cred_def Parse_example)
  obtain b where "Create plain_kernel ''s-1'' [\<lparr>c_addr = V4 0x0A000000, c_prefixLen = 24\<rparr>] NewLinuxSandbox = (None, b)"
    using plain_create by blast
  then show ?thesis
    using w by (simp add: createSession_def cred CreateSandbox_def LinuxBackend_ops_def NewController_def empty_state_def
        status_simps)
qed

text \<open>The state after one request that creates a session.\<close>

theorem system_consistent_witness:
  "let st = snd (Router example_texts (LinuxBackend_ops plain_kernel)
        \<lparr>rq_Method = ''POST'', rq_Path = [''sessions''], rq_Body = json_encode (credential_json example_cred)\<rparr>
        (snd (snd (sys_start example_key empty_spool None))))
   in dom (st_Events st) = ct_active (st_Sandbox st)"
proof -
  let ?st = "snd (Router example_texts (LinuxBackend_ops plain_kernel)
        \<lparr>rq_Method = ''POST'', rq_Path = [''sessions''], rq_Body = json_encode (credential_json example_cred)\<rparr>
        (snd (snd (sys_start example_key empty_spool None))))"
  have "sys_reachable example_texts plain_kernel example_crypto {} example_key empty_spool None (Waiting, None, ?st)"
    unfolding sys_reachable_def
    by (rule r_into_rtranclp) (simp add: sys_start_def sys_step.request)
  from system_consistent [OF example_ed25519 example_key_ok this] show ?thesis by (simp add: Let_def)
qed

text \<open>C9: No wake-up is lost between the drop consumer and the submitter, whatever their interleaving: if the submitter waits
  for a kick, none is in the channel and none is about to be sent, then every acknowledged entry is before its offset. Reading
  the spool may fail to open the file but not in the middle of it.\<close>

theorem no_lost_wakeup:
  assumes "sys_reachable tx k cr disk key sp (Some (run_begin readable sp)) (pc, rn, st)"
    and "disk \<subseteq> {ReadsAll, OpenFails}" and "sp_synced sp \<le> length (truncateTornTail (sp_data sp))"
  shows "\<exists>x sp'. rn = Some x \<and> st_Outbox st = Some sp' \<and> sp_synced sp' \<le> length (sp_data sp') \<and>
    (rn_pc x = AwaitKick \<longrightarrow> st_OutboxKick st = Some False \<longrightarrow> pc \<noteq> Kicking \<longrightarrow> int (sp_synced sp') \<le> rn_off x)"
proof -
  have "wake_inv (pc, rn, st)"
    using wake.reachable_inv [OF assms(1) [unfolded sys_reachable_def]] assms(2,3) by simp
  then obtain x sp' kick where i: "rn = Some x" "st_Outbox st = Some sp'" "st_OutboxKick st = Some kick"
    "sp_synced sp' \<le> length (truncateTornTail (sp_data sp'))"
    "kick \<or> pc = Kicking \<or> (\<forall>goal. run_goal x (rn_pc x) = Some goal \<longrightarrow> int (sp_synced sp') \<le> goal)"
    by (auto simp: wake_inv_def)
  moreover from this(4) have "sp_synced sp' \<le> length (sp_data sp')" using truncateTornTail_length by (rule le_trans)
  ultimately show ?thesis by auto
qed

lemma Create_keeps_drops: "ls_drops (snd (Create k s cs b)) = ls_drops b"
  using Create_runs [of s cs b k] by cases simp_all

lemma Destroy_keeps_drops: "ls_drops (snd (Destroy k s b)) = ls_drops b"
  using Destroy_runs [of b s k] by (auto split: if_splits)

text \<open>Runs for the example: a turn of the submitter in which nothing fails, a request that makes a session, and the way of a packet
  through listener and consumer into the spool.\<close>

lemma submitter_runs:
  assumes "st_Outbox st = Some sp" and "\<forall>h. w_read w h \<in> disk" and "(submitter_step cr w ^^ n) (x, sp) = (x', sp')"
  shows "(sys_step tx k cr disk)\<^sup>*\<^sup>* (pc, Some x, st) (pc, Some x', st\<lparr>st_Outbox := Some sp'\<rparr>) \<and>
    sp_data sp' = sp_data sp \<and> sp_synced sp' = sp_synced sp"
  using assms(3)
proof (induction n arbitrary: x' sp')
  case 0
  have "st\<lparr>st_Outbox := Some sp\<rparr> = st" unfolding assms(1) [symmetric] by simp
  with 0 show ?case by simp
next
  case (Suc n)
  obtain y spy where y: "(submitter_step cr w ^^ n) (x, sp) = (y, spy)" by fastforce
  with Suc.prems have step: "submitter_step cr w (y, spy) = (x', sp')" by simp
  have "sys_step tx k cr disk (pc, Some y, st\<lparr>st_Outbox := Some spy\<rparr>) (pc, Some x', st\<lparr>st_Outbox := Some sp'\<rparr>)"
    using sys_step.submit [of "st\<lparr>st_Outbox := Some spy\<rparr>" spy, OF _ assms(2) step] by simp
  then show ?case
    using Suc.IH [OF y] submitter_step_data [OF step] by (auto intro: rtranclp.rtrancl_into_rtrancl)
qed

lemma submitter_turn:
  assumes "rn_pc x = Draining" and "st_Outbox st = Some sp" and "sp_data sp = spool_text es @ spool_text fs"
    and "rn_off x = int (length (spool_text es))" and "list_all valid_entry fs" and "\<forall>e\<in>set fs. submission_of cr e \<noteq> None"
  shows "\<exists>y sp'. (sys_step tx k cr {ReadsAll})\<^sup>*\<^sup>* (pc, Some x, st) (pc, Some y, st\<lparr>st_Outbox := Some sp'\<rparr>) \<and>
    rn_pc y = AwaitKick \<and> rn_off y = int (length (sp_data sp)) \<and> sp_data sp' = sp_data sp \<and> sp_synced sp' = sp_synced sp"
proof -
  have w: "\<forall>h. w_read agreeable h \<in> {ReadsAll}" "\<forall>h s. w_log agreeable h s" "\<forall>h n. w_fs agreeable h n"
    "w_read agreeable h = ReadsAll" for h by (simp_all add: agreeable_def)
  have "ReadFrom ReadsAll sp (rn_off x) = (records_from (rn_off x) fs, None)"
    using ReadFrom_spool [OF assms(5), of "[]" sp es] assms(3,4) by simp
  moreover obtain sp' where "drain_loop cr agreeable (records_from (rn_off x) fs) (rn_off x) (sp, rn_hist x) =
      ((rn_off x + int (length (spool_text fs)), True), sp', rn_hist x @ accepted cr fs)"
    using drain_loop_all [OF w(2,3) assms(6)] by blast
  ultimately have "run_turn cr agreeable (rn_off x, rn_backoff x) (sp, rn_hist x) =
      ((rn_off x + int (length (spool_text fs)), backoffMin, False), sp', rn_hist x @ accepted cr fs)"
    by (simp add: run_turn_def drainOnce_def w(4))
  from run_steps_compute_turn [OF assms(1) this] obtain n y where
    y: "(submitter_step cr agreeable ^^ n) (x, sp) = (y, sp')" "rn_off y = rn_off x + int (length (spool_text fs))"
      "run_wake Kick (y, True) = Some (y\<lparr>rn_pc := Draining\<rparr>, False)"
    by auto
  have "rn_pc y = AwaitKick" using y(3) by (simp split: if_splits)
  moreover have "rn_off y = int (length (sp_data sp))" using y(2) assms(3,4) by simp
  ultimately show ?thesis using submitter_runs [OF assms(2) w(1) y(1), of tx k pc] by blast
qed

lemma example_session_runs:
  "\<exists>st. (sys_step example_texts plain_kernel cr disk) (pc, rn, empty_state (NewController NewLinuxSandbox) example_key sp kick) (pc, rn, st) \<and>
     st_Sessions st ''s-1'' = Some example_cred \<and> st_buckets st = Map.empty \<and> st_ActiveKey st = example_key \<and>
     st_Outbox st = sp \<and> st_OutboxKick st = kick \<and> ls_listeners (backend_of st) ''s-1'' \<noteq> None \<and> ls_drops (backend_of st) = []"
proof -
  let ?st = "empty_state (NewController NewLinuxSandbox) example_key sp kick"
  let ?rq = "\<lparr>rq_Method = ''POST'', rq_Path = [''sessions''], rq_Body = json_encode (credential_json example_cred)\<rparr>"
  obtain r st' where c: "createSession example_texts (LinuxBackend_ops plain_kernel) (rq_Body ?rq) ?st = (r, st')"
    "hr_Status r = 201" "st_Sessions st' ''s-1'' = Some example_cred"
    using plain_create_session [of sp kick] by auto
  have "mux ''POST'' [''sessions''] = Some (CreateSession, [])" by (simp add: mux_def routes_def)
  then have st': "snd (Router example_texts (LinuxBackend_ops plain_kernel) ?rq ?st) = st'" using c(1) by (simp add: Router_def)
  from c(1) show ?thesis
  proof (cases rule: createSession_cases)
    case (created cred cs c')
    have s: "cd_SessionID cred = ''s-1''"
      using c(3) created(5) by (auto simp: empty_state_def split: if_splits)
    have ctrl: "CreateSandbox (LinuxBackend_ops plain_kernel) (NewController NewLinuxSandbox) ''s-1'' cs = (None, c')"
      using created(1) s by (simp add: empty_state_def)
    have b: "Create plain_kernel ''s-1'' cs NewLinuxSandbox = (None, ct_backend c')"
      using ctrl by (auto simp: CreateSandbox_def LinuxBackend_ops_def NewController_def split: if_splits prod.splits option.splits)
    have "ls_drops (ct_backend c') = []"
      using Create_keeps_drops [of plain_kernel "''s-1''" cs NewLinuxSandbox] unfolding b by (simp add: NewLinuxSandbox_def)
    moreover have "ls_listeners (ct_backend c') ''s-1'' \<noteq> None"
      using Create_runs [of "''s-1''" cs NewLinuxSandbox plain_kernel] unfolding b by cases simp
    moreover have "sys_step example_texts plain_kernel cr disk (pc, rn, ?st) (pc, rn, st')"
      using sys_step.request [of example_texts plain_kernel cr disk pc rn ?st ?rq] unfolding st' .
    ultimately show ?thesis using created(5) c(3) by (intro exI [of _ st']) (simp add: empty_state_def)
  qed (use c(2) in simp_all)
qed

text \<open>An ICMP packet without options.\<close>

definition example_payload :: "byte list" where
  "example_payload = [0x45, 0, 0, 0, 0, 0, 0, 0, 0, 1, 0, 0, 10, 0, 0, 2, 203, 0, 113, 7]"

lemma example_payload_parsed: "\<exists>f. parseDropPayload example_payload = Some (Some f) \<and> df_proto f = ''icmp''"
proof -
  have "map_option (map_option df_proto) (parseDropPayload example_payload) = Some (Some ''icmp'')" by code_simp
  then show ?thesis by auto
qed

lemma example_packet_runs:
  assumes "st_Sessions st ''s-1'' = Some example_cred" and "st_buckets st = Map.empty" and "st_ActiveKey st = example_key"
    and "st_Outbox st = Some sp" and "st_OutboxKick st = Some kick" and "ls_listeners (backend_of st) ''s-1'' \<noteq> None"
    and "ls_drops (backend_of st) = []"
  shows "\<exists>st' e. (sys_step tx k example_crypto disk)\<^sup>*\<^sup>* (Waiting, rn, st) (Waiting, rn, st') \<and> valid_entry e \<and>
    submission_of example_crypto e \<noteq> None \<and> st_OutboxKick st' = Some True \<and>
    st_Outbox st' = Some (sp\<lparr>sp_data := sp_data sp @ entry_line e, sp_synced := length (sp_data sp @ entry_line e)\<rparr>)"
proof -
  let ?step = "sys_step tx k example_crypto disk"
  obtain f where f: "parseDropPayload example_payload = Some (Some f)" "df_proto f = ''icmp''" using example_payload_parsed by blast
  define d where "d = \<lparr>d_SessionID = ''s-1'', d_SrcIP = df_src f, d_DstIP = df_dst f, d_DstPort = df_port f, d_Proto = df_proto f, d_At = 0\<rparr>"
  define st1 where "st1 = set_backend ((backend_of st)\<lparr>ls_drops := [d]\<rparr>) st"
  have "nflog_hook ''s-1'' 0 (Some example_payload) (backend_of st) = Some ((backend_of st)\<lparr>ls_drops := [d]\<rparr>)"
    using f(1) assms(7) by (simp add: nflog_hook_def d_def drops_cap_def Let_def)
  with assms(6) have 1: "?step (Waiting, rn, st) (Waiting, rn, st1)" unfolding st1_def by (rule sys_step.packet)
  define st2 where "st2 = set_backend ((backend_of st1)\<lparr>ls_drops := []\<rparr>) st1"
  have st2: "st_Sessions st2 (d_SessionID d) = Some example_cred" "st_buckets st2 (d_SessionID d) = None"
    "st_ActiveKey st2 = example_key" "st_Outbox st2 = Some sp" "st_OutboxKick st2 = Some kick"
    using assms by (simp_all add: st1_def st2_def d_def)
  obtain e st3 where r: "recordDrop example_crypto example_env d st2 = (Some e, st3)"
  proof -
    obtain r st3 where "recordDrop example_crypto example_env d st2 = (r, st3)" by fastforce
    with that fresh_admitted [OF st2(2)] show thesis by (cases rule: recordDrop_cases [OF example_jcs st2(1)]) auto
  qed
  have st3: "st_Outbox st3 = Some sp" "st_OutboxKick st3 = Some kick"
    using recordDrop_frame [of example_crypto example_env d st2] r st2 by simp_all
  have valid: "valid_entry e"
    using recorded_entry_valid [OF example_jcs st2(1) r] st2(3) f(2)
    by (simp add: d_def example_env_def example_key_def example_cred_def ascii_valid)
  have sub: "submission_of example_crypto e \<noteq> None"
    using recordDrop_entry [OF example_ed25519 example_jcs _ r] example_key_ok st2(3) by (auto simp: submission_of_def)
  define sp' where "sp' = sp\<lparr>sp_data := sp_data sp @ entry_line e, sp_synced := length (sp_data sp @ entry_line e)\<rparr>"
  have append: "Append None True sp e = (True, sp')" by (simp add: Append_def sp'_def Let_def)
  have 2: "?step (Waiting, rn, st1) (Appending d e, rn, st3)"
    using sys_step.receive [of st1 d "[]" example_crypto example_env None True "Appending d e" st3] r st3(1)
    by (simp add: st1_def st2_def)
  have 3: "?step (Appending d e, rn, st3) (Kicking, rn, st3\<lparr>st_Outbox := Some sp'\<rparr>)"
    using sys_step.consume [of "Appending d e" example_crypto example_env d None True st3] append st3(1) by simp
  have 4: "?step (Kicking, rn, st3\<lparr>st_Outbox := Some sp'\<rparr>) (Waiting, rn, st3\<lparr>st_Outbox := Some sp', st_OutboxKick := Some True\<rparr>)"
    using sys_step.consume [of Kicking example_crypto example_env d None True "st3\<lparr>st_Outbox := Some sp'\<rparr>"] st3(2) by simp
  have "?step\<^sup>*\<^sup>* (Waiting, rn, st) (Waiting, rn, st3\<lparr>st_Outbox := Some sp', st_OutboxKick := Some True\<rparr>)"
    using 1 2 3 4 by (meson converse_rtranclp_into_rtranclp r_into_rtranclp)
  with valid sub show ?thesis by (intro exI [of _ "st3\<lparr>st_Outbox := Some sp', st_OutboxKick := Some True\<rparr>"] exI [of _ e]) (simp add: sp'_def)
qed

text \<open>The submitter reads the empty spool and waits; a session is made, one of its packets is dropped, signed and spooled; the kick
  wakes the submitter, which submits the entry and waits again.\<close>

theorem no_lost_wakeup_witness:
  "\<exists>x st sp e. sys_reachable example_texts plain_kernel example_crypto {ReadsAll} example_key empty_spool
       (Some (run_begin True empty_spool)) (Waiting, Some x, st) \<and> rn_pc x = AwaitKick \<and> st_OutboxKick st = Some False \<and>
     st_Outbox st = Some sp \<and> sp_synced sp = length (entry_line e) \<and> int (sp_synced sp) \<le> rn_off x"
proof -
  let ?step = "sys_step example_texts plain_kernel example_crypto {ReadsAll}" and ?x = "run_begin True empty_spool"
  let ?st = "empty_state (NewController NewLinuxSandbox) example_key (Some empty_spool) (Some False)"
  obtain y sp0 where y: "?step\<^sup>*\<^sup>* (Waiting, Some ?x, ?st) (Waiting, Some y, ?st\<lparr>st_Outbox := Some sp0\<rparr>)" "rn_pc y = AwaitKick"
      "rn_off y = 0" "sp_data sp0 = []" "sp_synced sp0 = 0"
    using submitter_turn [of ?x ?st empty_spool "[]" "[]" example_crypto example_texts plain_kernel Waiting]
    by (auto simp: run_begin_def run_start_def Checkpoint_def empty_spool_def empty_state_def)
  have "?st\<lparr>st_Outbox := Some sp0\<rparr> = empty_state (NewController NewLinuxSandbox) example_key (Some sp0) (Some False)"
    by (simp add: empty_state_def)
  with example_session_runs [of example_crypto "{ReadsAll}" Waiting "Some y" "Some sp0" "Some False"] obtain st1 where
    1: "?step (Waiting, Some y, ?st\<lparr>st_Outbox := Some sp0\<rparr>) (Waiting, Some y, st1)" "st_Sessions st1 ''s-1'' = Some example_cred"
      "st_buckets st1 = Map.empty" "st_ActiveKey st1 = example_key" "st_Outbox st1 = Some sp0" "st_OutboxKick st1 = Some False"
      "ls_listeners (backend_of st1) ''s-1'' \<noteq> None" "ls_drops (backend_of st1) = []"
    by auto
  obtain st2 e where 2: "?step\<^sup>*\<^sup>* (Waiting, Some y, st1) (Waiting, Some y, st2)" "valid_entry e" "submission_of example_crypto e \<noteq> None"
      "st_OutboxKick st2 = Some True"
      "st_Outbox st2 = Some (sp0\<lparr>sp_data := entry_line e, sp_synced := length (entry_line e)\<rparr>)"
    using example_packet_runs [OF 1(2-8), of example_texts plain_kernel "{ReadsAll}" "Some y"] y(4) by auto
  let ?z = "y\<lparr>rn_pc := Draining\<rparr>" and ?st3 = "st2\<lparr>st_OutboxKick := Some False\<rparr>"
  have 3: "?step (Waiting, Some y, st2) (Waiting, Some ?z, ?st3)"
    using sys_step.wakes [OF 2(4), of Kick y ?z False] y(2) by simp
  obtain x sp where x: "?step\<^sup>*\<^sup>* (Waiting, Some ?z, ?st3) (Waiting, Some x, ?st3\<lparr>st_Outbox := Some sp\<rparr>)" "rn_pc x = AwaitKick"
      "sp_synced sp = length (entry_line e)"
    using submitter_turn [of ?z ?st3 _ "[]" "[e]" example_crypto example_texts plain_kernel Waiting] 2 y(3) by auto
  have run: "?step\<^sup>*\<^sup>* (sys_start example_key empty_spool (Some ?x)) (Waiting, Some x, ?st3\<lparr>st_Outbox := Some sp\<rparr>)"
    unfolding sys_start_def using y(1) 1(1) 2(1) 3 x(1) by (meson converse_rtranclp_into_rtranclp rtranclp_trans)
  have "int (sp_synced sp) \<le> rn_off x"
    using no_lost_wakeup [OF run [folded sys_reachable_def]] x(2) by (auto simp: empty_spool_def)
  with run [folded sys_reachable_def] x(2,3) show ?thesis by (intro exI [of _ x] exI [of _ "?st3\<lparr>st_Outbox := Some sp\<rparr>"]) auto
qed

text \<open>C38: A loss can be charged to the wrong session. The consumer counts a failed append after it has released the lock; if the
  session is deleted in between, the count survives the deletion, and a session created later under the same
  identifier starts with one lost event although nothing of it was lost.\<close>

theorem stale_loss_survives_delete:
  assumes "deleteSession ops (d_SessionID d) st = (r1, st1)" and "hr_Status r1 = 204"
    and "consume_step cr nv d' written sync_ok (CountLoss d, st1) = (pc, st2)"
    and "createSession tx ops body st2 = (r3, st3)" and "hr_Status r3 = 201"
    and "st_Sessions st3 (d_SessionID d) = Some cred"
  shows "st_Sessions st2 (d_SessionID d) = None \<and> st_EventLosses st2 (d_SessionID d) = Some 1 \<and>
    st_Events st3 (d_SessionID d) = Some [] \<and> loss_count (st_EventLosses st3) (d_SessionID d) = 1"
proof -
  let ?s = "d_SessionID d"
  have st1: "st_Sessions st1 ?s = None" "st_EventLosses st1 ?s = None"
    using assms(1,2) by (cases rule: deleteSession_cases; auto simp: WriteHeader_def drop_session_def)+
  have st2: "st2 = addLossLocked ?s 1 st1" using assms(3) by simp
  then have loss: "st_Sessions st2 ?s = None" "st_EventLosses st2 ?s = Some 1"
    using st1 by (simp_all add: addLossLocked_def loss_count_def)
  have "st_EventLosses st3 = st_EventLosses st2 \<and> st_Events st3 ?s = Some []"
    using assms(4)
  proof (cases rule: createSession_cases)
    case (created cred' cs c')
    then have "?s = cd_SessionID cred'" using assms(6) loss(1) by (auto split: if_splits)
    with created show ?thesis by simp
  next
    case same
    then show ?thesis using assms(6) loss(1) by simp
  next
    case (failed s cs e)
    have "st_Sessions st3 = st_Sessions st2" by (subst failed(2)) simp
    then show ?thesis using assms(6) loss(1) by simp
  qed
  with loss show ?thesis by (simp add: loss_count_def)
qed

lemma example_create:
  assumes "st_Sessions st ''s-1'' = None" and "''s-1'' \<notin> ct_active (st_Sandbox st)"
  shows "\<exists>r st'. createSession example_texts NoopBackend (json_encode (credential_json example_cred)) st = (r, st') \<and>
    hr_Status r = 201 \<and> st_Sessions st' ''s-1'' = Some example_cred"
proof -
  obtain w where w: "decode_wire (json_encode (credential_json example_cred) @ []) = Some w" "credential w = Some example_cred"
    using decode_credential [OF example_cred_valid] by metis
  have cred: "cd_SessionID example_cred = ''s-1''" "rmap Parse (cd_Targets example_cred) = Inr [\<lparr>c_addr = V4 0x0A000000, c_prefixLen = 24\<rparr>]"
    by (simp_all add: example_cred_def Parse_example)
  show ?thesis
    using w assms by (simp add: createSession_def cred CreateSandbox_def NoopBackend_def writeJSON_def)
qed

theorem stale_loss_survives_delete_witness:
  "\<exists>st1 st2 st3 r. st1 = snd (deleteSession NoopBackend ''s-1'' example_state) \<and>
     consume_step example_crypto example_env example_drop None True (CountLoss example_drop, st1) = (Waiting, st2) \<and>
     createSession example_texts NoopBackend (json_encode (credential_json example_cred)) st2 = (r, st3) \<and>
     loss_count (st_EventLosses st3) ''s-1'' = 1"
proof -
  obtain r1 st1 where 1: "deleteSession NoopBackend ''s-1'' example_state = (r1, st1)" by fastforce
  then have del: "hr_Status r1 = 204" "st_Sessions st1 ''s-1'' = None" "''s-1'' \<notin> ct_active (st_Sandbox st1)"
    by (auto simp: deleteSession_def DestroySandbox_def NoopBackend_def example_state_def empty_state_def
        WriteHeader_def drop_session_def)
  let ?st2 = "addLossLocked ''s-1'' 1 st1"
  have 2: "consume_step example_crypto example_env example_drop None True (CountLoss example_drop, st1) = (Waiting, ?st2)"
    by (simp add: example_drop_def)
  obtain r st3 where 3: "createSession example_texts NoopBackend (json_encode (credential_json example_cred)) ?st2 = (r, st3)"
      "hr_Status r = 201" "st_Sessions st3 ''s-1'' = Some example_cred"
    using example_create [of ?st2] del by (auto simp: addLossLocked_def)
  have "d_SessionID example_drop = ''s-1''" by (simp add: example_drop_def)
  with stale_loss_survives_delete [of NoopBackend example_drop example_state r1 st1, OF _ _ 2 3(1,2)] 1 2 3 del
  show ?thesis by auto
qed

text \<open>C37: A breach can be attributed to the wrong agent. Tearing a sandbox down leaves its drops in the channel; if the session
  is created again before they are consumed, the consumer signs them as breaches of the new credential's agent.\<close>

theorem stale_drop_signed_for_successor:
  assumes "jcs_faithful cr" and "deleteSession ops (d_SessionID d) st = (r1, st1)" and "hr_Status r1 = 204"
    and "createSession tx ops body st1 = (r2, st2)" and "hr_Status r2 = 201"
    and "st_Sessions st2 (d_SessionID d) = Some cred"
  shows "ls_drops (snd (Destroy k (d_SessionID d) b)) = ls_drops b \<and>
    ls_drops (snd (Create k (d_SessionID d) cs b)) = ls_drops b \<and>
    (\<exists>e st3. recordDrop cr nv d st2 = (Some e, st3) \<and> ev_SessionID (en_Event e) = d_SessionID d \<and>
       ev_AgentID (en_Event e) = cd_AgentID cred)"
proof -
  let ?s = "d_SessionID d"
  have st1: "st_Sessions st1 ?s = None" "st_buckets st1 ?s = None"
    using assms(2,3) by (cases rule: deleteSession_cases; auto simp: WriteHeader_def drop_session_def)+
  have "st_buckets st2 = st_buckets st1"
    using assms(4)
  proof (cases rule: createSession_cases)
    case (failed s cs e)
    show ?thesis by (subst failed(2)) simp
  qed simp_all
  then have admitted: "fst (admitLocked (nv_mono nv) ?s st2)" using st1 by (intro fresh_admitted) simp
  obtain r st3 where r: "recordDrop cr nv d st2 = (r, st3)" by fastforce
  have "\<exists>e. r = Some e \<and> ev_SessionID (en_Event e) = ?s \<and> ev_AgentID (en_Event e) = cd_AgentID cred"
  proof (cases rule: recordDrop_cases [OF assms(1,6) r])
    case (1 b)
    then show ?thesis using admitted by blast
  next
    case (2 b sig reduced ev)
    then show ?thesis by (simp add: New_def)
  qed
  with r show ?thesis by (simp add: Create_keeps_drops Destroy_keeps_drops)
qed

text \<open>The first session is of agent \<^verbatim>\<open>a-0\<close>, the second one of agent \<^verbatim>\<open>a-1\<close>.\<close>

theorem stale_drop_signed_for_successor_witness:
  "\<exists>st st1 st2 r e st3. map_option cd_AgentID (st_Sessions st ''s-1'') = Some ''a-0'' \<and>
     st1 = snd (deleteSession NoopBackend ''s-1'' st) \<and>
     createSession example_texts NoopBackend (json_encode (credential_json example_cred)) st1 = (r, st2) \<and>
     recordDrop example_crypto example_env example_drop st2 = (Some e, st3) \<and> ev_AgentID (en_Event e) = ''a-1''"
proof -
  define st where "st = example_state\<lparr>st_Sessions := [''s-1'' \<mapsto> example_cred\<lparr>cd_AgentID := ''a-0''\<rparr>]\<rparr>"
  obtain r1 st1 where 1: "deleteSession NoopBackend ''s-1'' st = (r1, st1)" by fastforce
  then have del: "hr_Status r1 = 204" "st_Sessions st1 ''s-1'' = None" "''s-1'' \<notin> ct_active (st_Sandbox st1)"
    by (auto simp: deleteSession_def DestroySandbox_def NoopBackend_def st_def example_state_def empty_state_def
        WriteHeader_def drop_session_def)
  obtain r st2 where 2: "createSession example_texts NoopBackend (json_encode (credential_json example_cred)) st1 = (r, st2)"
      "hr_Status r = 201" "st_Sessions st2 ''s-1'' = Some example_cred"
    using example_create [OF del(2,3)] by auto
  have "d_SessionID example_drop = ''s-1''" by (simp add: example_drop_def)
  then obtain e st3 where "recordDrop example_crypto example_env example_drop st2 = (Some e, st3)"
      "ev_AgentID (en_Event e) = cd_AgentID example_cred"
    using stale_drop_signed_for_successor [OF example_jcs, of NoopBackend example_drop st r1 st1, OF _ _ 2(1,2),
        of example_cred plain_kernel NewLinuxSandbox "[]" example_env] 1 2(3) del(1) by auto
  moreover have "cd_AgentID example_cred = ''a-1''" by (simp add: example_cred_def)
  moreover have "map_option cd_AgentID (st_Sessions st ''s-1'') = Some ''a-0''" by (simp add: st_def)
  ultimately show ?thesis using 1 2(1) by auto
qed

end
