(* ===== verification/Config.thy ===== *)
theory Config
  imports Attest
begin

text \<open>
  Package \<^verbatim>\<open>config\<close> (\<^verbatim>\<open>enforcer/internal/config/config.go\<close>): the configuration read from the environment.
  The environment is a partial function, the clock an argument (a loaded key records when it was
  loaded). An error holds the values its text is made of. The theory shows exactly which environments
  are accepted and what configuration they give.
\<close>

datatype invalid_msg =
    NotBase64url b64_error
  | WrongKeyLength nat
  | BadSigningKey string
  | BadPort string
  | EmptyOutbox

datatype config_error = MissingError string | InvalidError invalid_msg

record Config =
  cfg_SigningKey :: Record
  cfg_Port :: u16
  cfg_SocketPath :: string
  cfg_OutboxPath :: string
  cfg_RekorURL :: string

definition parsePort :: "string \<Rightarrow> config_error + u16" where
  "parsePort s =
     (case strconv_ParseUint (strings_TrimPrefix s ''+'') 32 of
        Inl _ \<Rightarrow> Inl (InvalidError (BadPort s))
      | Inr p \<Rightarrow> if 65535 < p then Inl (InvalidError (BadPort s)) else Inr (of_nat p))"

definition FromLookup :: "Crypto \<Rightarrow> int \<Rightarrow> (string \<rightharpoonup> string) \<Rightarrow> config_error + Config" where
  "FromLookup cr now lookup =
     (case lookup ''ENFORCER_KEY_ID'' of
        None \<Rightarrow> Inl (MissingError ''ENFORCER_KEY_ID'')
      | Some keyID \<Rightarrow>
     (case lookup ''ENFORCER_SIGNING_KEY'' of
        None \<Rightarrow> Inl (MissingError ''ENFORCER_SIGNING_KEY'')
      | Some keyB64 \<Rightarrow>
     (case RawURL_DecodeString keyB64 of
        Inl err \<Rightarrow> Inl (InvalidError (NotBase64url err))
      | Inr keyBytes \<Rightarrow>
      if length keyBytes \<noteq> 32 then Inl (InvalidError (WrongKeyLength (length keyBytes)))
      else
     (case Load cr now keyID keyBytes of
        Inl err \<Rightarrow> Inl (InvalidError (BadSigningKey err))
      | Inr signingKey \<Rightarrow>
      rbind (case lookup ''ENFORCER_PORT'' of None \<Rightarrow> Inr 9090 | Some s \<Rightarrow> parsePort s) (\<lambda>port.
      let socketPath = (case lookup ''ENFORCER_SOCKET'' of
                          None \<Rightarrow> ''/run/warden-enforcer/api.sock'' | Some s \<Rightarrow> s) in
      rbind (case lookup ''ENFORCER_OUTBOX'' of
               None \<Rightarrow> Inr ''/var/lib/warden-enforcer/outbox.jsonl''
             | Some s \<Rightarrow> if s = [] then Inl (InvalidError EmptyOutbox) else Inr s) (\<lambda>outboxPath.
      let rekorURL = (case lookup ''ENFORCER_REKOR_URL'' of None \<Rightarrow> [] | Some s \<Rightarrow> s) in
      Inr \<lparr>cfg_SigningKey = signingKey, cfg_Port = port, cfg_SocketPath = socketPath,
           cfg_OutboxPath = outboxPath, cfg_RekorURL = rekorURL\<rparr>))))))"

section \<open>Ports\<close>

text \<open>The accepted port texts: digits after at most one plus sign, with a value of at most 65535.\<close>

definition port_text :: "string \<Rightarrow> nat \<Rightarrow> bool" where
  "port_text s p \<longleftrightarrow>
     (\<exists>ds. (s = ds \<or> s = ''+'' @ ds) \<and> ds \<noteq> [] \<and> list_all (\<lambda>c. dec_val c \<noteq> None) ds \<and>
        p = digits_value ds \<and> p \<le> 65535)"

lemma TrimPrefix_plus_cases: "strings_TrimPrefix s ''+'' = (case s of c # r \<Rightarrow> if c = CHR ''+'' then r else s | [] \<Rightarrow> [])"
  by (auto simp: strings_TrimPrefix_def split: list.split)

lemma plus_not_digit [simp]: "dec_val CHR ''+'' = None"
  by (simp add: dec_val_def)

lemma parsePort_iff: "parsePort s = Inr w \<longleftrightarrow> port_text s (unat w)"
proof -
  let ?ds = "strings_TrimPrefix s ''+''"
  have w: "unat w \<le> 65535" using unat_u16_less [of w] by linarith
  have "parsePort s = Inr w \<longleftrightarrow> strconv_ParseUint ?ds 32 = Inr (unat w)"
  proof
    assume "parsePort s = Inr w"
    then obtain p where "strconv_ParseUint ?ds 32 = Inr p" "p \<le> 65535" "w = of_nat p"
      by (auto simp: parsePort_def split: sum.splits if_splits)
    then show "strconv_ParseUint ?ds 32 = Inr (unat w)"
      by (simp add: unat_of_nat take_bit_nat_def)
  next
    assume "strconv_ParseUint ?ds 32 = Inr (unat w)"
    then show "parsePort s = Inr w"
      using w by (simp add: parsePort_def)
  qed
  also have "\<dots> \<longleftrightarrow> ?ds \<noteq> [] \<and> list_all (\<lambda>c. dec_val c \<noteq> None) ?ds \<and> unat w = digits_value ?ds"
    using w by (auto simp: strconv_ParseUint_iff)
  also have "\<dots> \<longleftrightarrow> port_text s (unat w)"
    using w
    unfolding port_text_def TrimPrefix_plus_cases by (auto split: list.splits)
  finally show ?thesis .
qed

section \<open>Properties\<close>

text \<open>C33: An environment is accepted exactly if the key identifier and the signing key are set, the signing key
  is the base64url text of 32 bytes, the port, if set, is a number up to 65535 after at most
  one plus sign, and the outbox path, if set, is not empty. The configuration then holds the
  loaded key and the set values or the defaults.\<close>

theorem config_accepts_iff:
  "FromLookup cr now env = Inr cfg \<longleftrightarrow>
     (\<exists>keyID keyB64 seed.
        env ''ENFORCER_KEY_ID'' = Some keyID \<and>
        env ''ENFORCER_SIGNING_KEY'' = Some keyB64 \<and> RawURL_DecodeString keyB64 = Inr seed \<and> length seed = 32 \<and>
        Load cr now keyID seed = Inr (cfg_SigningKey cfg) \<and>
        (case env ''ENFORCER_PORT'' of None \<Rightarrow> cfg_Port cfg = 9090 | Some s \<Rightarrow> port_text s (unat (cfg_Port cfg))) \<and>
        cfg_SocketPath cfg =
          (case env ''ENFORCER_SOCKET'' of None \<Rightarrow> ''/run/warden-enforcer/api.sock'' | Some s \<Rightarrow> s) \<and>
        env ''ENFORCER_OUTBOX'' \<noteq> Some [] \<and>
        cfg_OutboxPath cfg =
          (case env ''ENFORCER_OUTBOX'' of None \<Rightarrow> ''/var/lib/warden-enforcer/outbox.jsonl'' | Some s \<Rightarrow> s) \<and>
        cfg_RekorURL cfg = (case env ''ENFORCER_REKOR_URL'' of None \<Rightarrow> [] | Some s \<Rightarrow> s))"
  by (cases cfg; cases "env ''ENFORCER_KEY_ID''"; cases "env ''ENFORCER_SIGNING_KEY''"; cases "env ''ENFORCER_PORT''";
      cases "env ''ENFORCER_OUTBOX''")
    (auto simp: FromLookup_def Load_def rbind_Inr_iff Let_def parsePort_iff split: sum.splits if_splits)

text \<open>A seed written to the environment with the encoder is the seed that is loaded, and the key that
  signs belongs to it.\<close>

theorem configured_key_roundtrip:
  assumes "length seed = 32" and "env ''ENFORCER_KEY_ID'' = Some keyID"
    and "env ''ENFORCER_SIGNING_KEY'' = Some (RawURL_EncodeToString seed)"
    and "env ''ENFORCER_PORT'' = None" and "env ''ENFORCER_OUTBOX'' = None"
  shows "\<exists>cfg. FromLookup cr now env = Inr cfg \<and> sk_keyID (cfg_SigningKey cfg) = keyID \<and>
    PrivateKeyBytes (cfg_SigningKey cfg) = seed \<and> VerifyingKey (cfg_SigningKey cfg) = ed_public cr seed"
  using assms
  by (simp add: FromLookup_def RawURL_roundtrip Load_def Let_def PrivateKeyBytes_def VerifyingKey_def
      NewKeyFromSeed_def)

theorem configured_key_roundtrip_witness:
  "\<exists>cfg. FromLookup example_crypto 0
     [''ENFORCER_KEY_ID'' \<mapsto> ''k'', ''ENFORCER_SIGNING_KEY'' \<mapsto> RawURL_EncodeToString (replicate 32 7)] = Inr cfg \<and>
     PrivateKeyBytes (cfg_SigningKey cfg) = replicate 32 7"
  using configured_key_roundtrip [of "replicate 32 7"
      "[''ENFORCER_KEY_ID'' \<mapsto> ''k'', ''ENFORCER_SIGNING_KEY'' \<mapsto> RawURL_EncodeToString (replicate 32 7)]"
      "''k''" example_crypto 0]
  by auto

end
