(* ===== verification/Rekor.thy ===== *)
theory Rekor
  imports Outbox
begin

text \<open>
  Package \<^verbatim>\<open>rekor\<close> (\<^verbatim>\<open>enforcer/internal/rekor/rekor.go\<close>): one POST per submission. The transport is an
  argument: for a URL and a body it gives an error or a response. The theory shows which responses count as
  accepted, and that the request determines the submission.
\<close>

section \<open>Paths\<close>

text \<open>\<^verbatim>\<open>strings.TrimRight(s, "/")\<close> and \<^verbatim>\<open>path.Base\<close>.\<close>

definition trim_slashes :: "string \<Rightarrow> string" where
  "trim_slashes s = rev (dropWhile (\<lambda>c. c = CHR ''/'') (rev s))"

definition path_Base :: "string \<Rightarrow> string" where
  "path_Base p =
     (if p = [] then ''.''
      else
        let b = rev (takeWhile (\<lambda>c. c \<noteq> CHR ''/'') (rev (trim_slashes p))) in
        if b = [] then ''/'' else b)"

section \<open>The client\<close>

record Response =
  rsp_StatusCode :: nat
  rsp_Location :: string
  rsp_Body :: string

type_synonym transport = "string \<Rightarrow> string \<Rightarrow> string + Response"

datatype submit_error =
    PostFailed string
  | UnparseableBody string
  | RekorStatus nat string

record Client =
  cl_baseURL :: string

definition NewClient :: "string \<Rightarrow> Client" where
  "NewClient baseURL = \<lparr>cl_baseURL = trim_slashes baseURL\<rparr>"

definition rekord_entry :: "byte list \<Rightarrow> byte list \<Rightarrow> string \<Rightarrow> json" where
  "rekord_entry content signature publicKeyPEM =
     json_map
       [(''apiVersion'', JStr ''0.0.1''),
        (''kind'', JStr ''rekord''),
        (''spec'', json_map
          [(''signature'', json_map
             [(''format'', JStr ''x509''),
              (''content'', JStr (Std_EncodeToString signature)),
              (''publicKey'', json_map [(''content'', JStr (Std_EncodeToString (bytes_of publicKeyPEM)))])]),
           (''data'', json_map [(''content'', JStr (Std_EncodeToString content))])])]"

definition submit_url :: "Client \<Rightarrow> string" where
  "submit_url c = cl_baseURL c @ ''/api/v1/log/entries''"

definition body_limit :: nat where
  "body_limit = 1048576"

text \<open>The verb \<^verbatim>\<open>%.200s\<close>: the first characters of a text, an invalid byte counting as one.\<close>

fun first_runes :: "nat \<Rightarrow> string \<Rightarrow> string" where
  "first_runes 0 s = []"
| "first_runes (Suc n) [] = []"
| "first_runes (Suc n) (c # s) =
     (let k = max 1 (utf8_size (c # s)) in take k (c # s) @ first_runes n (drop k (c # s)))"

definition Submit :: "transport \<Rightarrow> Client \<Rightarrow> byte list \<Rightarrow> byte list \<Rightarrow> string \<Rightarrow> submit_error + string" where
  "Submit post c content signature publicKeyPEM =
     (case post (submit_url c) (json_encode (rekord_entry content signature publicKeyPEM)) of
        Inl err \<Rightarrow> Inl (PostFailed err)
      | Inr resp \<Rightarrow>
        let raw = take body_limit (rsp_Body resp) in
        if rsp_StatusCode resp = 201 then
          (case json_parse_all raw of
             Some (JObj ms) \<Rightarrow>
               (case go_map ms of
                  [(uuid, _)] \<Rightarrow> Inr uuid
                | _ \<Rightarrow> Inl (UnparseableBody (first_runes 200 raw)))
           | _ \<Rightarrow> Inl (UnparseableBody (first_runes 200 raw)))
        else if rsp_StatusCode resp = 409 then
          Inr (if rsp_Location resp \<noteq> [] then path_Base (rsp_Location resp) else [])
        else Inl (RekorStatus (rsp_StatusCode resp) (first_runes 200 raw)))"

section \<open>The request determines the submission\<close>

lemma b64_text_valid: "utf8_sanitize (Std_EncodeToString bs) = Std_EncodeToString bs"
  using b64_text_ascii by (simp add: utf8_sanitize_ascii list_all_iff)

lemma rekord_entry_eq:
  "rekord_entry content signature pem =
     JObj [(''apiVersion'', JStr ''0.0.1''), (''kind'', JStr ''rekord''),
       (''spec'', JObj
          [(''data'', JObj [(''content'', JStr (Std_EncodeToString content))]),
           (''signature'', JObj
             [(''content'', JStr (Std_EncodeToString signature)),
              (''format'', JStr ''x509''),
              (''publicKey'', JObj [(''content'', JStr (Std_EncodeToString (bytes_of pem)))])])])]"
  by (simp add: rekord_entry_def json_map_def)

section \<open>Properties\<close>

text \<open>C28: The request body determines the submission: two submissions with the same body have the same content, the same
  signature and the same public key. The log, which sees the body only, cannot take one for the other.\<close>

theorem request_determines_submission:
  "json_encode (rekord_entry content signature pem) = json_encode (rekord_entry content' signature' pem') \<longleftrightarrow>
     content = content' \<and> signature = signature' \<and> pem = pem'"
proof
  assume "json_encode (rekord_entry content signature pem) = json_encode (rekord_entry content' signature' pem')"
  then have "json_sanitize (rekord_entry content signature pem) = json_sanitize (rekord_entry content' signature' pem')"
    by (intro json_encode_inj) (simp_all add: rekord_entry_eq maxNestingDepth_def)
  then show "content = content' \<and> signature = signature' \<and> pem = pem'"
    by (simp add: rekord_entry_eq b64_text_valid Std_encode_inj)
qed simp

lemma go_map_single: "(\<exists>v. go_map ms = [(k, v)]) \<longleftrightarrow> ms \<noteq> [] \<and> fst ` set ms = {k}"
proof
  assume "\<exists>v. go_map ms = [(k, v)]"
  then obtain v where v: "AList.clearjunk (rev ms) = [(k, v)]" by (auto simp: go_map_def)
  then have "fst ` set ms = {k}" using dom_clearjunk [of "rev ms"] by simp
  then show "ms \<noteq> [] \<and> fst ` set ms = {k}" by auto
next
  assume "ms \<noteq> [] \<and> fst ` set ms = {k}"
  then have "fst ` set (go_map ms) = {k}" "distinct (map fst (go_map ms))"
    by (simp_all add: go_map_def dom_clearjunk distinct_clearjunk)
  then have "length (go_map ms) = 1"
    using distinct_card [of "map fst (go_map ms)"] by simp
  then obtain m where "go_map ms = [m]" by (auto simp: length_Suc_conv)
  with \<open>fst ` set (go_map ms) = {k}\<close> show "\<exists>v. go_map ms = [(k, v)]" by (cases m) auto
qed

text \<open>A submission counts as accepted exactly in two cases: the log answered 201 with a JSON object whose only key is the
  returned identifier, or it answered 409, with the last element of the location as the identifier, if
  there is one. Every other answer, and no answer, is an error.\<close>

theorem submit_accepted_iff:
  "Submit post c content signature pem = Inr uuid \<longleftrightarrow>
     (\<exists>resp. post (submit_url c) (json_encode (rekord_entry content signature pem)) = Inr resp \<and>
        (rsp_StatusCode resp = 201 \<and>
           (\<exists>ms. json_parse_all (take body_limit (rsp_Body resp)) = Some (JObj ms) \<and> ms \<noteq> [] \<and> fst ` set ms = {uuid}) \<or>
         rsp_StatusCode resp = 409 \<and>
           uuid = (if rsp_Location resp = [] then [] else path_Base (rsp_Location resp))))"
proof (cases "post (submit_url c) (json_encode (rekord_entry content signature pem))")
  case (Inr resp)
  have "(case json_parse_all raw of
             Some (JObj ms) \<Rightarrow>
               (case go_map ms of [(uuid, _)] \<Rightarrow> Inr uuid | _ \<Rightarrow> Inl err)
           | _ \<Rightarrow> Inl err) = Inr uuid \<longleftrightarrow>
         (\<exists>ms. json_parse_all raw = Some (JObj ms) \<and> ms \<noteq> [] \<and> fst ` set ms = {uuid})" for raw and err :: submit_error
    unfolding go_map_single [symmetric] by (auto split: option.splits json.splits list.splits prod.splits)
  with Inr show ?thesis
    by (auto simp: Submit_def Let_def)
qed (simp add: Submit_def)

lemma trim_slashes_uuid:
  assumes "uuid \<noteq> []" and "CHR ''/'' \<notin> set uuid"
  shows "trim_slashes (s @ uuid) = s @ uuid"
proof -
  obtain x xs where "rev uuid = x # xs" using assms(1) by (metis list.exhaust rev_is_Nil_conv)
  moreover have "x \<noteq> CHR ''/''" using assms(2) calculation by (metis list.set_intros(1) set_rev)
  ultimately show ?thesis by (simp add: trim_slashes_def)
qed

text \<open>Resubmission is harmless: when the log answers 409 with the location it documents, a submission succeeds with
  the identifier of the entry that exists already, whatever body and base address are used.\<close>

theorem duplicate_gives_uuid:
  assumes "post (submit_url c) (json_encode (rekord_entry content signature pem)) = Inr resp"
    and "rsp_StatusCode resp = 409" and "rsp_Location resp = ''/api/v1/log/entries/'' @ uuid"
    and "uuid \<noteq> []" and "CHR ''/'' \<notin> set uuid"
  shows "Submit post c content signature pem = Inr uuid"
proof -
  have "path_Base (''/api/v1/log/entries/'' @ uuid) = uuid"
  proof -
    have "takeWhile (\<lambda>c. c \<noteq> CHR ''/'') (rev uuid @ rev ''/api/v1/log/entries/'') = rev uuid"
      using assms(5) by (subst takeWhile_append2) auto
    then show ?thesis
      using assms(4) unfolding path_Base_def trim_slashes_uuid [OF assms(4,5)] by simp
  qed
  with assms show ?thesis by (simp add: Submit_def Let_def)
qed

theorem duplicate_gives_uuid_witness:
  "Submit (\<lambda>_ _. Inr \<lparr>rsp_StatusCode = 409, rsp_Location = ''/api/v1/log/entries/24296fb2'', rsp_Body = []\<rparr>)
     (NewClient ''http://rekor:3000/'') [1] [2] ''k'' = Inr ''24296fb2''"
  using duplicate_gives_uuid [of "\<lambda>_ _. Inr \<lparr>rsp_StatusCode = 409, rsp_Location = ''/api/v1/log/entries/24296fb2'', rsp_Body = []\<rparr>"
      "NewClient ''http://rekor:3000/''" "[1]" "[2]" "''k''"
      "\<lparr>rsp_StatusCode = 409, rsp_Location = ''/api/v1/log/entries/24296fb2'', rsp_Body = []\<rparr>" "''24296fb2''"]
  by simp

end
