(* ===== verification/Enforcer.thy ===== *)
theory Enforcer
  imports System Config Rekor
begin

text \<open>
  The program (\<^verbatim>\<open>enforcer/cmd/warden-enforcer/main.go\<close>, on Linux): it reads the configuration, opens the spool, binds the
  socket and serves. What the operating system answers is a function of the calls made so far. Texts of
  errors that come from other packages are arguments. The theory shows that the socket is never bound in a
  directory that others can enter, that nothing is served unless every step before succeeded, and that the state
  that is served is the initial state of theory \<open>System\<close>.
\<close>

section \<open>The directory of a path\<close>

text \<open>Go's \<^verbatim>\<open>filepath.Clean\<close> and \<^verbatim>\<open>filepath.Dir\<close> on Unix.\<close>

fun split_slash :: "string \<Rightarrow> string list" where
  "split_slash [] = [[]]"
| "split_slash (c # s) =
     (if c = CHR ''/'' then [] # split_slash s
      else case split_slash s of [] \<Rightarrow> [[c]] | x # xs \<Rightarrow> (c # x) # xs)"

text \<open>The elements kept so far, the last one first.\<close>

definition clean_step :: "bool \<Rightarrow> string list \<Rightarrow> string \<Rightarrow> string list" where
  "clean_step rooted acc c =
     (if c = [] \<or> c = ''.'' then acc
      else if c = ''..'' then
        (case acc of
           [] \<Rightarrow> if rooted then [] else [''..'']
         | x # xs \<Rightarrow> if x = ''..'' then ''..'' # acc else xs)
      else c # acc)"

definition filepath_Clean :: "string \<Rightarrow> string" where
  "filepath_Clean p =
     (if p = [] then ''.''
      else
        let rooted = (hd p = CHR ''/'');
            cs = rev (foldl (clean_step rooted) [] (split_slash p))
        in if rooted then ''/'' @ strings_Join cs ''/'' else if cs = [] then ''.'' else strings_Join cs ''/'')"

definition filepath_Dir :: "string \<Rightarrow> string" where
  "filepath_Dir p = filepath_Clean (rev (dropWhile (\<lambda>c. c \<noteq> CHR ''/'') (rev p)))"

section \<open>The socket\<close>

datatype os_call =
    MkdirAll string nat
  | Chmod string nat
  | RemoveFile string
  | ListenUnix string
  | CloseListener string

text \<open>An answer is the text of an error, or none.\<close>

type_synonym os_trace = "(os_call \<times> string option) list"
type_synonym os = "os_trace \<Rightarrow> os_call \<Rightarrow> string option"

definition ocall :: "os \<Rightarrow> os_call \<Rightarrow> os_trace \<Rightarrow> string option \<times> os_trace" where
  "ocall os c t = (os t c, t @ [(c, os t c)])"

definition mode_0700 :: nat where "mode_0700 = 448"
definition mode_0660 :: nat where "mode_0660 = 432"

definition listen :: "os \<Rightarrow> string \<Rightarrow> os_trace \<Rightarrow> string option \<times> os_trace" where
  "listen os socketPath t =
     (let dir = filepath_Dir socketPath in
      case ocall os (MkdirAll dir mode_0700) t of
        (Some e, t1) \<Rightarrow> (Some (''cannot create '' @ dir @ '': '' @ e), t1)
      | (None, t1) \<Rightarrow>
      (case ocall os (Chmod dir mode_0700) t1 of
        (Some e, t2) \<Rightarrow> (Some (''cannot secure '' @ dir @ '': '' @ e), t2)
      | (None, t2) \<Rightarrow>
      (case ocall os (RemoveFile socketPath) t2 of (_, t3) \<Rightarrow>
      (case ocall os (ListenUnix socketPath) t3 of
        (Some e, t4) \<Rightarrow> (Some (''cannot bind '' @ socketPath @ '': '' @ e), t4)
      | (None, t4) \<Rightarrow>
      (case ocall os (Chmod socketPath mode_0660) t4 of
        (Some e, t5) \<Rightarrow>
          (Some (''cannot secure '' @ socketPath @ '': '' @ e), snd (ocall os (CloseListener socketPath) t5))
      | (None, t5) \<Rightarrow> (None, t5))))))"

section \<open>The program\<close>

record Host =
  ho_lookup :: "string \<rightharpoonup> string"
  ho_now :: int
  ho_files :: Spool
  ho_open :: OpenEnv
  ho_ckpt :: bool
  ho_os :: os
  ho_config_text :: "config_error \<Rightarrow> string"
  ho_open_text :: string

text \<open>The program ends with a message on standard error, or serves the state with a submitter and its client, if there are
  any. \<open>ho_ckpt\<close> tells whether the submitter can read the checkpoint file.\<close>

datatype outcome = Exit string | Serving "LinuxSandbox AppState" "(Client \<times> Runner) option"

definition run_main :: "Crypto \<Rightarrow> Host \<Rightarrow> outcome \<times> os_trace" where
  "run_main cr h =
     (case FromLookup cr (ho_now h) (ho_lookup h) of
        Inl err \<Rightarrow> (Exit (''fatal: '' @ ho_config_text h err), [])
      | Inr cfg \<Rightarrow>
        (case Open (ho_open h) (ho_files h) of
           (False, _) \<Rightarrow> (Exit (''fatal: outbox: '' @ ho_open_text h), [])
         | (True, spool) \<Rightarrow>
           let state = empty_state (NewController NewLinuxSandbox) (cfg_SigningKey cfg) (Some spool) (Some False);
               client = (if cfg_RekorURL cfg \<noteq> [] then Some (NewClient (cfg_RekorURL cfg), run_begin (ho_ckpt h) spool) else None)
           in
           (case listen (ho_os h) (cfg_SocketPath cfg) [] of
              (Some err, t) \<Rightarrow> (Exit (''fatal: '' @ err), t)
            | (None, t) \<Rightarrow> (Serving state client, t))))"

text \<open>The submitter posts with the client; an identifier or an error is all that \<^verbatim>\<open>drainOnce\<close> looks at.\<close>

definition submits :: "transport \<Rightarrow> Client \<Rightarrow> submission \<Rightarrow> bool" where
  "submits post c s =
     (case s of (content, signature, pem) \<Rightarrow>
        (case Submit post c content signature pem of Inl _ \<Rightarrow> False | Inr _ \<Rightarrow> True))"

section \<open>The calls of listen\<close>

definition listen_calls :: "string \<Rightarrow> os_call list" where
  "listen_calls p =
     [MkdirAll (filepath_Dir p) mode_0700, Chmod (filepath_Dir p) mode_0700, RemoveFile p, ListenUnix p, Chmod p mode_0660]"

text \<open>The ways in which \<open>listen\<close> can end.\<close>

inductive listen_run :: "string \<Rightarrow> string option \<times> os_trace \<Rightarrow> bool" for p :: string where
  no_dir: "listen_run p (Some m, [(MkdirAll (filepath_Dir p) mode_0700, Some e)])"
| not_secured: "listen_run p (Some m, [(MkdirAll (filepath_Dir p) mode_0700, None), (Chmod (filepath_Dir p) mode_0700, Some e)])"
| not_bound: "listen_run p (Some m, [(MkdirAll (filepath_Dir p) mode_0700, None), (Chmod (filepath_Dir p) mode_0700, None),
    (RemoveFile p, r), (ListenUnix p, Some e)])"
| closed: "listen_run p (Some m, [(MkdirAll (filepath_Dir p) mode_0700, None), (Chmod (filepath_Dir p) mode_0700, None),
    (RemoveFile p, r), (ListenUnix p, None), (Chmod p mode_0660, Some e), (CloseListener p, c)])"
| bound: "listen_run p (None, [(MkdirAll (filepath_Dir p) mode_0700, None), (Chmod (filepath_Dir p) mode_0700, None),
    (RemoveFile p, r), (ListenUnix p, None), (Chmod p mode_0660, None)])"

lemma listen_runs: "listen_run p (listen os p [])"
  unfolding listen_def ocall_def Let_def
  by (auto split: option.split intro: listen_run.intros)

inductive_simps listen_run_None: "listen_run p (None, t)"

section \<open>Properties\<close>

text \<open>C18: The socket is the authentication boundary, and it is protected at every moment: whenever the socket is bound, its
  directory has been restricted to the owner with success before; if the program goes on, the socket's own mode has
  been set with success after that; and if that failed, the listener is closed, and this is the last call.\<close>

theorem socket_never_exposed:
  assumes "listen os p [] = (err, t)"
  shows "(\<forall>before after. t = before @ (ListenUnix p, None) # after \<longrightarrow>
      (Chmod (filepath_Dir p) mode_0700, None) \<in> set before) \<and>
    (err = None \<longrightarrow> map fst t = listen_calls p \<and> (ListenUnix p, None) \<in> set t \<and> last t = (Chmod p mode_0660, None)) \<and>
    (err \<noteq> None \<longrightarrow> (ListenUnix p, None) \<in> set t \<longrightarrow> fst (last t) = CloseListener p)"
  using listen_runs [of p os] unfolding assms
  by cases (auto simp: listen_calls_def Cons_eq_append_conv)

theorem socket_never_exposed_witness:
  "map fst (snd (listen (\<lambda>_ _. None) ''/run/w/api.sock'' [])) = listen_calls ''/run/w/api.sock''"
proof -
  obtain err t where l: "listen (\<lambda>_ _. None) ''/run/w/api.sock'' [] = (err, t)" by fastforce
  moreover have "err = None" using l by (auto simp: listen_def ocall_def Let_def)
  ultimately show ?thesis using socket_never_exposed [OF l] by simp
qed

lemma truncateTornTail_ends: "truncateTornTail raw = [] \<or> last (truncateTornTail raw) = newline"
proof (cases "raw = [] \<or> last raw = newline")
  case False
  let ?r = "dropWhile (\<lambda>c. c \<noteq> newline) (rev raw)"
  have "?r = [] \<or> hd ?r = newline" using hd_dropWhile [of "\<lambda>c. c \<noteq> newline" "rev raw"] by auto
  with False show ?thesis by (auto simp: truncateTornTail_def last_rev)
qed (auto simp: truncateTornTail_def)

lemma FromLookup_key_ok:
  assumes "FromLookup cr now lookup = Inr cfg"
  shows "key_ok cr (cfg_SigningKey cfg)"
proof -
  obtain seed where "length seed = 32" "sk_priv (cfg_SigningKey cfg) = NewKeyFromSeed cr seed"
    using assms by (auto simp: FromLookup_def Load_def rbind_Inr_iff Let_def split: option.splits sum.splits if_splits)
  then show ?thesis by (auto simp: key_ok_def)
qed

text \<open>C17: The enforcer fails closed. It serves only if the configuration is accepted, the spool could be opened and the socket
  was bound and protected; every other run ends with a message. What it serves is the initial state of the system, with
  a key made from the configured seed and with a spool of whole lines; it submits exactly if a log is configured.\<close>

theorem main_fails_closed:
  assumes "run_main cr h = (out, t)"
  shows "(\<exists>m. out = Exit m) \<or>
    (\<exists>cfg sp st client. out = Serving st client \<and> FromLookup cr (ho_now h) (ho_lookup h) = Inr cfg \<and>
       Open (ho_open h) (ho_files h) = (True, sp) \<and> (sp_data sp = [] \<or> last (sp_data sp) = newline) \<and>
       map fst t = listen_calls (cfg_SocketPath cfg) \<and> last t = (Chmod (cfg_SocketPath cfg) mode_0660, None) \<and>
       (\<forall>rn. (Waiting, rn, st) = sys_start (cfg_SigningKey cfg) sp rn) \<and> key_ok cr (cfg_SigningKey cfg) \<and>
       client = (if cfg_RekorURL cfg = [] then None else Some (NewClient (cfg_RekorURL cfg), run_begin (ho_ckpt h) sp)))"
proof (cases out)
  case (Serving st client)
  obtain cfg sp where cfg: "FromLookup cr (ho_now h) (ho_lookup h) = Inr cfg"
      "Open (ho_open h) (ho_files h) = (True, sp)" "listen (ho_os h) (cfg_SocketPath cfg) [] = (None, t)"
      "st = empty_state (NewController NewLinuxSandbox) (cfg_SigningKey cfg) (Some sp) (Some False)"
      "client = (if cfg_RekorURL cfg = [] then None else Some (NewClient (cfg_RekorURL cfg), run_begin (ho_ckpt h) sp))"
    using assms Serving by (auto simp: run_main_def Let_def split: sum.splits prod.splits bool.splits option.splits if_splits)
  have "sp_data sp = truncateTornTail (sp_data (ho_files h))"
    using cfg(2) by (auto simp: Open_def Let_def split: if_splits)
  then have "sp_data sp = [] \<or> last (sp_data sp) = newline" using truncateTornTail_ends by metis
  moreover have "map fst t = listen_calls (cfg_SocketPath cfg)" "last t = (Chmod (cfg_SocketPath cfg) mode_0660, None)"
    using listen_runs [of "cfg_SocketPath cfg" "ho_os h"] unfolding cfg(3) listen_run_None by (auto simp: listen_calls_def)
  moreover note FromLookup_key_ok [OF cfg(1)]
  ultimately show ?thesis using Serving cfg by (auto simp: sys_start_def)
qed simp

definition example_host :: Host where
  "example_host =
     \<lparr>ho_lookup = [''ENFORCER_KEY_ID'' \<mapsto> ''k'', ''ENFORCER_SIGNING_KEY'' \<mapsto> RawURL_EncodeToString (replicate 32 7)],
      ho_now = 0, ho_files = empty_spool,
      ho_open = \<lparr>oe_mkdir = True, oe_read = True, oe_truncate = True, oe_open = True\<rparr>,
      ho_ckpt = True, ho_os = (\<lambda>_ _. None), ho_config_text = (\<lambda>_. []), ho_open_text = []\<rparr>"

theorem main_fails_closed_witness:
  "\<exists>key sp st. fst (run_main example_crypto example_host) = Serving st None \<and>
     (Waiting, None, st) = sys_start key sp None \<and> key_ok example_crypto key"
proof -
  obtain out t where m: "run_main example_crypto example_host = (out, t)" by fastforce
  have "out \<noteq> Exit e" for e
    using m by (auto simp: run_main_def example_host_def FromLookup_def RawURL_roundtrip Load_def Open_def listen_def ocall_def
        Let_def)
  with main_fails_closed [OF m] obtain cfg sp st client where s: "out = Serving st client"
      "FromLookup example_crypto (ho_now example_host) (ho_lookup example_host) = Inr cfg"
      "\<forall>rn. (Waiting, rn, st) = sys_start (cfg_SigningKey cfg) sp rn" "key_ok example_crypto (cfg_SigningKey cfg)"
      "client = (if cfg_RekorURL cfg = [] then None else Some (NewClient (cfg_RekorURL cfg), run_begin (ho_ckpt example_host) sp))"
    by metis
  moreover have "cfg_RekorURL cfg = []"
    using s(2) by (auto simp: example_host_def FromLookup_def RawURL_roundtrip Load_def Let_def)
  ultimately show ?thesis using m by auto
qed

end
