(* ===== verification/Seccomp.thy ===== *)
theory Seccomp
  imports Prelude
begin

text \<open>
  Package \<^verbatim>\<open>seccomp\<close> (\<^verbatim>\<open>enforcer/internal/seccomp/seccomp.go\<close>): the default profile and its query. What a container runtime
  does with a profile is not part of the repository; the theory has the data and shows what the query reports.
\<close>

section \<open>Profiles\<close>

datatype Action = ActionAllow | ActionErrno

definition action_text :: "Action \<Rightarrow> string" where
  "action_text a = (case a of ActionAllow \<Rightarrow> ''SCMP_ACT_ALLOW'' | ActionErrno \<Rightarrow> ''SCMP_ACT_ERRNO'')"

record SyscallArg =
  sa_Index :: u32
  sa_Value :: u64
  sa_Op :: string

record SyscallRule =
  sr_Names :: "string list"
  sr_Action :: Action
  sr_ErrnoRet :: "int option"
  sr_Args :: "SyscallArg list"

record Profile =
  pf_DefaultAction :: Action
  pf_Syscalls :: "SyscallRule list"

definition DefaultProfile :: Profile where
  "DefaultProfile =
     \<lparr>pf_DefaultAction = ActionAllow,
      pf_Syscalls =
        [\<lparr>sr_Names = [''ptrace'', ''mount'', ''unshare'', ''setns''], sr_Action = ActionErrno, sr_ErrnoRet = Some 1,
          sr_Args = []\<rparr>,
         \<lparr>sr_Names = [''socket''], sr_Action = ActionErrno, sr_ErrnoRet = Some 1,
          sr_Args = [\<lparr>sa_Index = 1, sa_Value = 3, sa_Op = ''SCMP_CMP_EQ''\<rparr>]\<rparr>]\<rparr>"

definition Denies :: "Profile \<Rightarrow> string \<Rightarrow> bool" where
  "Denies p syscall \<longleftrightarrow> list_ex (\<lambda>rule. list_ex (\<lambda>name. name = syscall) (sr_Names rule)) (pf_Syscalls p)"

text \<open>The query looks at names only, whatever action and argument conditions the rules have.\<close>

lemma Denies_names: "Denies p syscall \<longleftrightarrow> syscall \<in> (\<Union>rule\<in>set (pf_Syscalls p). set (sr_Names rule))"
  by (auto simp: Denies_def list_ex_iff)

lemma Denies_default: "Denies DefaultProfile syscall \<longleftrightarrow> syscall \<in> {''ptrace'', ''mount'', ''unshare'', ''setns'', ''socket''}"
  by (auto simp: Denies_names DefaultProfile_def)

end
