(* ===== verification/NftText.thy ===== *)
theory NftText
  imports Ruleset
begin

text \<open>
  From the text of a script to its commands. The enforcer hands a text to \<^verbatim>\<open>nft\<close>, which is not part of the
  repository: what it reads from a text is a parameter \<open>nft\<close> of the theorems, and \<open>nft_reads\<close> is what is relied on:
  a text printed from commands whose table names and log prefixes are plain (\<open>plain_name\<close>, \<open>plain_id\<close>) is read as these
  commands. Of other texts nothing is assumed. The session identifier goes into the text as it is, so the
  theorems about the rules of a session are for plain identifiers (\<open>plain_id\<close>). A reader of the lines that
  \<open>Render\<close> writes shows that \<open>nft_reads\<close> can hold.
\<close>

section \<open>Plain scripts\<close>

definition letter :: "char \<Rightarrow> bool" where
  "letter c \<longleftrightarrow> (let n = of_char c :: nat in 65 \<le> n \<and> n \<le> 90 \<or> 97 \<le> n \<and> n \<le> 122)"

definition name_char :: "char \<Rightarrow> bool" where
  "name_char c \<longleftrightarrow> letter c \<or> (let n = of_char c :: nat in 48 \<le> n \<and> n \<le> 57) \<or> c = CHR ''_'' \<or> c = CHR ''.''"

text \<open>What the session makes of nft's limits: a table name begins with \<^verbatim>\<open>warden_\<close>, so that it is no keyword, has only
  characters of an identifier, and is far below 256 bytes; a log prefix has at most 127 bytes, eight of which are around
  the session identifier.\<close>

definition plain_name :: "string \<Rightarrow> bool" where
  "plain_name n \<longleftrightarrow> take 7 n = ''warden_'' \<and> length n < 128 \<and> list_all name_char n"

definition plain_id :: "session_id \<Rightarrow> bool" where
  "plain_id s \<longleftrightarrow> length s < 120 \<and> list_all (\<lambda>c. name_char c \<or> c = CHR ''-'') s"

fun plain_match :: "family \<Rightarrow> match \<Rightarrow> bool" where
  "plain_match f (Daddr c) \<longleftrightarrow> wf_cidr c \<and> of_family f (c_addr c)"
| "plain_match f _ \<longleftrightarrow> True"

fun plain_action :: "action \<Rightarrow> bool" where
  "plain_action (LogDrop s) \<longleftrightarrow> plain_id s"
| "plain_action (LogCounter s) \<longleftrightarrow> plain_id s"
| "plain_action Accept \<longleftrightarrow> True"

definition plain_rule :: "family \<Rightarrow> rule \<Rightarrow> bool" where
  "plain_rule f r \<longleftrightarrow> plain_match f (fst r) \<and> plain_action (snd r)"

fun plain_cmd :: "nft_cmd \<Rightarrow> bool" where
  "plain_cmd (EnsureTable f n) \<longleftrightarrow> plain_name n"
| "plain_cmd (DeleteTable f n) \<longleftrightarrow> plain_name n"
| "plain_cmd (DefineTable f n t) \<longleftrightarrow> plain_name n \<and> list_all (plain_rule f) (t_forward t)"

definition nft_reads :: "(string \<Rightarrow> nft_cmd list option) \<Rightarrow> bool" where
  "nft_reads nft \<longleftrightarrow> (\<forall>cmds. list_all plain_cmd cmds \<longrightarrow> nft (concat (map print_cmd cmds)) = Some cmds)"

lemma tableName_plain: "plain_id (rs_sessionID r) \<Longrightarrow> plain_name (tableName r)"
  by (auto simp: plain_id_def tableName_def plain_name_def strings_ReplaceAll_def list_all_iff letter_def name_char_def)

lemma script_plain:
  assumes "plain_id (rs_sessionID r)" and "\<forall>t\<in>set (rs_targets r). wf_cidr t"
  shows "list_all plain_cmd (script_cmds r)"
proof -
  have "wf_cidr d \<and> of_family f (c_addr d)" if "d \<in> set (deny_blocks f)" for d f
    using that by (auto simp: deny_blocks_def wf_cidr_def max_prefix_def of_family_def split: family.splits)
  then have "list_all (plain_rule f) (forward_chain r f)" for f
    using assms by (auto simp: forward_chain_def list_all_iff plain_rule_def)
  then show ?thesis
    using tableName_plain [OF assms(1)] by (simp add: script_cmds_def table_cmds_def session_table_def)
qed

lemma nft_reads_script:
  assumes "nft_reads nft" and "plain_id (rs_sessionID r)" and "rmap Parse texts = Inr (rs_targets r)"
  shows "nft (Render r) = Some (script_cmds r)"
proof -
  have "wf_cidr t" if "t \<in> set (rs_targets r)" for t
    using assms(3) that by (auto simp: rmap_Inr_iff list_all2_conv_all_nth in_set_conv_nth dest: Parse_wf)
  then show ?thesis
    using assms(1) script_plain [OF assms(2)] by (simp add: nft_reads_def Render_print_script print_script_def)
qed

text \<open>A script confines to the blocks of some texts: in a fresh namespace the commands that are read from it succeed and make two
  tables of one name, one for each family, and in the forward chain of its family a packet that opens a connection is
  accepted exactly if one of the texts is a block that contains the destination and no denied block contains it.\<close>

definition confines :: "(string \<Rightarrow> nft_cmd list option) \<Rightarrow> string \<Rightarrow> string list \<Rightarrow> bool" where
  "confines nft script texts \<longleftrightarrow>
     (\<exists>cmds ts n. nft script = Some cmds \<and> transaction cmds Map.empty = (True, ts) \<and> dom ts = {(Ip, n), (Ip6, n)} \<and>
        (\<forall>f p. of_family f (p_dst p) \<longrightarrow> \<not> p_established p \<longrightarrow>
           (fst (eval_chain (t_forward (the (ts (f, n)))) p) = Accepted \<longleftrightarrow>
             (\<exists>text\<in>set texts. \<exists>c. Parse text = Inr c \<and> Contains c (p_dst p) = Some True) \<and>
             (\<forall>d\<in>set (deny_blocks f). Contains d (p_dst p) = Some False))))"

lemma Render_confines:
  assumes "nft_reads nft" and "plain_id (rs_sessionID r)" and "rmap Parse texts = Inr (rs_targets r)"
  shows "confines nft (Render r) texts"
proof -
  let ?ts = "[(Ip, tableName r) \<mapsto> session_table r Ip, (Ip6, tableName r) \<mapsto> session_table r Ip6]"
  have "transaction (script_cmds r) Map.empty = (True, ?ts)" by (simp add: transaction_def exec_script_cmds)
  moreover have "dom ?ts = {(Ip, tableName r), (Ip6, tableName r)}" by auto
  moreover have "t_forward (the (?ts (f, tableName r))) = forward_chain r f" for f
    by (cases f) (simp_all add: session_table_def)
  moreover have "fst (eval_chain (forward_chain r f) p) = Accepted \<longleftrightarrow>
      (\<exists>text\<in>set texts. \<exists>c. Parse text = Inr c \<and> Contains c (p_dst p) = Some True) \<and>
      (\<forall>d\<in>set (deny_blocks f). Contains d (p_dst p) = Some False)" if "of_family f (p_dst p)" "\<not> p_established p" for f p
    using forward_chain_new_connection [OF assms(3) that] unfolding targets_contain [OF assms(3), symmetric] .
  ultimately show ?thesis
    unfolding confines_def nft_reads_script [OF assms]
    by (intro exI [of _ "script_cmds r"] exI [of _ ?ts] exI [of _ "tableName r"]) (simp del: fun_upd_apply)
qed

text \<open>Names matter: with a table name that is no identifier, two different lists of commands have one text.\<close>

lemma print_ambiguous:
  "print_cmd (EnsureTable Ip (''a { }'' @ nl @ ''table ip b'')) = concat (map print_cmd [EnsureTable Ip ''a'', EnsureTable Ip ''b''])"
  by (simp add: family_name_def)

section \<open>A reader\<close>

text \<open>Lines, and what is left of a text after a given beginning.\<close>

fun nl_lines :: "string \<Rightarrow> string \<Rightarrow> string list" where
  "nl_lines acc [] = (if acc = [] then [] else [acc])"
| "nl_lines acc (c # s) = (if c = CHR 0x0A then acc # nl_lines [] s else nl_lines (acc @ [c]) s)"

definition strip :: "string \<Rightarrow> string \<Rightarrow> string option" where
  "strip p s = (if take (length p) s = p then Some (drop (length p) s) else None)"

definition read_match :: "family \<Rightarrow> string \<Rightarrow> (match \<times> string) option" where
  "read_match f s =
     (case strip ''ct state established,related '' s of
        Some t \<Rightarrow> Some (CtEstablishedRelated, t)
      | None \<Rightarrow>
        (case strip (family_name f @ '' daddr '') s of
           None \<Rightarrow> Some (Always, s)
         | Some t \<Rightarrow>
           (case Parse (takeWhile (\<lambda>c. c \<noteq> CHR '' '') t) of
              Inl _ \<Rightarrow> None
            | Inr c \<Rightarrow> Some (Daddr c, drop 1 (dropWhile (\<lambda>c. c \<noteq> CHR '' '') t)))))"

definition read_action :: "string \<Rightarrow> action option" where
  "read_action s =
     (if s = ''accept'' then Some Accept
      else
        case strip ''log prefix \"warden:'' s of
          None \<Rightarrow> None
        | Some t \<Rightarrow>
          let q = takeWhile (\<lambda>c. c \<noteq> CHR ''\"'') t; rest = dropWhile (\<lambda>c. c \<noteq> CHR ''\"'') t in
          if rest = ''\" group 1 drop'' then Some (LogDrop (butlast q))
          else if rest = ''\" group 1 counter'' then Some (LogCounter (butlast q))
          else None)"

definition read_rule :: "family \<Rightarrow> string \<Rightarrow> rule option" where
  "read_rule f l =
     Option.bind (strip ''        '' l) (\<lambda>s.
     Option.bind (read_match f s) (\<lambda>(m, t). map_option (Pair m) (read_action t)))"

definition read_table :: "string \<Rightarrow> (family \<times> string \<times> string) option" where
  "read_table s =
     (let name = (\<lambda>f t. Some (f, takeWhile name_char t, dropWhile name_char t)) in
      case strip ''ip '' s of
        Some t \<Rightarrow> name Ip t
      | None \<Rightarrow> (case strip ''ip6 '' s of Some t \<Rightarrow> name Ip6 t | None \<Rightarrow> None))"

text \<open>Where the reader is: outside a table, or before the line that is named.\<close>

datatype place = Outside | ChainHead family string | ChainType family string | Rules family string "rule list"
  | ChainEnd family string "rule list" | NatType family string "rule list" | NatRule family string "rule list"
  | NatEnd family string "rule list" | TableEnd family string "rule list"

fun read_line :: "place \<Rightarrow> string \<Rightarrow> (place \<times> nft_cmd list) option" where
  "read_line Outside l =
     (case strip ''delete table '' l of
        Some t \<Rightarrow>
          Option.bind (read_table t) (\<lambda>(f, n, rest). if rest = [] then Some (Outside, [DeleteTable f n]) else None)
      | None \<Rightarrow>
        Option.bind (strip ''table '' l) (\<lambda>t.
        Option.bind (read_table t) (\<lambda>(f, n, rest).
          if rest = '' { }'' then Some (Outside, [EnsureTable f n])
          else if rest = '' {'' then Some (ChainHead f n, []) else None)))"
| "read_line (ChainHead f n) l = (if l = ''    chain forward {'' then Some (ChainType f n, []) else None)"
| "read_line (ChainType f n) l =
     (if l = ''        type filter hook forward priority 0; policy drop;'' then Some (Rules f n [], []) else None)"
| "read_line (Rules f n rs) l =
     (if l = ''    }'' then Some (ChainEnd f n rs, [])
      else map_option (\<lambda>r. (Rules f n (rs @ [r]), [])) (read_rule f l))"
| "read_line (ChainEnd f n rs) l =
     (if l = ''}'' then Some (Outside, [DefineTable f n \<lparr>t_forward = rs, t_masquerade = False\<rparr>])
      else if l = ''    chain postrouting {'' then Some (NatType f n rs, []) else None)"
| "read_line (NatType f n rs) l =
     (if l = ''        type nat hook postrouting priority srcnat; policy accept;'' then Some (NatRule f n rs, []) else None)"
| "read_line (NatRule f n rs) l = (if l = ''        masquerade'' then Some (NatEnd f n rs, []) else None)"
| "read_line (NatEnd f n rs) l = (if l = ''    }'' then Some (TableEnd f n rs, []) else None)"
| "read_line (TableEnd f n rs) l =
     (if l = ''}'' then Some (Outside, [DefineTable f n \<lparr>t_forward = rs, t_masquerade = True\<rparr>]) else None)"

fun read_script :: "place \<Rightarrow> string list \<Rightarrow> nft_cmd list option" where
  "read_script p [] = (if p = Outside then Some [] else None)"
| "read_script p (l # ls) =
     Option.bind (read_line p l) (\<lambda>(p', cs). map_option ((@) cs) (read_script p' ls))"

definition line_reader :: "string \<Rightarrow> nft_cmd list option" where
  "line_reader text = read_script Outside (nl_lines [] text)"

section \<open>The reader reads plain scripts\<close>

lemma strip_append [simp]: "strip p (p @ s) = Some s"
  by (simp add: strip_def)

lemma until_char:
  "x \<notin> set s \<Longrightarrow> takeWhile (\<lambda>c. c \<noteq> x) (s @ x # t) = s" "x \<notin> set s \<Longrightarrow> dropWhile (\<lambda>c. c \<noteq> x) (s @ x # t) = x # t"
  by (induction s) auto

lemma commands_read [simp]: "map_option ((@) []) x = x" "map_option ((@) [c]) x = map_option ((#) c) x"
  by (cases x; simp)+

lemma nl_lines_line: "CHR 0x0A \<notin> set l \<Longrightarrow> nl_lines acc (l @ CHR 0x0A # s) = (acc @ l) # nl_lines [] s"
  by (induction l arbitrary: acc) auto

lemma cidr_String_no_space: "CHR '' '' \<notin> set (cidr_String c)" "CHR 0x0A \<notin> set (cidr_String c)"
proof -
  have "hex_val c' \<noteq> None \<or> c' \<in> {CHR '':'', CHR ''.'', CHR ''/''}" if "c' \<in> set (cidr_String c)" for c'
    using that addr_String_chars [of c' "c_addr c"] format_dec_chars [of c' "unat (c_prefixLen c)"]
    by (auto simp: cidr_String_def)
  then show "CHR '' '' \<notin> set (cidr_String c)" "CHR 0x0A \<notin> set (cidr_String c)"
    by (fastforce simp: hex_val_def)+
qed

lemma name_char_not: "\<not> name_char CHR '' ''" "\<not> name_char CHR ''\"''" "\<not> name_char CHR 0x0A" "\<not> name_char CHR ''{''"
  by (simp_all add: name_char_def letter_def)

lemma plain_id_not: "plain_id s \<Longrightarrow> CHR ''\"'' \<notin> set s" "plain_id s \<Longrightarrow> CHR 0x0A \<notin> set s"
  using name_char_not by (auto simp: plain_id_def list_all_iff)

lemma read_match_print:
  assumes "plain_match f m" and "hd t \<in> {CHR ''a'', CHR ''l''}" and "t \<noteq> []"
  shows "read_match f (print_match f m @ t) = Some (m, t)"
proof (cases m)
  case (Daddr c)
  note until_char [OF cidr_String_no_space(1), of c t]
  moreover have "strip ''ct state established,related '' (print_match f m @ t) = None"
    using Daddr by (cases f) (simp_all add: strip_def family_name_def)
  moreover have "strip (family_name f @ '' daddr '') (print_match f m @ t) = Some (cidr_String c @ CHR '' '' # t)"
    using strip_append [of "family_name f @ '' daddr ''" "cidr_String c @ CHR '' '' # t"] Daddr by simp
  ultimately show ?thesis using Daddr assms(1) by (simp add: read_match_def Parse_String)
next
  case Always
  obtain c t' where "t = c # t'" "c \<in> {CHR ''a'', CHR ''l''}" using assms(2,3) by (cases t) auto
  then show ?thesis using Always by (cases f) (auto simp: read_match_def strip_def family_name_def)
qed (simp add: read_match_def strip_def)

lemma read_action_print: "plain_action a \<Longrightarrow> read_action (print_action a) = Some a"
proof -
  have "takeWhile (\<lambda>c. c \<noteq> CHR ''\"'') (s @ CHR '':'' # CHR ''\"'' # t) = s @ '':''"
    "dropWhile (\<lambda>c. c \<noteq> CHR ''\"'') (s @ CHR '':'' # CHR ''\"'' # t) = CHR ''\"'' # t" if "plain_id s" for s t
    using until_char [of "CHR ''\"''" "s @ '':''" t] plain_id_not(1) [OF that] by simp_all
  then show "plain_action a \<Longrightarrow> read_action (print_action a) = Some a"
    by (cases a) (simp_all add: read_action_def logStmt_def strip_def Let_def)
qed

text \<open>The lines of a command.\<close>

definition rule_line :: "family \<Rightarrow> rule \<Rightarrow> string" where
  "rule_line f r = ''        '' @ print_match f (fst r) @ print_action (snd r)"

fun cmd_lines :: "nft_cmd \<Rightarrow> string list" where
  "cmd_lines (EnsureTable f n) = [''table '' @ family_name f @ '' '' @ n @ '' { }'']"
| "cmd_lines (DeleteTable f n) = [''delete table '' @ family_name f @ '' '' @ n]"
| "cmd_lines (DefineTable f n t) =
     [''table '' @ family_name f @ '' '' @ n @ '' {'', ''    chain forward {'',
      ''        type filter hook forward priority 0; policy drop;''] @ map (rule_line f) (t_forward t) @ [''    }''] @
     (if t_masquerade t
      then [''    chain postrouting {'', ''        type nat hook postrouting priority srcnat; policy accept;'',
            ''        masquerade'', ''    }''] else []) @ [''}'']"

lemma print_cmd_lines: "print_cmd c = concat (map (\<lambda>l. l @ nl) (cmd_lines c))"
proof -
  have "print_rule f = (\<lambda>r. rule_line f r @ nl)" for f by (simp add: fun_eq_iff print_rule_def rule_line_def)
  then show ?thesis by (cases c) (simp_all add: print_nat_chain_def comp_def)
qed

lemma rule_line_one_line: "plain_rule f r \<Longrightarrow> CHR 0x0A \<notin> set (rule_line f r)"
  using cidr_String_no_space(2) plain_id_not(2)
  by (cases r; cases "fst r"; cases "snd r"; cases f)
    (auto simp: plain_rule_def rule_line_def logStmt_def family_name_def)

lemma cmd_lines_one_line: "plain_cmd c \<Longrightarrow> l \<in> set (cmd_lines c) \<Longrightarrow> CHR 0x0A \<notin> set l"
  using name_char_not(3) rule_line_one_line
  by (cases c) (auto simp: plain_name_def list_all_iff family_name_def split: family.splits if_splits)

lemma read_rule_print: "plain_rule f r \<Longrightarrow> read_rule f (rule_line f r) = Some r"
proof -
  assume r: "plain_rule f r"
  have "hd (print_action a) \<in> {CHR ''a'', CHR ''l''}" "print_action a \<noteq> []" for a
    by (cases a; simp add: logStmt_def)+
  with r have "read_match f (print_match f (fst r) @ print_action (snd r)) = Some (fst r, print_action (snd r))"
    by (intro read_match_print) (simp_all add: plain_rule_def)
  moreover have "read_action (print_action (snd r)) = Some (snd r)"
    using r by (intro read_action_print) (simp add: plain_rule_def)
  ultimately show ?thesis
    unfolding read_rule_def rule_line_def strip_append by simp
qed

lemma rule_line_not_end: "rule_line f r \<noteq> ''    }''"
  by (simp add: rule_line_def)

lemma read_rules:
  "list_all (plain_rule f) rs \<Longrightarrow>
   read_script (Rules f n rs0) (map (rule_line f) rs @ ls) = read_script (Rules f n (rs0 @ rs)) ls"
proof (induction rs arbitrary: rs0)
  case (Cons r rs)
  then show ?case using rule_line_not_end [of f r] read_rule_print [of f r] by simp
qed simp

lemma read_table_print:
  assumes "plain_name n" and "rest = [] \<or> \<not> name_char (hd rest)"
  shows "read_table (family_name f @ CHR '' '' # n @ rest) = Some (f, n, rest)"
proof -
  have "takeWhile name_char (n @ rest) = n" "dropWhile name_char (n @ rest) = rest"
    using assms by (cases rest; auto simp: plain_name_def list_all_iff takeWhile_append2 dropWhile_append2)+
  then show ?thesis by (cases f) (simp_all add: read_table_def family_name_def strip_def Let_def)
qed

lemma read_cmd: "plain_cmd c \<Longrightarrow> read_script Outside (cmd_lines c @ ls) = map_option ((#) c) (read_script Outside ls)"
proof (cases c)
  case (DefineTable f n t)
  assume "plain_cmd c"
  with DefineTable have t: "plain_name n" "list_all (plain_rule f) (t_forward t)" by simp_all
  have "read_line Outside (''table '' @ family_name f @ '' '' @ n @ '' {'') = Some (ChainHead f n, [])"
    using read_table_print [OF t(1), of "'' {''" f] name_char_not(1) by (simp add: strip_def)
  then show ?thesis
    using DefineTable read_rules [OF t(2), of n "[]"] by (cases t) (simp del: read_line.simps(1))
qed (use read_table_print [of _ "[]"] read_table_print [of _ "'' { }''"] name_char_not(1) in \<open>simp_all add: strip_def\<close>)

lemma nl_lines_print:
  assumes "\<forall>l\<in>set ls. CHR 0x0A \<notin> set l"
  shows "nl_lines [] (concat (map (\<lambda>l. l @ nl) ls)) = ls"
  using assms by (induction ls) (simp_all add: nl_lines_line)

lemma line_reader_reads: "nft_reads line_reader"
proof -
  have "read_script Outside (concat (map cmd_lines cmds)) = Some cmds" if "list_all plain_cmd cmds" for cmds
    using that by (induction cmds) (simp_all add: read_cmd)
  moreover have "concat (map print_cmd cmds) = concat (map (\<lambda>l. l @ nl) (concat (map cmd_lines cmds)))" for cmds
    by (induction cmds) (simp_all add: print_cmd_lines)
  moreover have "\<forall>l\<in>set (concat (map cmd_lines cmds)). CHR 0x0A \<notin> set l" if "list_all plain_cmd cmds" for cmds
    using that cmd_lines_one_line by (auto simp: list_all_iff)
  ultimately show ?thesis by (simp add: nft_reads_def line_reader_def nl_lines_print)
qed

end
