(* ===== verification/Confinement.thy ===== *)
theory Confinement
  imports System NftText
begin

text \<open>
  The rules that are in force in the namespaces of the running enforcer. The trace of the Linux backend tells which
  namespaces exist and which nft scripts were loaded into each of them since it was added (\<open>loaded\<close>); the meaning of the
  commands is that of \<^verbatim>\<open>ip netns\<close> and \<^verbatim>\<open>nft\<close>, and a command that fails changes nothing. The theory shows that in
  every reachable state the namespace of every session holds exactly the rules of the session's credential, so
  that no interleaving of requests, drops and failures loosens the rules of a session that is already running.
\<close>

section \<open>The scripts loaded into a namespace\<close>

fun load_step :: "(string \<rightharpoonup> string list) \<Rightarrow> kop \<times> kres \<Rightarrow> (string \<rightharpoonup> string list)" where
  "load_step F (Exec argv stdin, r) =
     (if r \<noteq> KOk then F
      else if take 3 argv = [''ip'', ''netns'', ''add''] then F(argv ! 3 \<mapsto> [])
      else if take 3 argv = [''ip'', ''netns'', ''del''] then F(argv ! 3 := None)
      else if argv = nft_argv (argv ! 3) then F(argv ! 3 := map_option (\<lambda>l. l @ [stdin]) (F (argv ! 3)))
      else F)"
| "load_step F (_, r) = F"

definition loaded :: "ktrace \<Rightarrow> string \<rightharpoonup> string list" where
  "loaded t = foldl load_step Map.empty t"

lemma loaded_append: "loaded (t @ u) = foldl load_step (loaded t) u"
  by (simp add: loaded_def)

lemma load_commands [simp]:
  "load_step F (Exec (netns_del_argv ns) x, r) = (if r = KOk then F(ns := None) else F)"
  "load_step F (Exec (netns_add_argv ns) x, r) = (if r = KOk then F(ns \<mapsto> []) else F)"
  "load_step F (Exec (nft_argv ns) x, r) = (if r = KOk then F(ns := map_option (\<lambda>l. l @ [x]) (F ns)) else F)"
  by (simp_all add: netns_del_argv_def netns_add_argv_def nft_argv_def)

lemma load_uplink: "argv \<in> set (uplink_steps idx ns) \<Longrightarrow> load_step F (Exec argv [], r) = F"
  by (cases "uplinkSubnet idx", simp only: uplink_steps_def Let_def prod.case list.set insert_iff empty_iff, elim disjE)
    (simp_all add: nft_argv_def)

lemma load_not_exec: "\<forall>argv stdin. fst c \<noteq> Exec argv stdin \<Longrightarrow> load_step F c = F"
  by (cases c; cases "fst c") auto

declare load_step.simps(1) [simp del]

lemma foldl_load_id: "\<forall>c\<in>set t. \<forall>F. load_step F c = F \<Longrightarrow> foldl load_step F t = F"
  by (induction t arbitrary: F) auto

lemma load_all_ok [simp]: "foldl load_step F (all_ok (uplink_steps idx ns)) = F"
  by (rule foldl_load_id) (auto simp: load_uplink)

lemma load_stopped:
  assumes "stopped_run (uplink_steps idx ns) t"
  shows "foldl load_step F t = F"
proof -
  obtain xs a ys r where t: "uplink_steps idx ns = xs @ a # ys" "t = all_ok xs @ [(Exec a [], r)]"
    using assms by (auto simp: stopped_run_def)
  then have "load_step F' (Exec argv [], r') = F'" if "argv \<in> set xs \<or> argv = a" for argv r' F'
    using that by (intro load_uplink [of argv idx ns]) auto
  then show ?thesis
    using t(2) by (intro foldl_load_id) auto
qed

lemma load_close: "map fst t = close_listener ns \<Longrightarrow> foldl load_step F t = F"
  by (rule foldl_load_id) (auto simp: close_listener_def leave_ns_def)

lemma load_listener_ok [simp]: "foldl load_step F (listener_ok ns) = F"
  by (rule foldl_load_id) (auto simp: listener_ok_def listener_calls_def)

lemma load_prologue [simp]:
  "foldl load_step F (create_prologue s cs) =
     F(netnsName s \<mapsto> [Render \<lparr>rs_sessionID = s, rs_targets = cs\<rparr>])"
  by (simp add: create_prologue_def)

section \<open>What the backend does to them\<close>

lemma Create_loaded:
  assumes "Create k s cs b = (err, b')"
  shows "ns \<noteq> netnsName s \<Longrightarrow> loaded (ls_trace b') ns = loaded (ls_trace b) ns"
    "err = None \<Longrightarrow> loaded (ls_trace b') (netnsName s) = Some [Render \<lparr>rs_sessionID = s, rs_targets = cs\<rparr>]"
proof -
  have run: "create_run s cs b (err, b')" using Create_runs [of s cs b k] assms by simp
  show "loaded (ls_trace b') ns = loaded (ls_trace b) ns" if "ns \<noteq> netnsName s"
    using run
  proof cases
    case (listener_failed t m rd)
    then show ?thesis using that foldl_load_id [of t] by (auto simp: loaded_append load_not_exec)
  qed (use that in \<open>auto simp: loaded_append load_stopped load_close create_prologue_def\<close>)
  show "loaded (ls_trace b') (netnsName s) = Some [Render \<lparr>rs_sessionID = s, rs_targets = cs\<rparr>]" if "err = None"
    using run that by cases (auto simp: loaded_append)
qed

lemma Destroy_loaded:
  assumes "Destroy k s b = (err, b')"
  shows "ns \<noteq> netnsName s \<or> err \<noteq> None \<Longrightarrow> loaded (ls_trace b') ns = loaded (ls_trace b) ns"
proof -
  obtain t r where t: "map fst t = (case ls_listeners b s of Some ns \<Rightarrow> close_listener ns | None \<Rightarrow> [])"
    and d: "Destroy k s b = (cmd_error (''ip netns del '' @ netnsName s) ''ip netns del'' r,
        traced (forget_listener s (if r = KOk then b\<lparr>ls_uplinks := free (ls_uplinks b) s\<rparr> else b))
          (t @ [(Exec (netns_del_argv (netnsName s)) [], r)]))"
    using Destroy_runs by blast
  have "foldl load_step F t = F" for F
    using t load_close by (cases "ls_listeners b s") auto
  moreover assume "ns \<noteq> netnsName s \<or> err \<noteq> None"
  ultimately show ?thesis using d assms by (auto simp: loaded_append)
qed

lemma CreateSandbox_linux:
  assumes "CreateSandbox (LinuxBackend_ops k) c s cs = (err, c')"
  shows "s \<in> ct_active c \<and> c' = c \<and> err \<noteq> None \<or>
    s \<notin> ct_active c \<and> Create k s cs (ct_backend c) = (err, ct_backend c') \<and>
    ct_active c' = (if err = None then insert s (ct_active c) else ct_active c)"
  using assms by (auto simp: CreateSandbox_def LinuxBackend_ops_def split: if_splits prod.splits option.splits)

lemma DestroySandbox_linux:
  assumes "DestroySandbox (LinuxBackend_ops k) c s = (err, c')"
  shows "s \<notin> ct_active c \<and> c' = c \<and> err \<noteq> None \<or>
    s \<in> ct_active c \<and> Destroy k s (ct_backend c) = (err, ct_backend c') \<and>
    ct_active c' = (if err = None then ct_active c - {s} else ct_active c)"
  using assms by (auto simp: DestroySandbox_def LinuxBackend_ops_def split: if_splits prod.splits option.splits)

section \<open>The invariant\<close>

text \<open>The namespace of the session holds the rules of its credential and nothing else.\<close>

definition rules_loaded :: "LinuxSandbox \<Rightarrow> string \<Rightarrow> Credential \<Rightarrow> bool" where
  "rules_loaded b s cred \<longleftrightarrow>
     cd_SessionID cred = s \<and>
     (\<exists>cs. rmap Parse (cd_Targets cred) = Inr cs \<and>
        loaded (ls_trace b) (netnsName s) = Some [Render \<lparr>rs_sessionID = s, rs_targets = cs\<rparr>])"

definition fw_inv :: "kernel \<Rightarrow> LinuxSandbox AppState \<Rightarrow> bool" where
  "fw_inv k st \<longleftrightarrow>
     dom (st_Sessions st) = ct_active (st_Sandbox st) \<and> ctrl_reachable k (st_Sandbox st) \<and>
     (\<forall>s cred. st_Sessions st s = Some cred \<longrightarrow> rules_loaded (backend_of st) s cred)"

lemma rules_loaded_cong:
  "loaded (ls_trace b') (netnsName s) = loaded (ls_trace b) (netnsName s) \<Longrightarrow> rules_loaded b' s cred = rules_loaded b s cred"
  by (simp add: rules_loaded_def)

text \<open>A session that is created touches no namespace of another session: its name was not in use.\<close>

lemma Create_keeps_rules:
  assumes "netns_add_exclusive k" and "ctrl_reachable k c" and "s \<notin> ct_active c"
    and "Create k s cs (ct_backend c) = (err, b')" and "s' \<in> ct_active c"
  shows "rules_loaded b' s' cred = rules_loaded (ct_backend c) s' cred"
proof (rule rules_loaded_cong)
  have live: "netnsName s' \<in> live_ns (ls_trace (ct_backend c))"
    using ctrl_reachable_names [OF assms(2,1)] assms(5) by (auto simp: names_inv_def)
  show "loaded (ls_trace b') (netnsName s') = loaded (ls_trace (ct_backend c)) (netnsName s')"
  proof (cases "netnsName s' = netnsName s")
    case True
    with live have "netnsName s \<in> live_ns (ls_trace (ct_backend c))" by simp
    from Create_existing [OF assms(1) this, of cs] assms(4) show ?thesis by (auto simp: loaded_append)
  qed (use Create_loaded(1) [OF assms(4)] in simp)
qed

lemma Destroy_keeps_rules:
  assumes "netns_add_exclusive k" and "ctrl_reachable k c" and "s \<in> ct_active c"
    and "Destroy k s (ct_backend c) = (err, b')" and "s' \<in> ct_active c" and "s' \<noteq> s \<or> err \<noteq> None"
  shows "rules_loaded b' s' cred = rules_loaded (ct_backend c) s' cred"
proof (rule rules_loaded_cong)
  have "inj_on netnsName (ct_active c)"
    using ctrl_reachable_names [OF assms(2,1)] by (simp add: names_inv_def)
  with assms(3,5,6) have "netnsName s' \<noteq> netnsName s \<or> err \<noteq> None" by (auto dest: inj_onD)
  then show "loaded (ls_trace b') (netnsName s') = loaded (ls_trace (ct_backend c)) (netnsName s')"
    by (rule Destroy_loaded [OF assms(4)])
qed

lemma fw_inv_same:
  assumes "fw_inv k st" and "st_Sessions st' = st_Sessions st" and "ct_active (st_Sandbox st') = ct_active (st_Sandbox st)"
    and "ctrl_reachable k (st_Sandbox st')"
    and "\<And>s cred. s \<in> ct_active (st_Sandbox st) \<Longrightarrow> rules_loaded (backend_of st') s cred = rules_loaded (backend_of st) s cred"
  shows "fw_inv k st'"
proof -
  have "s \<in> ct_active (st_Sandbox st)" if "st_Sessions st s = Some cred" for s cred
    using assms(1) that by (auto simp: fw_inv_def)
  with assms show ?thesis unfolding fw_inv_def by simp
qed

lemma fw_inv_create:
  assumes "netns_add_exclusive k" and "fw_inv k st" and "createSession tx (LinuxBackend_ops k) body st = (r, st')"
    and "ctrl_reachable k (st_Sandbox st')"
  shows "fw_inv k st'"
  using assms(3)
proof (cases rule: createSession_cases)
  case same
  then show ?thesis using assms(2) by simp
next
  case (failed s cs e)
  have "st_Sessions st' = st_Sessions st" by (subst failed(2)) simp
  moreover have "ct_active (st_Sandbox st') = ct_active (st_Sandbox st)" using CreateSandbox_linux [OF failed(1)] by auto
  moreover have "rules_loaded (backend_of st') s' cred = rules_loaded (backend_of st) s' cred"
    if "s' \<in> ct_active (st_Sandbox st)" for s' cred
    using CreateSandbox_linux [OF failed(1)] Create_keeps_rules [OF assms(1) _ _ _ that] assms(2) by (auto simp: fw_inv_def)
  ultimately show ?thesis by (intro fw_inv_same [OF assms(2) _ _ assms(4)])
next
  case (created cred cs c')
  let ?s = "cd_SessionID cred"
  have c: "?s \<notin> ct_active (st_Sandbox st)" "Create k ?s cs (backend_of st) = (None, ct_backend c')"
    "ct_active c' = insert ?s (ct_active (st_Sandbox st))"
    using CreateSandbox_linux [OF created(1)] by auto
  have "rules_loaded (ct_backend c') ?s cred"
    using Create_loaded(2) [OF c(2)] created(3) by (simp add: rules_loaded_def)
  moreover have "rules_loaded (ct_backend c') s' cred'" if "st_Sessions st s' = Some cred'" for s' cred'
  proof -
    have "s' \<in> ct_active (st_Sandbox st)" using that assms(2) by (auto simp: fw_inv_def)
    then show ?thesis using Create_keeps_rules [OF assms(1) _ c(1,2)] that assms(2) by (simp add: fw_inv_def)
  qed
  ultimately show ?thesis using assms(2,4) created(5) c(3) by (simp add: fw_inv_def)
qed

lemma fw_inv_delete:
  assumes "netns_add_exclusive k" and "fw_inv k st" and "deleteSession (LinuxBackend_ops k) s st = (r, st')"
    and "ctrl_reachable k (st_Sandbox st')"
  shows "fw_inv k st'"
  using assms(3)
proof (cases rule: deleteSession_cases)
  case unknown
  then show ?thesis using assms(2) by simp
next
  case (failed e)
  have "st_Sessions st' = st_Sessions st" by (subst failed(5)) simp
  moreover have "ct_active (st_Sandbox st') = ct_active (st_Sandbox st)" using DestroySandbox_linux [OF failed(1)] by auto
  moreover have "rules_loaded (backend_of st') s' cred = rules_loaded (backend_of st) s' cred"
    if "s' \<in> ct_active (st_Sandbox st)" for s' cred
    using DestroySandbox_linux [OF failed(1)] Destroy_keeps_rules [OF assms(1) _ _ _ that] assms(2)
    by (auto simp: fw_inv_def)
  ultimately show ?thesis by (intro fw_inv_same [OF assms(2) _ _ assms(4)])
next
  case (deleted e c')
  have s: "s \<in> ct_active (st_Sandbox st)" using deleted(3) assms(2) by (auto simp: fw_inv_def)
  then have d: "Destroy k s (backend_of st) = (e, ct_backend c')"
    "ct_active c' = (if e = None then ct_active (st_Sandbox st) - {s} else ct_active (st_Sandbox st))"
    using DestroySandbox_linux [OF deleted(1)] by auto
  have "e = None"
  proof (rule ccontr)
    assume "e \<noteq> None"
    then obtain x where "e = Some (NotFoundError x)" using deleted(2) by auto
    with deleted(1) s show False
      using linux.destroy_error_cases [of k "st_Sandbox st" s] by auto
  qed
  moreover have "rules_loaded (ct_backend c') s' cred" if "st_Sessions st s' = Some cred" "s' \<noteq> s" for s' cred
  proof -
    have "s' \<in> ct_active (st_Sandbox st)" using that assms(2) by (auto simp: fw_inv_def)
    then show ?thesis using Destroy_keeps_rules [OF assms(1) _ s d(1)] that assms(2) by (simp add: fw_inv_def)
  qed
  ultimately show ?thesis using assms(2,4) deleted(5) d(2) by (auto simp: fw_inv_def drop_session_def split: if_splits)
qed

lemma fw_inv_request:
  assumes "netns_add_exclusive k" and "fw_inv k st"
  shows "fw_inv k (snd (Router tx (LinuxBackend_ops k) rq st))"
proof -
  let ?ops = "LinuxBackend_ops k"
  have reach: "ctrl_reachable k (st_Sandbox (snd (Router tx ?ops rq st)))" if "mux (rq_Method rq) (rq_Path rq) = Some (ep, args)" for ep args
    using ctrl_reachable_step [OF _ Router_ctrl] assms(2) by (auto simp: fw_inv_def)
  have c: "fw_inv k (snd (createSession tx ?ops (rq_Body rq) st))"
    if "mux (rq_Method rq) (rq_Path rq) = Some (CreateSession, args)" for args
    using fw_inv_create [OF assms prod.collapse [symmetric]] reach [OF that] that by (simp add: Router_def)
  have d: "fw_inv k (snd (deleteSession ?ops (hd args) st))"
    if "mux (rq_Method rq) (rq_Path rq) = Some (DeleteSession, args)" for args
    using fw_inv_delete [OF assms prod.collapse [symmetric]] reach [OF that] that by (simp add: Router_def)
  show ?thesis
  proof (cases "mux (rq_Method rq) (rq_Path rq)")
    case None
    then show ?thesis using assms(2) by (simp add: Router_def Let_def split: list.split)
  next
    case (Some ea)
    then obtain ep args where m: "mux (rq_Method rq) (rq_Path rq) = Some (ep, args)" by (cases ea) simp
    then show ?thesis using assms(2) c d by (cases ep) (simp_all add: Router_def)
  qed
qed

text \<open>Steps that change neither the sessions nor the trace of the backend.\<close>

lemma fw_inv_frame:
  assumes "fw_inv k st" and "st_Sessions st' = st_Sessions st" and "ct_active (st_Sandbox st') = ct_active (st_Sandbox st)"
    and "ctrl_reachable k (st_Sandbox st')" and "ls_trace (backend_of st') = ls_trace (backend_of st)"
  shows "fw_inv k st'"
  using assms by (intro fw_inv_same [OF assms(1-4)] rules_loaded_cong) simp

lemma consume_step_sessions:
  assumes "consume_step cr nv d written sync_ok (pc, st) = (pc', st')"
  shows "st_Sessions st' = st_Sessions st"
proof -
  have "st_Sessions (snd (recordDrop cr nv d st)) = st_Sessions st"
  proof (cases "st_Sessions st (d_SessionID d)")
    case (Some cred)
    obtain ok b where "admitLocked (nv_mono nv) (d_SessionID d) st = (ok, st\<lparr>st_buckets := (st_buckets st)(d_SessionID d \<mapsto> b)\<rparr>)"
      using admitLocked_frame by (metis prod.collapse)
    with Some show ?thesis
      by (cases ok) (simp_all add: recordDrop_def Let_def addLossLocked_def push_event_def split: sum.split)
  qed (simp add: recordDrop_dead)
  with assms show ?thesis
    by (cases pc) (auto simp: addLossLocked_def split: option.splits prod.splits bool.splits if_splits)
qed

lemma nflog_hook_trace: "nflog_hook s now payload b = Some b' \<Longrightarrow> ls_trace b' = ls_trace b"
  by (cases rule: nflog_hook_cases) auto

lemma fw_inv_ctrl: "fw_inv k st \<Longrightarrow> ctrl_step k (st_Sandbox st) c \<Longrightarrow> ctrl_reachable k c"
  unfolding fw_inv_def by (blast intro: ctrl_reachable_step)

lemma fw_inv_step:
  assumes "netns_add_exclusive k"
  shows "sys_step tx k cr disk s s' \<Longrightarrow> fw_inv k (snd (snd s)) \<Longrightarrow> fw_inv k (snd (snd s'))"
proof (induction rule: sys_step.induct)
  case (request pc rn st rq)
  then show ?case using fw_inv_request [OF assms] by simp
next
  case (packet st s now payload b pc rn)
  have "ctrl_reachable k ((st_Sandbox st)\<lparr>ct_backend := b\<rparr>)"
    using packet(3) ctrl_step.packet [OF packet(1,2)] unfolding snd_conv by (rule fw_inv_ctrl)
  with packet(3) show ?case
    unfolding snd_conv by (elim fw_inv_frame) (simp_all add: nflog_hook_trace [OF packet(2)])
next
  case (receive st d ds nv written sync_ok pc' st' rn)
  let ?c = "(st_Sandbox st)\<lparr>ct_backend := (backend_of st)\<lparr>ls_drops := ds\<rparr>\<rparr>"
  have "ctrl_reachable k ?c"
    using receive(3) ctrl_step.receive [OF receive(1)] unfolding snd_conv by (rule fw_inv_ctrl)
  with receive(3) show ?case
    unfolding snd_conv
    by (elim fw_inv_frame) (simp_all add: consume_step_frame [OF receive(2)] consume_step_sessions [OF receive(2)])
next
  case (consume pc nv d written sync_ok st pc' st' rn)
  have "ctrl_reachable k (st_Sandbox st)" using consume(3) by (simp add: fw_inv_def)
  with consume(3) show ?case
    unfolding snd_conv
    by (elim fw_inv_frame) (simp_all add: consume_step_frame [OF consume(2)] consume_step_sessions [OF consume(2)])
qed (simp_all add: fw_inv_def)

interpretation fw: step_invariant "sys_start key sp rn" "sys_step tx k cr disk"
  "\<lambda>s. netns_add_exclusive k \<longrightarrow> fw_inv k (snd (snd s))" for key sp rn tx k cr disk
  by unfold_locales
    (simp add: fw_inv_def sys_start_def empty_state_def NewController_def ctrl_reachable_def, use fw_inv_step in blast)

section \<open>Properties\<close>

text \<open>C1: Confinement holds at every moment. In every reachable state of the enforcer, whatever requests, packets, failures of
  programs and interleavings led to it, the namespace of every session has been loaded with exactly one nft script since it was
  added, and, if the session's identifier is plain, this script confines the session to the targets of its own credential: what
  nft reads from it makes the session's tables and no others in the fresh namespace, and with these a new connection passes exactly if
  one of the targets contains the destination and no denied block does.\<close>

theorem confined_at_every_moment:
  assumes "nft_reads nft" and "netns_add_exclusive k" and "sys_reachable tx k cr disk key sp rn (pc, rn', st)"
    and "st_Sessions st s = Some cred"
  shows "\<exists>script. loaded (ls_trace (backend_of st)) (netnsName s) = Some [script] \<and>
    (plain_id s \<longrightarrow> confines nft script (cd_Targets cred))"
proof -
  have "rules_loaded (backend_of st) s cred"
    using fw.reachable_inv [OF assms(3) [unfolded sys_reachable_def]] assms(2,4) by (simp add: fw_inv_def)
  then obtain cs where cs: "rmap Parse (cd_Targets cred) = Inr cs"
    "loaded (ls_trace (backend_of st)) (netnsName s) = Some [Render \<lparr>rs_sessionID = s, rs_targets = cs\<rparr>]"
    by (auto simp: rules_loaded_def)
  then show ?thesis
    using Render_confines [OF assms(1), of "\<lparr>rs_sessionID = s, rs_targets = cs\<rparr>" "cd_Targets cred"] by auto
qed

text \<open>The state after one request that creates a session, with the reader of lines for nft.\<close>

theorem confined_at_every_moment_witness:
  "let st = snd (Router example_texts (LinuxBackend_ops plain_kernel)
        \<lparr>rq_Method = ''POST'', rq_Path = [''sessions''], rq_Body = json_encode (credential_json example_cred)\<rparr>
        (snd (snd (sys_start example_key empty_spool None))))
   in st_Sessions st ''s-1'' = Some example_cred \<and>
     (\<exists>script. loaded (ls_trace (backend_of st)) (netnsName ''s-1'') = Some [script] \<and>
        confines line_reader script [''10.0.0.0/24''])"
proof -
  let ?st = "empty_state (NewController NewLinuxSandbox) example_key (Some empty_spool) (Some False)"
  let ?rq = "\<lparr>rq_Method = ''POST'', rq_Path = [''sessions''], rq_Body = json_encode (credential_json example_cred)\<rparr>"
  let ?st' = "snd (Router example_texts (LinuxBackend_ops plain_kernel) ?rq ?st)"
  have reach: "sys_reachable example_texts plain_kernel example_crypto {} example_key empty_spool None (Waiting, None, ?st')"
    unfolding sys_reachable_def by (rule r_into_rtranclp) (simp add: sys_start_def sys_step.request)
  have "mux ''POST'' [''sessions''] = Some (CreateSession, [])" by (simp add: mux_def routes_def)
  then have "?st' = snd (createSession example_texts (LinuxBackend_ops plain_kernel) (json_encode (credential_json example_cred)) ?st)"
    by (simp add: Router_def)
  moreover have "st_Sessions \<dots> ''s-1'' = Some example_cred"
    using plain_create_session [of "Some empty_spool" "Some False"] by (elim exE conjE) simp
  ultimately have sess: "st_Sessions ?st' ''s-1'' = Some example_cred" by simp
  have "plain_id ''s-1''" by (simp add: plain_id_def name_char_def letter_def)
  moreover have "cd_Targets example_cred = [''10.0.0.0/24'']" by (simp add: example_cred_def)
  ultimately show ?thesis
    using confined_at_every_moment [OF line_reader_reads plain_kernel_exclusive reach sess] sess
    by (auto simp: sys_start_def Let_def)
qed

end
