(* ===== verification/Answers.thy ===== *)
theory Answers
  imports Api
begin

text \<open>
  The types of the answers of the HTTP API (package \<^verbatim>\<open>api\<close>, \<^verbatim>\<open>enforcer/internal/api/api.go\<close>): for each route the statuses it
  can have, and for each status what the body is. A body of type JSON is one that \<^verbatim>\<open>json.Unmarshal\<close> reads; whatever bytes
  the strings of a credential, an event or an error text hold, the handlers never write one that it does not.
\<close>

section \<open>Types of answers\<close>

definition empty_answer :: "HttpResponse \<Rightarrow> bool" where
  "empty_answer r \<longleftrightarrow> hr_Header r = [] \<and> hr_Body r = []"

definition json_answer :: "(json \<Rightarrow> bool) \<Rightarrow> HttpResponse \<Rightarrow> bool" where
  "json_answer P r \<longleftrightarrow> map_of (hr_Header r) ''Content-Type'' = Some ''application/json'' \<and>
     (case json_parse_all (hr_Body r) of None \<Rightarrow> False | Some v \<Rightarrow> P v)"

fun is_string :: "json \<Rightarrow> bool" where
  "is_string (JStr s) \<longleftrightarrow> True"
| "is_string _ \<longleftrightarrow> False"

fun string_object :: "string list \<Rightarrow> json \<Rightarrow> bool" where
  "string_object ks (JObj ms) \<longleftrightarrow> map fst ms = ks \<and> list_all (\<lambda>(_, v). is_string v) ms"
| "string_object ks _ \<longleftrightarrow> False"

fun array_of :: "(json \<Rightarrow> bool) \<Rightarrow> json \<Rightarrow> bool" where
  "array_of P (JArr vs) \<longleftrightarrow> list_all P vs"
| "array_of P _ \<longleftrightarrow> False"

definition error_answer :: "HttpResponse \<Rightarrow> bool" where
  "error_answer r \<longleftrightarrow> json_answer (string_object [''error'']) r"

definition jwk_keys :: "string list" where
  "jwk_keys = [''crv'', ''key_id'', ''kty'', ''x'']"

text \<open>The comments of the handlers, as a predicate.\<close>

fun answer_type :: "endpoint \<Rightarrow> HttpResponse \<Rightarrow> bool" where
  "answer_type CreateSession r \<longleftrightarrow>
     hr_Status r = 201 \<and> json_answer (string_object [''session_id'']) r \<or>
     hr_Status r = 409 \<and> empty_answer r \<or> hr_Status r \<in> {422, 500} \<and> error_answer r"
| "answer_type DeleteSession r \<longleftrightarrow>
     hr_Status r \<in> {204, 404} \<and> empty_answer r \<or> hr_Status r = 500 \<and> error_answer r"
| "answer_type GetSessionEvents r \<longleftrightarrow>
     hr_Status r = 200 \<and> json_answer (array_of (string_object event_keys)) r \<and>
       (\<exists>n<2 ^ 64. map_of (hr_Header r) ''X-Warden-Lost-Events'' = Some (format_dec n)) \<or>
     hr_Status r = 404 \<and> empty_answer r"
| "answer_type GetActiveKey r \<longleftrightarrow> hr_Status r = 200 \<and> json_answer (string_object jwk_keys) r"
| "answer_type GetKeyByID r \<longleftrightarrow>
     hr_Status r = 200 \<and> json_answer (\<lambda>v. string_object jwk_keys v \<or>
       string_object [''crv'', ''key_id'', ''kty'', ''retired_at'', ''x''] v) r \<or>
     hr_Status r = 404 \<and> empty_answer r"

section \<open>The encoder keeps the types\<close>

lemma empty_answer_WriteHeader [simp]: "empty_answer (WriteHeader n)"
  by (simp add: empty_answer_def WriteHeader_def)

lemma is_string_iff: "is_string v \<longleftrightarrow> (\<exists>s. v = JStr s)"
  by (cases v) simp_all

text \<open>Objects of strings and arrays of them are encoded to a text that is read back.\<close>

lemma string_object_encodable: "string_object ks v \<Longrightarrow> no_num v \<and> json_depth v \<le> 1"
proof (cases v)
  case (JObj ms)
  assume "string_object ks v"
  then have "list_all (\<lambda>(_, v). is_string v) ms" using JObj by simp
  then have "list_all (\<lambda>(k, v). no_num v) ms \<and> foldr max (map (\<lambda>(k, v). json_depth v) ms) 0 = 0"
    by (induction ms) (auto simp: is_string_iff)
  then show ?thesis using JObj by simp
qed simp_all

lemma array_encodable: "array_of (string_object ks) v \<Longrightarrow> no_num v \<and> json_depth v \<le> 2"
proof (cases v)
  case (JArr vs)
  assume "array_of (string_object ks) v"
  then have "list_all (string_object ks) vs" using JArr by simp
  then have "list_all no_num vs \<and> foldr max (map json_depth vs) 0 \<le> 1"
    using string_object_encodable [of ks] by (induction vs) auto
  then show ?thesis using JArr by simp
qed simp_all

text \<open>The keys are ASCII, so the encoder changes only the values.\<close>

lemma string_object_sanitize:
  assumes "string_object ks v" and "list_all (list_all (\<lambda>c. (of_char c :: nat) < 0x80)) ks"
  shows "string_object ks (json_sanitize v)"
proof (cases v)
  case (JObj ms)
  have "utf8_sanitize (fst m) = fst m" if "m \<in> set ms" for m
    using assms that JObj by (intro utf8_sanitize_ascii) (auto simp: list_all_iff)
  then have "map (fst \<circ> (\<lambda>(k, v). (utf8_sanitize k, json_sanitize v))) ms = map fst ms" by auto
  moreover have "is_string (json_sanitize v)" if "is_string v" for v using that by (cases v) simp_all
  ultimately show ?thesis using JObj assms(1) by (auto simp: list_all_iff simp del: map_eq_conv)
qed (use assms(1) in simp_all)

lemma array_sanitize:
  assumes "array_of (string_object ks) v" and "list_all (list_all (\<lambda>c. (of_char c :: nat) < 0x80)) ks"
  shows "array_of (string_object ks) (json_sanitize v)"
  using assms string_object_sanitize by (cases v) (auto simp: list_all_iff)

lemma json_answer_writeJSON:
  assumes "no_num v" and "json_depth v \<le> maxNestingDepth" and "P (json_sanitize v)"
  shows "json_answer P (writeJSON n v)"
  using json_roundtrip_all [OF assms(1,2), of "[newline]"] assms(3)
  by (simp add: json_answer_def writeJSON_def is_ws_def)

lemma object_answer:
  assumes "string_object ks v" and "list_all (list_all (\<lambda>c. (of_char c :: nat) < 0x80)) ks"
  shows "json_answer (string_object ks) (writeJSON n v)"
  using string_object_encodable [OF assms(1)] string_object_sanitize [OF assms]
  by (intro json_answer_writeJSON) (simp_all add: maxNestingDepth_def)

lemma array_answer:
  assumes "array_of (string_object ks) v" and "list_all (list_all (\<lambda>c. (of_char c :: nat) < 0x80)) ks"
  shows "json_answer (array_of (string_object ks)) (writeJSON n v)"
  using array_encodable [OF assms(1)] array_sanitize [OF assms]
  by (intro json_answer_writeJSON) (simp_all add: maxNestingDepth_def)

lemma json_answer_mono: "json_answer P r \<Longrightarrow> (\<And>v. P v \<Longrightarrow> Q v) \<Longrightarrow> json_answer Q r"
  by (auto simp: json_answer_def split: option.splits)

lemma json_answer_header [simp]:
  "k \<noteq> ''Content-Type'' \<Longrightarrow> json_answer P (r\<lparr>hr_Header := (k, x) # hr_Header r\<rparr>) \<longleftrightarrow> json_answer P r"
  by (simp add: json_answer_def)

section \<open>The handlers\<close>

lemma error_answer_writeError [simp]: "error_answer (writeError n m)"
  unfolding error_answer_def writeError_def
  by (rule object_answer, simp add: json_map_def, code_simp)

lemma createSession_type: "answer_type CreateSession (fst (createSession tx ops body st))"
proof -
  have "json_answer (string_object [''session_id'']) (writeJSON 201 (json_map [(''session_id'', JStr s)]))" for s
    by (rule object_answer, simp add: json_map_def, code_simp)
  then show ?thesis
    by (simp add: createSession_def status_simps split: option.split sum.split prod.split sandbox_error.split)
qed

lemma deleteSession_type: "answer_type DeleteSession (fst (deleteSession ops s st))"
  by (simp add: deleteSession_def status_simps split: option.split prod.split sandbox_error.split)

lemma event_object: "string_object event_keys (event_json e)"
  using event_members_keys [of e]
  by (simp add: event_json_def string_members_def list_all_iff comp_def case_prod_beta)

lemma getSessionEvents_type: "answer_type GetSessionEvents (getSessionEvents ops s st)"
proof -
  have "json_answer (array_of (string_object event_keys)) (writeJSON 200 (JArr (map event_json evs)))" for evs
    by (rule array_answer [OF _ event_keys_ordered(3)]) (simp add: list_all_iff event_object)
  moreover have "unat (x :: u64) < 2 ^ 64" for x using unsigned_less [of x] by simp
  ultimately show ?thesis
    by (auto simp: getSessionEvents_def status_simps Let_def)
qed

lemma key_jwk_answer: "json_answer (string_object jwk_keys) (writeJSON 200 (json_map (key_jwk key)))"
  by (rule object_answer, simp add: json_map_def key_jwk_def PublicKeyJWK_def jwk_keys_def, code_simp)

lemma retired_jwk_answer:
  "json_answer (string_object [''crv'', ''key_id'', ''kty'', ''retired_at'', ''x''])
     (writeJSON 200 (json_map (key_jwk key @ [(''retired_at'', JStr t)])))"
  by (rule object_answer, simp add: json_map_def key_jwk_def PublicKeyJWK_def, code_simp)

lemma getKeyByID_type: "answer_type GetKeyByID (getKeyByID s st)"
  using json_answer_mono [OF key_jwk_answer] json_answer_mono [OF retired_jwk_answer]
  by (simp add: getKeyByID_def status_simps split: option.split)

section \<open>Properties\<close>

text \<open>C15: Every answer of the router has the type of its route: one of the statuses that the comments of the handler name,
  with an empty body or with a body that is read back as JSON of the shape for that status, whatever bytes the request, the
  stored strings and the error texts hold, and whatever the backend does. The count of lost events is a decimal number
  of 64 bits. A request without a route is answered in plain text.\<close>

theorem answers_well_typed:
  "case mux (rq_Method rq) (rq_Path rq) of
     Some (ep, _) \<Rightarrow> answer_type ep (fst (Router tx ops rq st))
   | None \<Rightarrow> hr_Status (fst (Router tx ops rq st)) \<in> {404, 405} \<and>
       map_of (hr_Header (fst (Router tx ops rq st))) ''Content-Type'' = Some ''text/plain; charset=utf-8'' \<and>
       snd (Router tx ops rq st) = st"
proof (cases "mux (rq_Method rq) (rq_Path rq)")
  case None
  then show ?thesis by (simp add: Router_def http_Error_def Let_def split: list.split)
next
  case (Some ea)
  then obtain ep args where m: "mux (rq_Method rq) (rq_Path rq) = Some (ep, args)" by (cases ea) simp
  then show ?thesis
    using createSession_type deleteSession_type getSessionEvents_type getKeyByID_type key_jwk_answer
    by (cases ep) (simp_all add: Router_def getActiveKey_def status_simps del: answer_type.simps(1-3,5))
qed

end
