(* ===== verification/OtherBuild.thy ===== *)
theory OtherBuild
  imports System
begin

text \<open>
  The build for systems other than Linux (\<^verbatim>\<open>cmd/warden-enforcer/backend_other.go\<close>): the same program over the no-op backend,
  which starts no listener, so that the channel of drops stays silent. The theory shows what that
  means for a client: sessions come and go as on Linux, but no session ever has an event or a loss, and the spool
  gets no entry.
\<close>

definition newBackend_other :: "unit Backend" where
  "newBackend_other = NoopBackend"

text \<open>The steps are those of theory \<open>System\<close> without packets and drops; the consumer waits for ever.\<close>

type_synonym other = "Runner option \<times> unit AppState"

inductive other_step :: "Texts \<Rightarrow> Crypto \<Rightarrow> other \<Rightarrow> other \<Rightarrow> bool" for tx :: Texts and cr :: Crypto where
  request: "other_step tx cr (rn, st) (rn, snd (Router tx newBackend_other rq st))"
| submit: "st_Outbox st = Some sp \<Longrightarrow> submitter_step cr w (x, sp) = (x', sp') \<Longrightarrow>
    other_step tx cr (Some x, st) (Some x', st\<lparr>st_Outbox := Some sp'\<rparr>)"
| wakes: "st_OutboxKick st = Some kick \<Longrightarrow> v \<noteq> Done \<Longrightarrow> run_wake v (x, kick) = Some (x', kick') \<Longrightarrow>
    other_step tx cr (Some x, st) (Some x', st\<lparr>st_OutboxKick := Some kick'\<rparr>)"

definition other_start :: "Record \<Rightarrow> Spool \<Rightarrow> Runner option \<Rightarrow> other" where
  "other_start key sp rn = (rn, empty_state (NewController ()) key (Some sp) (Some False))"

text \<open>Nothing has been recorded, and the spool holds the bytes that it held at the start.\<close>

definition silent :: "string \<Rightarrow> other \<Rightarrow> bool" where
  "silent bytes s \<longleftrightarrow>
     (case s of (rn, st) \<Rightarrow>
        (\<forall>sid. (st_Sessions st sid \<noteq> None \<longleftrightarrow> sid \<in> ct_active (st_Sandbox st)) \<and>
           st_Events st sid = (if sid \<in> ct_active (st_Sandbox st) then Some [] else None)) \<and>
        st_EventLosses st = Map.empty \<and>
        map_option sp_data (st_Outbox st) = Some bytes)"

lemma silent_create:
  assumes "createSession tx newBackend_other body st = (r, st')" and "silent bytes (rn, st)"
  shows "silent bytes (rn, st') \<and> hr_Status r \<noteq> 500"
proof -
  have ok: "CreateSandbox newBackend_other c s cs = (if s \<in> ct_active c then (Some (AlreadyExistsError s), c)
      else (None, c\<lparr>ct_active := insert s (ct_active c)\<rparr>))" for c s cs
    by (auto simp: CreateSandbox_def newBackend_other_def NoopBackend_def)
  have "hr_Status r \<noteq> 500"
    using assms(1) ok by (auto simp: createSession_def status_simps split: option.splits sum.splits if_splits prod.splits)
  moreover have "silent bytes (rn, st')"
    using assms(1)
  proof (cases rule: createSession_cases)
    case (failed s cs e)
    then have "st_Sandbox st' = st_Sandbox st" using ok [of "st_Sandbox st" s cs] by (auto split: if_splits)
    with failed(2) have "st' = st" by simp
    then show ?thesis using assms(2) by simp
  next
    case (created cred cs c')
    then show ?thesis using ok [of "st_Sandbox st" "cd_SessionID cred" cs] assms(2) by (auto simp: silent_def split: if_splits)
  qed (use assms(2) in simp)
  ultimately show ?thesis by simp
qed

lemma silent_delete:
  assumes "deleteSession newBackend_other s st = (r, st')" and "silent bytes (rn, st)"
  shows "silent bytes (rn, st') \<and> hr_Status r \<noteq> 500"
proof -
  have "DestroySandbox newBackend_other c s = (if s \<in> ct_active c
      then (None, c\<lparr>ct_active := ct_active c - {s}\<rparr>) else (Some (NotFoundError s), c))" for c
    by (auto simp: DestroySandbox_def newBackend_other_def NoopBackend_def)
  with assms show ?thesis
    by (auto simp: deleteSession_def drop_session_def silent_def status_simps split: if_splits)
qed

lemma silent_request:
  assumes "silent bytes (rn, st)"
  shows "silent bytes (rn, snd (Router tx newBackend_other rq st)) \<and> hr_Status (fst (Router tx newBackend_other rq st)) \<noteq> 500"
proof (cases "mux (rq_Method rq) (rq_Path rq)")
  case None
  then show ?thesis using assms by (simp add: Router_def http_Error_def Let_def split: list.split)
next
  case (Some ea)
  then obtain ep args where m: "mux (rq_Method rq) (rq_Path rq) = Some (ep, args)" by (cases ea) simp
  then show ?thesis
    using silent_create [OF prod.collapse [symmetric] assms] silent_delete [OF prod.collapse [symmetric] assms] assms
    by (cases ep) (auto simp: Router_def getSessionEvents_def getActiveKey_def getKeyByID_def status_simps Let_def split: option.split)
qed

lemma silent_step: "other_step tx cr s s' \<Longrightarrow> silent bytes s \<Longrightarrow> silent bytes s'"
proof (induction rule: other_step.induct)
  case (request rn st rq)
  then show ?case using silent_request by blast
next
  case (submit st sp w x x' sp')
  then have "sp_data sp' = sp_data sp" using submitter_step_data by metis
  with submit show ?case by (simp add: silent_def)
qed (simp add: silent_def)

interpretation other: step_invariant "other_start key sp rn" "other_step tx cr" "silent (sp_data sp)" for key sp rn tx cr
  by unfold_locales
    (simp add: silent_def other_start_def empty_state_def NewController_def, use silent_step in blast)

section \<open>Properties\<close>

text \<open>The build without enforcement is silent: in every reachable state a session that exists has the empty list of events
  and no losses, the spool has the bytes that it was opened with, and no request is answered 500.\<close>

theorem other_build_silent:
  assumes "(other_step tx cr)\<^sup>*\<^sup>* (other_start key sp rn) (rn', st)" and "st_Sessions st s \<noteq> None"
  shows "getSessionEvents newBackend_other s st =
      \<lparr>hr_Status = 200, hr_Header = [(''X-Warden-Lost-Events'', ''0''), (''Content-Type'', ''application/json'')], hr_Body = ''[]'' @ [newline]\<rparr>"
    and "map_option sp_data (st_Outbox st) = Some (sp_data sp)"
    and "hr_Status (fst (Router tx newBackend_other rq st)) \<noteq> 500"
proof -
  have inv: "silent (sp_data sp) (rn', st)" using other.reachable_inv [OF assms(1)] .
  have "st_Events st s = Some []" "st_EventLosses st = Map.empty" using inv assms(2) by (auto simp: silent_def)
  moreover have "format_dec 0 = ''0''" by code_simp
  ultimately show "getSessionEvents newBackend_other s st =
      \<lparr>hr_Status = 200, hr_Header = [(''X-Warden-Lost-Events'', ''0''), (''Content-Type'', ''application/json'')], hr_Body = ''[]'' @ [newline]\<rparr>"
    using assms(2) by (auto simp: getSessionEvents_def writeJSON_def loss_count_def LostDrops_def newBackend_other_def NoopBackend_def)
  show "map_option sp_data (st_Outbox st) = Some (sp_data sp)" using inv by (simp add: silent_def)
  show "hr_Status (fst (Router tx newBackend_other rq st)) \<noteq> 500" using silent_request [OF inv] by blast
qed

end
