(* ===== verification/Spec2Isabelle.thy ===== *)
theory Spec2Isabelle
  imports Enforcer Seccomp Confinement Answers OtherBuild
begin

text \<open>
  Verification of the warden enforcer (\<^verbatim>\<open>enforcer/\<close>, Go): a daemon that runs each agent session in a network
  namespace of its own, lets it reach only the address blocks of its credential, and signs, spools and publishes an
  attestation of every packet that is dropped.

  \<^bold>\<open>Parts of the program and their theories.\<close>

  \<^item> \<open>Prelude\<close>: collections of facts, results as sums, generic lemmas on lists, maps and words.
  \<^item> \<open>GoText\<close>, \<open>Netip\<close>, \<open>Encode\<close>, \<open>Json\<close>, \<open>Float64\<close>: what the program uses of Go's standard library. Strings and numbers
    (\<^verbatim>\<open>strings\<close>, \<^verbatim>\<open>strconv\<close>), addresses (\<^verbatim>\<open>net/netip\<close>), base64 and hexadecimal, JSON with its exact text and a parser with the
    nesting limit, and the rounding of \<^verbatim>\<open>float64\<close>. All of it computes.
  \<^item> \<open>Cidr\<close> (\<^verbatim>\<open>internal/cidr\<close>): parsing, membership byte by byte, printing of address blocks.
  \<^item> \<open>Ruleset\<close> (\<^verbatim>\<open>internal/ruleset\<close>): the nft script as text and as a structure, and what nft does with the
    structure. \<open>NftText\<close>: when nft reads the text as the structure.
  \<^item> \<open>Uplink\<close>, \<open>Packet\<close>, \<open>Sandbox\<close>, \<open>LinuxBackend\<close> (\<^verbatim>\<open>internal/sandbox\<close>): the pool of uplink networks, the parser of dropped
    packets, the controller over a backend, and the Linux backend with its NFLOG listener. Every call to a program or
    to the kernel is recorded in a trace; the answers are a function of the trace so far, so a theorem over all
    such functions covers every failure at every step.
  \<^item> \<open>Attest\<close> (\<^verbatim>\<open>internal/signingkey\<close>, \<^verbatim>\<open>canonical\<close>, \<^verbatim>\<open>breachevent\<close>), \<open>Config\<close> (\<^verbatim>\<open>internal/config\<close>): keys, signed bytes,
    events; the configuration.
  \<^item> \<open>Outbox\<close>, \<open>OutboxSafety\<close>, \<open>RunSteps\<close> (\<^verbatim>\<open>internal/outbox\<close>): the spool as bytes with a durable part, crashes, the submitter and its
    checkpoint. The loop of the submitter is there twice: as a function of one turn (\<open>drainOnce\<close>, \<open>run_turn\<close>) and, in \<open>RunSteps\<close>, as a
    goroutine with one step for each access to something shared, both \<^verbatim>\<open>select\<close> statements and the end of its context
    included; without interference the steps compute the function. \<open>Rekor\<close> (\<^verbatim>\<open>internal/rekor\<close>): the client of the log.
  \<^item> \<open>Api\<close> (\<^verbatim>\<open>internal/api/api.go\<close>), \<open>Drops\<close> (\<^verbatim>\<open>internal/api/drops.go\<close>), \<open>ApiInv\<close>: the shared state as a record, the handlers with
    their responses, routing, admission, recording, the consumer as steps, and the invariant of the state.
    \<open>Answers\<close>: the type of the answers of each route.
  \<^item> \<open>System\<close>: requests, packets, consumer and submitter interleaved at every access to shared state, over the Linux
    backend. \<open>Confinement\<close>: the rules that are loaded in the namespaces of the running system. \<open>OtherBuild\<close>: the same program
    over the no-op backend. \<open>Enforcer\<close> (\<^verbatim>\<open>cmd/warden-enforcer\<close>): start-up and the socket. \<open>Seccomp\<close> (\<^verbatim>\<open>internal/seccomp\<close>): the default profile and
    its query.

  \<^bold>\<open>How they fit together.\<close> A request creates a session: its credential is decoded (\<open>Api\<close>), its targets are parsed (\<open>Cidr\<close>), the
  controller (\<open>Sandbox\<close>) calls the backend, which renders the rule set (\<open>Ruleset\<close>), takes an uplink (\<open>Uplink\<close>) and starts a
  listener. The listener turns a logged packet (\<open>Packet\<close>) into a drop in a channel of 256; the consumer (\<open>Drops\<close>) admits,
  signs (\<open>Attest\<close>) and spools it (\<open>Outbox\<close>); the submitter posts it (\<open>Rekor\<close>). The interfaces are locales: \<open>session_backend\<close>
  is what controller and API rely on of a backend, interpreted for the no-op and the Linux backend;
  \<open>first_match_chain\<close> is what the rule set relies on of nft, interpreted for the evaluator of chains; the print and
  parse pair of \<open>Prelude\<close> (\<open>printed_form\<close>) is interpreted for numbers, addresses, blocks and base64; its invariant of a step relation
  (\<open>step_invariant\<close>) for the controller over the Linux backend, the submitter, the build for other systems, and three times for
  the whole system: its consistency, its wake-ups and its rules.

  \<^bold>\<open>What the theorems show.\<close> Confinement: a session that was created and whose identifier is plain reaches only its targets and never a
  denied block; for every session, its rules are in place before it is connected, and no later request, packet or failure loads others
  while the session is there. Consistency: controller, backend, uplinks, sessions, events and buckets agree in every
  reachable state; failed creations leave nothing behind. Attestation: what a signature covers, that recorded events verify, that a drop
  is recorded or counted. The bytes of acknowledged entries survive every sequence of appends, cut-off writes and crashes; they are read back as entries
  if nothing is appended between a cut-off write and the restart that removes its rest. The submitter skips nothing over appends between its
  steps, failures, crashes of the process, and crashes of the machine that leave its checkpoint within the file; it misses no wake-up as
  long as reads of the spool do not fail in the middle of it; and on a spool of whole entries it has submitted a recorded
  breach within a bounded number of turns once the log answers. Interface: every answer is of the type of its route and
  readable. Start-up fails closed. The conditions are needed: further theorems show the defects of the code outside of them, that is a corrupt
  line that blocks the spool, an append behind a cut-off write, a read error that is taken for the end of the spool, an entry that
  is submitted before it is durable, and losses and breaches charged to a later session with the same identifier.

  \<^bold>\<open>Parameters.\<close> Ed25519, SHA-256 and the package \<^verbatim>\<open>jcs\<close> are fields of the record \<open>Crypto\<close>; what is used of them is
  \<open>ed25519_correct\<close> and \<open>jcs_faithful\<close>, and a concrete instance satisfies both. The kernel, the file system, the transport
  of HTTP, clocks and fresh identifiers are arguments; where it matters that \<^verbatim>\<open>ip netns add\<close> refuses a name that exists, this is
  the hypothesis \<open>netns_add_exclusive\<close>, which a concrete kernel satisfies. The texts of some errors of the standard library are arguments.
  What \<^verbatim>\<open>nft\<close> reads from a text is the parameter \<open>nft\<close>; \<open>nft_reads\<close> says that it reads printed commands with plain names as these commands,
  and the reader \<open>line_reader\<close> of \<open>NftText\<close> satisfies it. The program puts the session identifier into the text without a check, so nothing is
  claimed of the rules of a session whose identifier is not plain (\<open>plain_id\<close>: letters, digits, underscore, dot and hyphen, fewer than 120).

  \<^bold>\<open>Bounds.\<close> All functions are total, without fuel: loops recurse on their input or have a termination proof. Words keep
  their width (loss counters wrap at \<open>2 ^ 64\<close>); Unix times are from the years 0 to 9999; \<^verbatim>\<open>float64\<close> values are within
  the normal range, and products are rounded before they are added.

  \<^bold>\<open>Not modelled.\<close> The accept loop of \<^verbatim>\<open>net/http\<close> and redirects of unclean paths; closing the spool, which the program
  never does; a crash that loses the replacement of the checkpoint file, after which entries are submitted again; packets that are logged while
  a session is being created or destroyed; what a container runtime does with the seccomp profile; the clearing service, the demonstration and the deployment files, which are not part of the enforcer.
\<close>

section \<open>A created session is confined to its credential\<close>

lemma Create_ok_trace:
  assumes "Create k s cs b = (None, b')"
  shows "\<exists>t. ls_trace b' = ls_trace b @ t \<and> guarded s cs t \<and>
    (Exec (nft_argv (netnsName s)) (Render \<lparr>rs_sessionID = s, rs_targets = cs\<rparr>), KOk) \<in> set t"
proof -
  have "create_run s cs b (None, b')" using Create_runs [of s cs b k] unfolding assms .
  then show ?thesis
  proof cases
    case (created idx u)
    let ?t = "create_prologue s cs @ listener_ok (netnsName s) @ all_ok (uplink_steps idx (netnsName s))"
    have "guarded s cs ?t" by (rule guarded_setup)
    moreover have "(Exec (nft_argv (netnsName s)) (Render \<lparr>rs_sessionID = s, rs_targets = cs\<rparr>), KOk) \<in> set ?t"
      by (simp add: create_prologue_def)
    moreover have "ls_trace b' = ls_trace b @ ?t" using created by simp
    ultimately show ?thesis by blast
  qed
qed

text \<open>C2: A created session is confined to its credential. If \<^verbatim>\<open>POST /sessions\<close> answers 201, the session is stored, a script was
  loaded into its namespace with success before any command that connects the namespace, and, if its identifier is
  plain, the script confines it to the targets of its credential: what nft reads from the script lets a new connection pass
  exactly if one of the targets contains the destination and no denied block does.\<close>

theorem session_scope_enforced:
  assumes "nft_reads nft" and "createSession tx (LinuxBackend_ops k) body st = (r, st')" and "hr_Status r = 201"
  shows "\<exists>cred t script. st_Sessions st' (cd_SessionID cred) = Some cred \<and>
    ls_trace (backend_of st') = ls_trace (backend_of st) @ t \<and>
    (let load = (Exec (nft_argv (netnsName (cd_SessionID cred))) script, KOk)
     in load \<in> set t \<and> (\<forall>before c after. t = before @ c # after \<longrightarrow> connects (fst c) \<longrightarrow> load \<in> set before)) \<and>
    (plain_id (cd_SessionID cred) \<longrightarrow> confines nft script (cd_Targets cred))"
proof -
  obtain cred cs where c: "CreateSandbox (LinuxBackend_ops k) (st_Sandbox st) (cd_SessionID cred) cs = (None, st_Sandbox st')"
      "rmap Parse (cd_Targets cred) = Inr cs" "st_Sessions st' (cd_SessionID cred) = Some cred"
    using assms(2)
  proof (cases rule: createSession_cases)
    case (created cred cs c')
    then show ?thesis by (intro that [of cred cs]) simp_all
  qed (use assms(3) in simp_all)
  let ?r = "\<lparr>rs_sessionID = cd_SessionID cred, rs_targets = cs\<rparr>"
  let ?load = "(Exec (nft_argv (netnsName (cd_SessionID cred))) (Render ?r), KOk)"
  have "Create k (cd_SessionID cred) cs (backend_of st) = (None, backend_of st')"
    using c(1)
    by (auto simp: CreateSandbox_def LinuxBackend_ops_def dest!: sym [of _ "st_Sandbox st'"]
        split: if_splits prod.splits option.splits)
  from Create_ok_trace [OF this] obtain t where t: "ls_trace (backend_of st') = ls_trace (backend_of st) @ t"
      "guarded (cd_SessionID cred) cs t" "?load \<in> set t"
    by blast
  have "\<forall>before c after. t = before @ c # after \<longrightarrow> connects (fst c) \<longrightarrow> ?load \<in> set before"
    using t(2) unfolding guarded_def by blast
  moreover have "plain_id (cd_SessionID cred) \<longrightarrow> confines nft (Render ?r) (cd_Targets cred)"
    using Render_confines [OF assms(1), of ?r "cd_Targets cred"] c(2) by simp
  ultimately show ?thesis
    unfolding Let_def using c(3) t(1,3) by blast
qed

theorem session_scope_enforced_witness:
  "\<exists>r st'. createSession example_texts (LinuxBackend_ops plain_kernel) (json_encode (credential_json example_cred))
       (empty_state (NewController NewLinuxSandbox) example_key None None) = (r, st') \<and> hr_Status r = 201 \<and>
     (\<exists>cred t script. st_Sessions st' (cd_SessionID cred) = Some cred \<and> ls_trace (backend_of st') = t \<and>
        (Exec (nft_argv (netnsName (cd_SessionID cred))) script, KOk) \<in> set t \<and>
        (plain_id (cd_SessionID cred) \<longrightarrow> confines line_reader script (cd_Targets cred)))"
proof -
  obtain r st' where r: "createSession example_texts (LinuxBackend_ops plain_kernel) (json_encode (credential_json example_cred))
      (empty_state (NewController NewLinuxSandbox) example_key None None) = (r, st')" "hr_Status r = 201"
    using plain_create_session by blast
  from session_scope_enforced [OF line_reader_reads this] r show ?thesis
    by (auto simp: empty_state_def NewController_def NewLinuxSandbox_def Let_def)
qed

section \<open>A breach reaches the log\<close>

text \<open>C4: A breach reaches the public log. A drop was recorded, with strings in valid UTF-8, and its entry was appended with success to a
  spool of whole entries, of which some may still be pending. Then, as long as nothing else is appended, if the spool can be
  read and the log refuses or cannot be reached at most \<open>k\<close> times, the loop of the submitter comes to rest after at most
  \<open>k\<close> turns, one for each pending entry and two more, with its offset behind the entry, and has submitted it with
  success: the content is the reduced payload of the event, the signature verifies over it under the active key, and the
  public key is that key. If the checkpoint can be written, it is at the end of the spool.\<close>

theorem breach_reaches_log:
  assumes "ed25519_correct cr" and "jcs_faithful cr" and "key_ok cr (st_ActiveKey st)"
    and "recordDrop cr nv d st = (Some e, st')"
    and "list_all valid_utf8 [d_SessionID d, nv_uuid nv, sk_keyID (st_ActiveKey st)]" and "ascii (d_Proto d)"
    and "\<forall>cred\<in>ran (st_Sessions st). valid_utf8 (cd_AgentID cred)"
    and "list_all valid_entry (es @ fs)" and "\<forall>e\<in>set fs. submission_of cr e \<noteq> None"
    and "sp_data sp = spool_text es @ spool_text fs" and "Append None True sp e = (True, sp1)"
    and "\<forall>h s. w_log w h s = submits (post h) c s" and "\<forall>h s. k \<le> refusals h \<longrightarrow> submits (post h) c s"
    and "\<forall>h. w_read w h = ReadsAll"
  shows "\<exists>n\<le>k + length fs + 2. \<exists>reduced sig sp2 h. ReducedPayload cr e = Inr reduced \<and>
    run_turns cr w n ((int (length (spool_text es)), backoff, sleeps), sp1, []) =
      ((int (length (sp_data sp1)), backoffMin, False), sp2, h) \<and>
    ((reduced, sig, en_PublicKeyPEM e), True) \<in> set h \<and>
    ((\<forall>h n. w_fs w h n) \<longrightarrow> sp_ckpt sp2 = Some (strconv_FormatInt (int (length (sp_data sp1))))) \<and>
    ed_Verify cr (VerifyingKey (st_ActiveKey st)) reduced sig \<and>
    (\<forall>key. public_key_pem key = en_PublicKeyPEM e \<longleftrightarrow> VerifyingKey key = VerifyingKey (st_ActiveKey st))"
proof -
  obtain reduced sig cred where e: "ReducedPayload cr e = Inr reduced" "RawURL_DecodeString (en_SecondSig e) = Inr sig"
      "ed_Verify cr (VerifyingKey (st_ActiveKey st)) reduced sig"
      "\<forall>key. public_key_pem key = en_PublicKeyPEM e \<longleftrightarrow> VerifyingKey key = VerifyingKey (st_ActiveKey st)"
      "st_Sessions st (d_SessionID d) = Some cred"
    using recordDrop_entry [OF assms(1-4)] by blast
  have "valid_utf8 (cd_AgentID cred)" using assms(7) e(5) by (meson ranI)
  then have valid: "valid_entry e"
    using recorded_entry_valid [OF assms(2) e(5) assms(4)] assms(5,6) by simp
  have sub: "submission_of cr e = Some (reduced, sig, en_PublicKeyPEM e)" using e by (simp add: submission_of_def)
  have data: "sp_data sp1 = spool_text es @ spool_text (fs @ [e]) @ []"
    using assms(10,11) by (auto simp: Append_def Let_def)
  have log: "\<forall>h s. k \<le> refusals h \<longrightarrow> w_log w h s" using assms(12,13) by simp
  have pending: "list_all valid_entry (fs @ [e])" "\<forall>e\<in>set (fs @ [e]). submission_of cr e \<noteq> None"
    using assms(8,9) valid sub by auto
  have no_tail: "newline \<notin> set []" by simp
  let ?last = "int (length (spool_text (es @ (fs @ [e]))))"
  have end_eq: "?last = int (length (sp_data sp1))" using data by simp
  obtain n sp2 h where n: "n \<le> Suc (k - refusals [] + length (fs @ [e]))"
      "run_turns cr w n ((int (length (spool_text es)), backoff, sleeps), sp1, []) = ((?last, backoffMin, False), sp2, h)"
      "all_accepted cr (fs @ [e]) h"
      "(\<forall>h n. w_fs w h n) \<longrightarrow> sp_ckpt sp2 = (if fs @ [e] = [] then sp_ckpt sp1 else Some (strconv_FormatInt ?last))"
    using run_turns_drained [OF log assms(14) no_tail pending data, of "[]" backoff sleeps] by blast
  have "n \<le> k + length fs + 2" "(\<forall>h n. w_fs w h n) \<longrightarrow> sp_ckpt sp2 = Some (strconv_FormatInt (int (length (sp_data sp1))))"
    using n(1,4) unfolding end_eq by simp_all
  moreover note n(2) [unfolded end_eq]
  moreover have "((reduced, sig, en_PublicKeyPEM e), True) \<in> set h" using n(3) sub by (simp add: all_accepted_def)
  ultimately show ?thesis using e(1,3,4) by blast
qed

text \<open>A log that cannot be reached twice and then answers that it has the entry already.\<close>

definition flaky_log :: "history \<Rightarrow> transport" where
  "flaky_log h = (\<lambda>_ _. if refusals h < 2 then Inl ''timeout''
     else Inr \<lparr>rsp_StatusCode = 409, rsp_Location = [], rsp_Body = []\<rparr>)"

definition flaky_world :: World where
  "flaky_world = \<lparr>w_log = (\<lambda>h. submits (flaky_log h) (NewClient ''http://rekor'')), w_fs = (\<lambda>_ _. True), w_read = (\<lambda>_. ReadsAll)\<rparr>"

theorem breach_reaches_log_witness:
  "\<exists>e st' sp1 n s sp2 h. recordDrop example_crypto example_env example_drop example_state = (Some e, st') \<and>
     Append None True \<lparr>sp_data = spool_text [example_entry], sp_synced = 0, sp_ckpt = None\<rparr> e = (True, sp1) \<and> n \<le> 5 \<and>
     run_turns example_crypto flaky_world n ((0, 1, False), sp1, []) = ((int (length (sp_data sp1)), backoffMin, False), sp2, h) \<and>
     (s, True) \<in> set h"
proof -
  have cred: "st_Sessions example_state (d_SessionID example_drop) = Some example_cred"
    by (simp add: example_state_def empty_state_def example_drop_def)
  obtain e st' where r: "recordDrop example_crypto example_env example_drop example_state = (Some e, st')"
  proof -
    obtain r st' where "recordDrop example_crypto example_env example_drop example_state = (r, st')" by fastforce
    with cred that show ?thesis
      using example_admitted by (cases rule: recordDrop_cases [OF example_jcs, rotated 2]) (simp_all add: example_drop_def)
  qed
  have key: "key_ok example_crypto (st_ActiveKey example_state)"
    using example_key_ok by (simp add: example_state_def empty_state_def)
  have texts: "list_all valid_utf8 [d_SessionID example_drop, nv_uuid example_env, sk_keyID (st_ActiveKey example_state)]"
    "ascii (d_Proto example_drop)" "\<forall>cred\<in>ran (st_Sessions example_state). valid_utf8 (cd_AgentID cred)"
    by (simp_all add: example_drop_def example_env_def example_state_def empty_state_def example_key_def example_cred_def
        ascii_valid)
  let ?sp = "\<lparr>sp_data = spool_text [example_entry], sp_synced = 0, sp_ckpt = None\<rparr>"
  obtain sp1 where sp1: "Append None True ?sp e = (True, sp1)" by (simp add: Append_def Let_def)
  have log: "\<forall>h s. w_log flaky_world h s = submits (flaky_log h) (NewClient ''http://rekor'') s"
    "\<forall>h s. 2 \<le> refusals h \<longrightarrow> submits (flaky_log h) (NewClient ''http://rekor'') s" "\<forall>h. w_read flaky_world h = ReadsAll"
    by (simp_all add: flaky_world_def submits_def Submit_def flaky_log_def split: prod.split)
  have "list_all valid_entry ([] @ [example_entry])" "\<forall>e\<in>set [example_entry]. submission_of example_crypto e \<noteq> None"
    "sp_data ?sp = spool_text [] @ spool_text [example_entry]"
    using example_entry_valid example_submission by simp_all
  from breach_reaches_log [OF example_ed25519 example_jcs key r texts this sp1 log, of 1 False]
  obtain n reduced sig sp2 h where "n \<le> 2 + length [example_entry] + 2"
    "run_turns example_crypto flaky_world n ((int (length (spool_text [])), 1, False), sp1, []) =
      ((int (length (sp_data sp1)), backoffMin, False), sp2, h)" "((reduced, sig, en_PublicKeyPEM e), True) \<in> set h"
    by blast
  with r sp1 show ?thesis
    by (intro exI [of _ e] exI [of _ st'] exI [of _ sp1] exI [of _ n] exI [of _ "(reduced, sig, en_PublicKeyPEM e)"] exI [of _ sp2]
        exI [of _ h]) simp
qed

end
